(* ===== verification/Azul_Prelude.thy ===== *)
theory Azul_Prelude
  imports Main "HOL-Library.Word"
begin

text \<open>
  Shared vocabulary of the development: the exceptions the library throws as values, the
  fixed-width integers of the C++ code, and the generic lemmas on lists and words that several
  components use.

  A C++ function that can throw returns a value of \<open>cpp_error + 'a\<close>: \<open>Inl\<close> holds the exception
  and \<open>Inr\<close> the result. \<open>undefined_behaviour\<close> is no exception of the code: it marks
  the places where C++ gives no meaning (a division by zero, an access outside an array), so that
  a theorem that an operation returns \<open>Inr\<close> also says that it stays clear of them.
\<close>

section \<open>Exceptions as values\<close>

text \<open>
  Error numbers of the operating systems, by their names; \<open>Errno\<close> stands for all others. A C
  function returns zero, an error number, or \<open>-1\<close>.
\<close>

datatype errno =
    EPERM | ENOENT | EBADF | EBUSY | EEXIST | EINVAL | EDEADLK | EWOULDBLOCK | EDQUOT | ETIMEDOUT
  | EOWNERDEAD | ENOTRECOVERABLE | Errno nat

datatype c_result = Zero | Code errno | Minus_One

text \<open>
  \<open>runtime_error_code\<close> is a \<open>std::runtime_error\<close> whose text ends in the number of a result, which
  the code appends with \<open>std::to_string\<close>.
\<close>

datatype cpp_error =
    runtime_error string
  | runtime_error_code string c_result
  | logic_error string
  | undefined_behaviour

section \<open>Machine integers\<close>

type_synonym u32 = "32 word"
type_synonym u64 = "64 word"

text \<open>The operator \<open>%\<close> of C++ on unsigned operands: undefined for a zero divisor.\<close>

definition umod :: "'n::len word \<Rightarrow> 'n word \<Rightarrow> cpp_error + 'n word" where
  "umod a b = (if b = 0 then Inl undefined_behaviour else Inr (a mod b))"

text \<open>The operator \<open>/\<close> of C++ on unsigned operands: undefined for a zero divisor.\<close>

definition udiv :: "'n::len word \<Rightarrow> 'n word \<Rightarrow> cpp_error + 'n word" where
  "udiv a b = (if b = 0 then Inl undefined_behaviour else Inr (a div b))"

text \<open>An element access \<open>a[i]\<close> and an element update on a raw array.\<close>

definition array_read :: "'a list \<Rightarrow> 'n::len word \<Rightarrow> cpp_error + 'a" where
  "array_read xs i = (if unat i < length xs then Inr (xs ! unat i) else Inl undefined_behaviour)"

definition array_write :: "'a list \<Rightarrow> 'n::len word \<Rightarrow> 'a \<Rightarrow> cpp_error + 'a list" where
  "array_write xs i x =
     (if unat i < length xs then Inr (xs[unat i := x]) else Inl undefined_behaviour)"

section \<open>Automation\<close>

named_theorems word_unat \<open>unsigned reading of word arithmetic that does not wrap\<close>

lemma unat_plus_nowrap [word_unat]:
  fixes a b :: "'n::len word"
  shows "unat a + unat b < 2 ^ LENGTH('n) \<Longrightarrow> unat (a + b) = unat a + unat b"
  by (simp add: unat_word_ariths)

lemma unat_mult_nowrap [word_unat]:
  fixes a b :: "'n::len word"
  shows "unat a * unat b < 2 ^ LENGTH('n) \<Longrightarrow> unat (a * b) = unat a * unat b"
  by (simp add: unat_word_ariths)

lemma unat_Suc_nowrap [word_unat]:
  fixes a b :: "'n::len word"
  assumes "a < b"
  shows "unat (a + 1) = Suc (unat a)"
proof -
  have "unat a < unat b" using assms by (simp add: word_less_nat_alt)
  then have "Suc (unat a) < 2 ^ LENGTH('n)" using unsigned_less [of b] by (metis Suc_leI order.strict_trans1)
  then show ?thesis by (simp add: unat_word_ariths)
qed

lemma unat_pred [word_unat]:
  fixes a :: "'n::len word"
  shows "0 < unat a \<Longrightarrow> unat (a - 1) = unat a - 1"
  by (metis One_nat_def Suc_leI unat_sub_if' unat_1)

lemma unat_of_nat_le:
  fixes b :: "'n::len word"
  assumes "n \<le> unat b"
  shows "unat (word_of_nat n :: 'n word) = n"
proof -
  have "n < 2 ^ LENGTH('n)" using assms unsigned_less [of b] by (rule order.strict_trans1)
  then show ?thesis by (simp add: unsigned_of_nat take_bit_nat_eq_self)
qed

lemma word_of_nat_mod_div:
  fixes b :: "'n::len word"
  assumes "k < 2 ^ LENGTH('n)"
  shows "(word_of_nat k :: 'n word) mod b = word_of_nat (k mod unat b)"
    "(word_of_nat k :: 'n word) div b = word_of_nat (k div unat b)"
proof -
  have "unat (word_of_nat k :: 'n word) = k"
    using assms by (simp add: unsigned_of_nat take_bit_nat_eq_self)
  then show "(word_of_nat k :: 'n word) mod b = word_of_nat (k mod unat b)"
    "(word_of_nat k :: 'n word) div b = word_of_nat (k div unat b)"
    by (simp_all add: word_arith_nat_mod word_arith_nat_div)
qed

lemma unat_umod [word_unat]:
  fixes a b :: "'n::len word"
  shows "unat (a mod b) = unat a mod unat b"
  by (rule unat_mod)

section \<open>Lists\<close>

text \<open>The first position of an element, and what the code's linear searches return.\<close>

fun index_of :: "'a \<Rightarrow> 'a list \<Rightarrow> nat" where
  "index_of x [] = 0"
| "index_of x (y # ys) = (if y = x then 0 else Suc (index_of x ys))"

lemma index_of_less: "x \<in> set xs \<Longrightarrow> index_of x xs < length xs"
  by (induction xs) auto

lemma nth_index_of: "x \<in> set xs \<Longrightarrow> xs ! index_of x xs = x"
  by (induction xs) auto

lemma nth_before_index_of: "i < index_of x xs \<Longrightarrow> xs ! i \<noteq> x"
proof (induction xs arbitrary: i)
  case (Cons y ys)
  then show ?case by (cases i) (auto split: if_splits)
qed simp

lemma index_ofI:
  assumes "i < length xs" "xs ! i = x" "\<And>j. j < i \<Longrightarrow> xs ! j \<noteq> x"
  shows "index_of x xs = i"
proof (rule linorder_cases [of "index_of x xs" i])
  assume "index_of x xs < i"
  moreover have "x \<in> set xs" using assms(1,2) by auto
  ultimately show ?thesis using assms(3) nth_index_of by metis
next
  assume "i < index_of x xs"
  then show ?thesis using nth_before_index_of assms(2) by metis
qed

end
