(* ===== verification/Ipc_Queue.thy ===== *)
theory Ipc_Queue
  imports Azul_Prelude "HOL-Library.Multiset"
begin

text \<open>
  \<open>src/ipc/Queue.hpp\<close>: the ring buffer that the win32 and darwin condition variables keep in
  shared memory. The positions, the count and the item slots live in the memory block
  (\<open>queue_memory\<close>), which several processes map; \<open>_size\<close> is a member of each \<open>Queue\<close> object.
  All index arithmetic is on 32-bit words and wraps.
\<close>

section \<open>State\<close>

record 'a queue_memory =
  readPosition :: u32
  writePosition :: u32
  itemCount :: u32
  items :: "'a list"

record 'a queue =
  memory :: "'a queue_memory"
  qsize :: u32

section \<open>Operations\<close>

text \<open>
  The constructor: \<open>sz\<close> is the size of the memory block in bytes and \<open>sizeofItem\<close> is
  \<open>sizeof(TItem)\<close>. The subtraction of the three header words is unsigned and wraps.
\<close>

definition queue_size :: "u32 \<Rightarrow> u32 \<Rightarrow> u32" where
  "queue_size sz sizeofItem = (sz - 4 * 3) div sizeofItem"

definition Queue_ctor :: "'a queue_memory \<Rightarrow> u32 \<Rightarrow> u32 \<Rightarrow> bool \<Rightarrow> 'a queue" where
  "Queue_ctor mem sz sizeofItem initialize =
     \<lparr>memory =
        (if initialize
         then mem\<lparr>readPosition := 0, writePosition := 0, itemCount := 0\<rparr>
         else mem),
      qsize = queue_size sz sizeofItem\<rparr>"

text \<open>The byte offset of a slot: the items follow the three 32-bit words of the header.\<close>

definition item_offset :: "u32 \<Rightarrow> nat \<Rightarrow> nat" where
  "item_offset sizeofItem i = 4 * 3 + i * unat sizeofItem"

definition SpaceAvailable :: "'a queue \<Rightarrow> bool" where
  "SpaceAvailable q = (itemCount (memory q) < qsize q)"

definition Count :: "'a queue \<Rightarrow> u32" where
  "Count q = itemCount (memory q)"

definition Size :: "'a queue \<Rightarrow> u32" where
  "Size q = qsize q"

text \<open>\<open>(*_readPosition + i + _size) % _size\<close>, the slot of the \<open>i\<close>-th item.\<close>

definition slot_position :: "'a queue \<Rightarrow> u32 \<Rightarrow> cpp_error + u32" where
  "slot_position q i = umod (readPosition (memory q) + i + qsize q) (qsize q)"

text \<open>
  The search loop that \<open>Contains\<close> and \<open>Remove\<close> share: the first slot from \<open>i\<close> on that holds
  the item, or \<open>None\<close> when the loop ends.
\<close>

function find_slot :: "'a queue \<Rightarrow> 'a \<Rightarrow> u32 \<Rightarrow> cpp_error + u32 option" where
  "find_slot q item i =
     (if i < itemCount (memory q)
      then (case slot_position q i of
              Inl e \<Rightarrow> Inl e
            | Inr position \<Rightarrow>
                (case array_read (items (memory q)) position of
                   Inl e \<Rightarrow> Inl e
                 | Inr x \<Rightarrow>
                     if x = item then Inr (Some position) else find_slot q item (i + 1)))
      else Inr None)"
  by pat_completeness auto
termination
  by (relation "measure (\<lambda>(q, item, i). unat (itemCount (memory q)) - unat i)")
    (auto simp: word_unat word_less_nat_alt intro!: diff_less_mono2)

declare find_slot.simps [simp del]

definition Contains :: "'a queue \<Rightarrow> 'a \<Rightarrow> cpp_error + bool" where
  "Contains q item =
     (case find_slot q item 0 of Inl e \<Rightarrow> Inl e | Inr p \<Rightarrow> Inr (p \<noteq> None))"

definition Pop :: "'a queue \<Rightarrow> cpp_error + 'a queue" where
  "Pop q =
     (if 0 < Count q
      then (case umod (readPosition (memory q) + 1 + qsize q) (qsize q) of
              Inl e \<Rightarrow> Inl e
            | Inr r \<Rightarrow>
                Inr (q\<lparr>memory := (memory q)\<lparr>readPosition := r,
                                            itemCount := itemCount (memory q) - 1\<rparr>\<rparr>))
      else Inl (runtime_error ''no item available''))"

definition Front :: "'a queue \<Rightarrow> cpp_error + 'a" where
  "Front q =
     (if 0 < Count q then array_read (items (memory q)) (readPosition (memory q))
      else Inl (runtime_error ''no item available''))"

definition PopBack :: "'a queue \<Rightarrow> cpp_error + 'a queue" where
  "PopBack q =
     (if 0 < Count q
      then (case umod (writePosition (memory q) - 1 + qsize q) (qsize q) of
              Inl e \<Rightarrow> Inl e
            | Inr w \<Rightarrow>
                Inr (q\<lparr>memory := (memory q)\<lparr>writePosition := w,
                                            itemCount := itemCount (memory q) - 1\<rparr>\<rparr>))
      else Inl (runtime_error ''no item available''))"

definition Back :: "'a queue \<Rightarrow> cpp_error + 'a" where
  "Back q =
     (if 0 < Count q
      then (case umod (writePosition (memory q) + qsize q - 1) (qsize q) of
              Inl e \<Rightarrow> Inl e
            | Inr p \<Rightarrow> array_read (items (memory q)) p)
      else Inl (runtime_error ''no item available''))"

definition PushBack :: "'a queue \<Rightarrow> 'a \<Rightarrow> cpp_error + 'a queue" where
  "PushBack q item =
     (if SpaceAvailable q
      then (case array_write (items (memory q)) (writePosition (memory q)) item of
              Inl e \<Rightarrow> Inl e
            | Inr xs \<Rightarrow>
                (case umod (writePosition (memory q) + 1 + qsize q) (qsize q) of
                   Inl e \<Rightarrow> Inl e
                 | Inr w \<Rightarrow>
                     Inr (q\<lparr>memory := (memory q)\<lparr>items := xs, writePosition := w,
                                                 itemCount := itemCount (memory q) + 1\<rparr>\<rparr>)))
      else Inl (runtime_error ''no space available''))"

text \<open>
  \<open>Remove\<close> fills the found slot with the last item and drops the last item. The result says
  whether an item was found.
\<close>

definition Remove :: "'a queue \<Rightarrow> 'a \<Rightarrow> cpp_error + bool \<times> 'a queue" where
  "Remove q item =
     (if Count q = 0 then Inr (False, q)
      else (case find_slot q item 0 of
              Inl e \<Rightarrow> Inl e
            | Inr None \<Rightarrow> Inr (False, q)
            | Inr (Some position) \<Rightarrow>
                (case Back q of
                   Inl e \<Rightarrow> Inl e
                 | Inr x \<Rightarrow>
                     (case array_write (items (memory q)) position x of
                        Inl e \<Rightarrow> Inl e
                      | Inr xs \<Rightarrow>
                          (case PopBack (q\<lparr>memory := (memory q)\<lparr>items := xs\<rparr>\<rparr>) of
                             Inl e \<Rightarrow> Inl e
                           | Inr q' \<Rightarrow> Inr (True, q'))))))"

section \<open>The ring as a list\<close>

text \<open>
  \<open>ring_list n r c xs\<close> reads \<open>c\<close> items from the ring of \<open>n\<close> slots \<open>xs\<close>, starting at slot \<open>r\<close>.
  Its lemmas are about natural numbers only.
\<close>

definition ring_list :: "nat \<Rightarrow> nat \<Rightarrow> nat \<Rightarrow> 'a list \<Rightarrow> 'a list" where
  "ring_list n r c xs = map (\<lambda>i. xs ! ((r + i) mod n)) [0..<c]"

lemma length_ring_list [simp]: "length (ring_list n r c xs) = c"
  by (simp add: ring_list_def)

lemma nth_ring_list [simp]: "i < c \<Longrightarrow> ring_list n r c xs ! i = xs ! ((r + i) mod n)"
  by (simp add: ring_list_def)

lemma ring_slot_inj:
  fixes i j n r :: nat
  assumes "i < n" "j < n" "(r + i) mod n = (r + j) mod n"
  shows "i = j"
  using assms
proof (induction i j rule: linorder_wlog)
  case (le i j)
  then have "n dvd (r + j) - (r + i)" by (metis add_le_cancel_left mod_eq_dvd_iff_nat)
  then have "n dvd j - i" by simp
  with le show ?case by (metis diff_diff_cancel diff_le_self dvd_imp_le leD le_eq_less_or_eq
        less_imp_diff_less minus_nat.diff_0 zero_less_diff)
next
  case (sym i j)
  then show ?case by simp
qed

lemma ring_list_update:
  assumes "i < c" "c \<le> n" "n \<le> length xs"
  shows "ring_list n r c (xs[(r + i) mod n := x]) = (ring_list n r c xs)[i := x]"
proof (rule nth_equalityI)
  fix j assume "j < length (ring_list n r c (xs[(r + i) mod n := x]))"
  then have j: "j < c" by simp
  have bound: "(r + i) mod n < length xs"
    using assms by (meson less_le_trans mod_less_divisor order.strict_trans1 zero_le)
  show "ring_list n r c (xs[(r + i) mod n := x]) ! j = (ring_list n r c xs)[i := x] ! j"
  proof (cases "j = i")
    case True
    then show ?thesis using j bound by simp
  next
    case False
    then have "(r + j) mod n \<noteq> (r + i) mod n"
      using ring_slot_inj [of j n i r] j assms by auto
    then show ?thesis using False j by simp
  qed
qed simp

lemma ring_list_push:
  assumes "c < n" "n \<le> length xs"
  shows "ring_list n r (Suc c) (xs[(r + c) mod n := x]) = ring_list n r c xs @ [x]"
proof -
  have "ring_list n r (Suc c) (xs[(r + c) mod n := x]) = (ring_list n r (Suc c) xs)[c := x]"
    using assms by (intro ring_list_update) auto
  also have "ring_list n r (Suc c) xs = ring_list n r c xs @ [xs ! ((r + c) mod n)]"
    by (simp add: ring_list_def)
  finally show ?thesis by (simp add: list_update_append)
qed

lemma ring_list_pop: "ring_list n ((r + 1) mod n) (c - 1) xs = tl (ring_list n r c xs)"
  by (rule nth_equalityI) (auto simp: nth_tl mod_add_left_eq)

lemma ring_list_pop_back: "ring_list n r (c - 1) xs = butlast (ring_list n r c xs)"
  by (rule nth_equalityI) (auto simp: nth_butlast)

lemma ring_list_last:
  "0 < c \<Longrightarrow> last (ring_list n r c xs) = xs ! ((r + (c - 1)) mod n)"
  by (subst last_conv_nth) (auto simp: ring_list_def)

section \<open>Invariant and abstraction\<close>

text \<open>
  The invariant: the positions are slots of the ring, the write position is \<open>count\<close> slots after
  the read position, the slots exist, and the ring is small enough that
  \<open>_readPosition + i + _size\<close> never reaches \<open>2 ^ 32\<close>.
\<close>

definition queue_inv :: "'a queue \<Rightarrow> bool" where
  "queue_inv q \<longleftrightarrow>
     (let n = unat (qsize q); r = unat (readPosition (memory q));
          w = unat (writePosition (memory q)); c = unat (itemCount (memory q))
      in c \<le> n \<and> n \<le> length (items (memory q)) \<and> 3 * n \<le> 2 ^ 32 + 1 \<and>
         (0 < n \<longrightarrow> r < n \<and> w = (r + c) mod n))"

text \<open>The items of the queue, oldest first.\<close>

definition queue_list :: "'a queue \<Rightarrow> 'a list" where
  "queue_list q =
     ring_list (unat (qsize q)) (unat (readPosition (memory q)))
       (unat (itemCount (memory q))) (items (memory q))"

text \<open>What \<open>Remove\<close> does to the list: the last item takes the place of the removed one.\<close>

definition remove_swap :: "'a \<Rightarrow> 'a list \<Rightarrow> 'a list" where
  "remove_swap x xs = butlast (xs[index_of x xs := last xs])"

lemmas queue_defs = queue_inv_def queue_list_def Let_def

lemma length_queue_list [simp]: "length (queue_list q) = unat (Count q)"
  by (simp add: queue_list_def Count_def)

section \<open>Word arithmetic of the positions\<close>

lemma queue_inv_slot:
  assumes "queue_inv q" "unat i < unat (qsize q)"
  shows "\<exists>p. slot_position q i = Inr p \<and>
           unat p = (unat (readPosition (memory q)) + unat i) mod unat (qsize q)"
proof -
  let ?r = "readPosition (memory q)" and ?n = "qsize q"
  have n: "?n \<noteq> 0" using assms(2) by (metis not_less_zero unat_0)
  have bnd: "unat ?r + unat i + unat ?n < 2 ^ 32"
    using assms by (auto simp: queue_defs)
  have 1: "unat (?r + i) = unat ?r + unat i"
    using bnd by (intro unat_plus_nowrap) simp
  have "unat (?r + i + ?n) = unat ?r + unat i + unat ?n"
    using bnd by (subst unat_plus_nowrap) (auto simp: 1)
  then show ?thesis using n by (simp add: slot_position_def umod_def word_unat)
qed

lemma next_position:
  fixes w n :: u32
  assumes "unat w < unat n" "3 * unat n \<le> 2 ^ 32 + 1"
  shows "\<exists>p. umod (w + 1 + n) n = Inr p \<and> unat p = (unat w + 1) mod unat n"
proof -
  have n: "n \<noteq> 0" using assms(1) by (metis not_less_zero unat_0)
  have 1: "unat (w + 1) = unat w + 1"
    using unat_Suc_nowrap [of w n] assms(1) by (simp add: word_less_nat_alt)
  have "unat (w + 1 + n) = unat w + 1 + unat n"
    using assms by (subst unat_plus_nowrap) (auto simp: 1)
  then have "unat ((w + 1 + n) mod n) = (unat w + 1) mod unat n"
    by (simp only: unat_mod mod_add_self2)
  then show ?thesis using n by (simp add: umod_def)
qed

lemma previous_position:
  fixes w n :: u32
  assumes "unat w < unat n" "3 * unat n \<le> 2 ^ 32 + 1"
  shows "\<exists>p. umod (w - 1 + n) n = Inr p \<and> unat p = (unat w + unat n - 1) mod unat n"
proof -
  have n: "n \<noteq> 0" using assms(1) by (metis not_less_zero unat_0)
  have 1: "unat (w + n) = unat w + unat n" using assms by (intro unat_plus_nowrap) auto
  have "unat (w + n - 1) = unat w + unat n - 1"
    using assms(1) by (subst unat_pred) (auto simp: 1)
  moreover have "w - 1 + n = w + n - 1" by simp
  ultimately have "unat ((w - 1 + n) mod n) = (unat w + unat n - 1) mod unat n"
    by (simp only: unat_mod)
  then show ?thesis using n by (simp add: umod_def)
qed

lemma ring_previous:
  fixes r c n :: nat
  assumes "0 < c" "c \<le> n"
  shows "((r + c) mod n + n - 1) mod n = (r + (c - 1)) mod n"
proof -
  have "((r + c) mod n + n - 1) mod n = ((r + c) mod n + (n - 1)) mod n"
    using assms by (simp add: Nat.add_diff_assoc2)
  also have "\<dots> = (r + c + (n - 1)) mod n" by (rule mod_add_left_eq)
  also have "r + c + (n - 1) = (r + (c - 1)) + n" using assms by simp
  finally show ?thesis by simp
qed

lemma Count_pos_iff: "0 < Count q \<longleftrightarrow> queue_list q \<noteq> []"
proof -
  have "queue_list q \<noteq> [] \<longleftrightarrow> 0 < unat (Count q)"
    using length_queue_list [of q] by (metis length_greater_0_conv)
  then show ?thesis by (metis word_less_nat_alt unat_0)
qed

lemma Count_0_iff: "Count q = 0 \<longleftrightarrow> queue_list q = []"
  using Count_pos_iff [of q] by (metis word_gt_0 word_not_simps(1))

section \<open>The operations on the list\<close>

lemma SpaceAvailable_iff:
  "SpaceAvailable q \<longleftrightarrow> length (queue_list q) < unat (Size q)"
  by (simp add: SpaceAvailable_def Size_def Count_def word_less_nat_alt)

lemma PushBack_space:
  assumes "queue_inv q" "length (queue_list q) < unat (Size q)"
  shows "\<exists>q'. PushBack q x = Inr q' \<and> queue_inv q' \<and> queue_list q' = queue_list q @ [x] \<and>
           Size q' = Size q"
proof -
  let ?m = "memory q" and ?n = "unat (qsize q)"
  let ?r = "unat (readPosition ?m)" and ?c = "unat (itemCount ?m)"
  have c: "?c < ?n" using assms(2) by (simp add: Count_def Size_def)
  have w: "unat (writePosition ?m) = (?r + ?c) mod ?n" "?n \<le> length (items ?m)"
    "3 * ?n \<le> 2 ^ 32 + 1" "?r < ?n"
    using assms c by (auto simp: queue_defs)
  then have wn: "unat (writePosition ?m) < ?n" using c by simp
  then have wl: "(?r + ?c) mod ?n < length (items ?m)" using w(1,2) by simp
  from next_position [OF wn w(3)] obtain p where
    p: "umod (writePosition ?m + 1 + qsize q) (qsize q) = Inr p"
      "unat p = (unat (writePosition ?m) + 1) mod ?n" by blast
  have c1: "unat (itemCount ?m + 1) = Suc ?c"
    using c by (intro unat_Suc_nowrap [of _ "qsize q"]) (simp add: word_less_nat_alt)
  have up: "unat p = (?r + Suc ?c) mod ?n" by (simp add: p(2) w(1) mod_Suc_eq)
  show ?thesis
    using assms c w wl p(1)
    by (auto simp: PushBack_def SpaceAvailable_iff array_write_def queue_defs c1 up Size_def
        ring_list_push Count_def)
qed

lemma PushBack_full:
  assumes "queue_inv q" "\<not> length (queue_list q) < unat (Size q)"
  shows "PushBack q x = Inl (runtime_error ''no space available'')"
  using assms(2) unfolding PushBack_def SpaceAvailable_iff by simp

lemma Pop_nonempty:
  assumes "queue_inv q" "queue_list q \<noteq> []"
  shows "\<exists>q'. Pop q = Inr q' \<and> queue_inv q' \<and> queue_list q' = tl (queue_list q) \<and> Size q' = Size q"
proof -
  let ?m = "memory q" and ?n = "unat (qsize q)"
  let ?r = "unat (readPosition ?m)" and ?c = "unat (itemCount ?m)"
  have c: "0 < ?c" "0 < Count q"
    using assms(2) Count_pos_iff [of q] by (auto simp: Count_def word_less_nat_alt)
  then have n: "0 < ?n" "?c \<le> ?n" "?r < ?n" "3 * ?n \<le> 2 ^ 32 + 1" "?n \<le> length (items ?m)"
    "unat (writePosition ?m) = (?r + ?c) mod ?n"
    using assms by (auto simp: queue_defs)
  from next_position [OF n(3,4)] obtain p where
    p: "umod (readPosition ?m + 1 + qsize q) (qsize q) = Inr p" "unat p = (?r + 1) mod ?n"
    by blast
  have c1: "unat (itemCount ?m - 1) = ?c - 1" using c by (intro unat_pred)
  have w: "((?r + 1) mod ?n + (?c - 1)) mod ?n = (?r + ?c) mod ?n"
    using c mod_add_left_eq [of "?r + 1" ?n "?c - 1"] by simp
  show ?thesis
    using n c p(1) ring_list_pop [of ?n ?r ?c "items ?m"] w
    by (auto simp: Pop_def queue_defs c1 p(2) Size_def)
qed

lemma PopBack_nonempty:
  assumes "queue_inv q" "queue_list q \<noteq> []"
  shows "\<exists>q'. PopBack q = Inr q' \<and> queue_inv q' \<and> queue_list q' = butlast (queue_list q) \<and>
           Size q' = Size q"
proof -
  let ?m = "memory q" and ?n = "unat (qsize q)"
  let ?r = "unat (readPosition ?m)" and ?c = "unat (itemCount ?m)"
  have c: "0 < ?c" "0 < Count q"
    using assms(2) Count_pos_iff [of q] by (auto simp: Count_def word_less_nat_alt)
  then have n: "0 < ?n" "?c \<le> ?n" "?r < ?n" "3 * ?n \<le> 2 ^ 32 + 1" "?n \<le> length (items ?m)"
    "unat (writePosition ?m) = (?r + ?c) mod ?n"
    using assms by (auto simp: queue_defs)
  then have "unat (writePosition ?m) < ?n" by simp
  from previous_position [OF this n(4)] obtain p where
    p: "umod (writePosition ?m - 1 + qsize q) (qsize q) = Inr p"
      "unat p = (unat (writePosition ?m) + ?n - 1) mod ?n" by blast
  have c1: "unat (itemCount ?m - 1) = ?c - 1" using c by (intro unat_pred)
  have up: "unat p = (?r + (?c - 1)) mod ?n" using ring_previous [OF c(1) n(2)] n(6) p(2) by simp
  show ?thesis
    using n c p(1) ring_list_pop_back [of ?n ?r ?c "items ?m"]
    by (auto simp: PopBack_def queue_defs c1 up Size_def)
qed

lemma Front_nonempty:
  assumes "queue_inv q" "queue_list q \<noteq> []"
  shows "Front q = Inr (hd (queue_list q))"
proof -
  have "0 < Count q" "0 < unat (Count q)"
    using assms(2) Count_pos_iff [of q] by (auto simp: word_less_nat_alt)
  then show ?thesis
    using assms
    by (auto simp: Front_def queue_defs array_read_def hd_conv_nth Count_def ring_list_def)
qed

lemma Back_nonempty:
  assumes "queue_inv q" "queue_list q \<noteq> []"
  shows "Back q = Inr (last (queue_list q))"
proof -
  let ?m = "memory q" and ?n = "unat (qsize q)"
  let ?r = "unat (readPosition ?m)" and ?c = "unat (itemCount ?m)"
  have c: "0 < ?c" "0 < Count q"
    using assms(2) Count_pos_iff [of q] by (auto simp: Count_def word_less_nat_alt)
  then have n: "0 < ?n" "?c \<le> ?n" "3 * ?n \<le> 2 ^ 32 + 1" "?n \<le> length (items ?m)"
    "unat (writePosition ?m) = (?r + ?c) mod ?n"
    using assms by (auto simp: queue_defs)
  then have "unat (writePosition ?m) < ?n" by simp
  from previous_position [OF this n(3)] obtain p where
    p: "umod (writePosition ?m - 1 + qsize q) (qsize q) = Inr p"
      "unat p = (unat (writePosition ?m) + ?n - 1) mod ?n" by blast
  have up: "unat p = (?r + (?c - 1)) mod ?n" using ring_previous [OF c(1) n(2)] n(5) p(2) by simp
  then have "unat p < length (items ?m)" using n by (metis less_le_trans mod_less_divisor)
  moreover have "umod (writePosition ?m + qsize q - 1) (qsize q) = Inr p"
    using p(1) by (simp only: diff_add_eq)
  ultimately show ?thesis
    using c ring_list_last [OF c(1), of ?n ?r "items ?m"]
    by (simp add: Back_def queue_list_def array_read_def up)
qed

lemma empty_errors:
  assumes "queue_list q = []"
  shows "Pop q = Inl (runtime_error ''no item available'')"
    "Front q = Inl (runtime_error ''no item available'')"
    "PopBack q = Inl (runtime_error ''no item available'')"
    "Back q = Inl (runtime_error ''no item available'')"
    "Remove q x = Inr (False, q)"
  using assms Count_0_iff [of q] Count_pos_iff [of q]
  by (simp_all add: Pop_def Front_def PopBack_def Back_def Remove_def)

section \<open>Searching\<close>

lemma find_slot_spec:
  assumes "queue_inv q" "unat i \<le> unat (Count q)"
  shows "find_slot q x i =
     (if x \<in> set (drop (unat i) (queue_list q))
      then Inr (Some (of_nat ((unat (readPosition (memory q)) + unat i +
             index_of x (drop (unat i) (queue_list q))) mod unat (qsize q))))
      else Inr None)"
  using assms
proof (induction q x i rule: find_slot.induct)
  case (1 q x i)
  let ?xs = "queue_list q" and ?r = "unat (readPosition (memory q))" and ?n = "unat (qsize q)"
  show ?case
  proof (cases "i < itemCount (memory q)")
    case False
    then have "unat i = unat (Count q)"
      using "1.prems" by (simp add: word_less_nat_alt Count_def)
    then show ?thesis using False by (simp add: find_slot.simps [of q x i])
  next
    case True
    then have i: "unat i < length ?xs" by (simp add: word_less_nat_alt Count_def)
    have n: "unat i < ?n" "?n \<le> length (items (memory q))"
      using "1.prems"(1) i by (auto simp: queue_inv_def Let_def Count_def)
    from queue_inv_slot [OF "1.prems"(1) n(1)] obtain p where
      p: "slot_position q i = Inr p" "unat p = (?r + unat i) mod ?n" by blast
    have pl: "unat p < length (items (memory q))"
      using n p(2) by (metis less_le_trans mod_less_divisor not_less_zero neq0_conv)
    have rd: "array_read (items (memory q)) p = Inr (?xs ! unat i)"
      using i pl by (simp add: array_read_def queue_list_def p(2))
    have d: "drop (unat i) ?xs = ?xs ! unat i # drop (Suc (unat i)) ?xs"
      using i by (rule Cons_nth_drop_Suc [symmetric])
    have i1: "unat (i + 1) = Suc (unat i)" using True by (rule unat_Suc_nowrap)
    have pw: "word_of_nat ((?r + unat i) mod ?n) = p"
      by (simp flip: p(2))
    show ?thesis
    proof (cases "?xs ! unat i = x")
      case True
      then show ?thesis
        using \<open>i < _\<close> p rd pw by (simp add: find_slot.simps [of q x i] d)
    next
      case False
      have "unat (i + 1) \<le> unat (Count q)" using i i1 by simp
      with "1.IH" [OF \<open>i < _\<close> p(1) rd False] "1.prems"(1) i1
      show ?thesis
        using \<open>i < _\<close> p rd False by (simp add: find_slot.simps [of q x i] d)
    qed
  qed
qed

lemma Contains_spec:
  assumes "queue_inv q"
  shows "Contains q x = Inr (x \<in> set (queue_list q))"
  using find_slot_spec [OF assms, of 0 x] by (simp add: Contains_def)

lemma Remove_found:
  assumes "queue_inv q" "x \<in> set (queue_list q)"
  shows "\<exists>q'. Remove q x = Inr (True, q') \<and> queue_inv q' \<and>
           queue_list q' = remove_swap x (queue_list q) \<and> Size q' = Size q"
proof -
  let ?m = "memory q" and ?n = "unat (qsize q)" and ?xs = "queue_list q"
  let ?r = "unat (readPosition ?m)" and ?c = "unat (itemCount ?m)" and ?k = "index_of x ?xs"
  let ?p = "word_of_nat ((?r + ?k) mod ?n) :: u32"
  let ?ys = "(items ?m)[(?r + ?k) mod ?n := last ?xs]"
  let ?q = "q\<lparr>memory := ?m\<lparr>items := ?ys\<rparr>\<rparr>"
  have ne: "?xs \<noteq> []" using assms(2) by auto
  have k: "?k < ?c" using index_of_less [OF assms(2)] by (simp add: Count_def)
  have n: "?c \<le> ?n" "?n \<le> length (items ?m)" using assms(1) by (auto simp: queue_defs)
  have pb: "(?r + ?k) mod ?n < ?n" using k n by simp
  have up: "unat ?p = (?r + ?k) mod ?n"
    using pb by (intro unat_of_nat_le [of _ "qsize q"]) simp
  have fs: "find_slot q x 0 = Inr (Some ?p)"
    using find_slot_spec [OF assms(1), of 0 x] assms(2) by simp
  have wr: "array_write (items ?m) ?p (last ?xs) = Inr ?ys"
    using pb n by (simp add: array_write_def up)
  have inv: "queue_inv ?q" using assms(1) by (simp add: queue_inv_def)
  have ql: "queue_list ?q = ?xs[?k := last ?xs]"
    using ring_list_update [OF k n] by (simp add: queue_list_def)
  have "queue_list ?q \<noteq> []" using ne by (simp add: ql)
  from PopBack_nonempty [OF inv this] obtain q' where
    "PopBack ?q = Inr q'" "queue_inv q'" "queue_list q' = butlast (queue_list ?q)" "Size q' = Size q"
    by (auto simp: Size_def)
  then show ?thesis
    using fs wr Back_nonempty [OF assms(1) ne] ne Count_0_iff [of q]
    by (simp add: Remove_def ql remove_swap_def)
qed

lemma Remove_missing:
  assumes "queue_inv q" "x \<notin> set (queue_list q)"
  shows "Remove q x = Inr (False, q)"
  using find_slot_spec [OF assms(1), of 0 x] assms(2) by (simp add: Remove_def)

lemma mset_remove_swap:
  assumes "x \<in> set xs"
  shows "mset (remove_swap x xs) = mset xs - {#x#}"
proof -
  let ?k = "index_of x xs"
  have k: "?k < length xs" "xs ! ?k = x" "xs \<noteq> []"
    using assms index_of_less nth_index_of by fastforce+
  have "mset (xs[?k := last xs]) = mset xs - {#x#} + {#last xs#}"
    using k by (simp add: mset_update)
  moreover have "xs[?k := last xs] = remove_swap x xs @ [last xs]"
  proof -
    have "last (xs[?k := last xs]) = last xs"
      using k by (simp add: last_list_update)
    then show ?thesis
      using k append_butlast_last_id [of "xs[?k := last xs]"] by (simp add: remove_swap_def)
  qed
  ultimately show ?thesis by simp
qed

section \<open>Construction\<close>

lemma unat_queue_size:
  assumes "12 \<le> unat sz"
  shows "unat (queue_size sz s) = (unat sz - 12) div unat s"
proof -
  have "unat (sz - 12) = unat sz - 12" using assms by (simp add: unat_sub_if')
  then show ?thesis by (simp add: queue_size_def unat_div)
qed

lemma Queue_ctor_inv:
  assumes "12 \<le> unat sz" "3 \<le> unat s" "unat (queue_size sz s) \<le> length (items mem)"
  shows "queue_inv (Queue_ctor mem sz s True)" "queue_list (Queue_ctor mem sz s True) = []"
proof -
  have "3 * unat (queue_size sz s) \<le> unat s * ((unat sz - 12) div unat s)"
    using assms(1,2) by (simp add: unat_queue_size)
  also have "\<dots> \<le> unat sz" by (meson diff_le_self order_trans times_div_less_eq_dividend)
  also have "\<dots> < 2 ^ 32" using unsigned_less [of sz] by simp
  finally have "3 * unat (queue_size sz s) < 2 ^ 32" .
  then show "queue_inv (Queue_ctor mem sz s True)"
    using assms(3) by (simp add: queue_inv_def Queue_ctor_def)
  show "queue_list (Queue_ctor mem sz s True) = []"
    by (simp add: queue_list_def Queue_ctor_def ring_list_def)
qed

section \<open>The interface its clients rely on\<close>

text \<open>
  The condition variables use the queue as a bounded first-in first-out buffer of waiting
  threads. The contract is stated over an abstraction \<open>list\<close> and holds for the ring.
\<close>

locale bounded_buffer =
  fixes push :: "'q \<Rightarrow> 'a \<Rightarrow> cpp_error + 'q"
    and front :: "'q \<Rightarrow> cpp_error + 'a"
    and pop :: "'q \<Rightarrow> cpp_error + 'q"
    and remove :: "'q \<Rightarrow> 'a \<Rightarrow> cpp_error + bool \<times> 'q"
    and count :: "'q \<Rightarrow> u32"
    and capacity :: "'q \<Rightarrow> u32"
    and contents :: "'q \<Rightarrow> 'a list"
    and inv :: "'q \<Rightarrow> bool"
  assumes count_contents: "unat (count q) = length (contents q)"
    and push_ok: "inv q \<Longrightarrow> length (contents q) < unat (capacity q) \<Longrightarrow>
      \<exists>q'. push q x = Inr q' \<and> inv q' \<and> contents q' = contents q @ [x] \<and> capacity q' = capacity q"
    and push_full: "inv q \<Longrightarrow> \<not> length (contents q) < unat (capacity q) \<Longrightarrow>
      push q x = Inl (runtime_error ''no space available'')"
    and front_ok: "inv q \<Longrightarrow> contents q \<noteq> [] \<Longrightarrow> front q = Inr (hd (contents q))"
    and pop_ok: "inv q \<Longrightarrow> contents q \<noteq> [] \<Longrightarrow>
      \<exists>q'. pop q = Inr q' \<and> inv q' \<and> contents q' = tl (contents q) \<and> capacity q' = capacity q"
    and remove_ok: "inv q \<Longrightarrow> x \<in> set (contents q) \<Longrightarrow>
      \<exists>q'. remove q x = Inr (True, q') \<and> inv q' \<and> contents q' = remove_swap x (contents q) \<and>
        capacity q' = capacity q"
    and remove_missing: "inv q \<Longrightarrow> x \<notin> set (contents q) \<Longrightarrow> remove q x = Inr (False, q)"
begin

lemma count_pos: "0 < count q \<longleftrightarrow> contents q \<noteq> []"
  using count_contents [of q] by (metis length_greater_0_conv unat_gt_0 word_gt_0)

text \<open>The last waiter to leave finds the queue as it was before it came.\<close>

lemma push_then_remove:
  assumes "inv q" "length (contents q) < unat (capacity q)" "x \<notin> set (contents q)"
  shows "\<exists>q1 q2. push q x = Inr q1 \<and> remove q1 x = Inr (True, q2) \<and> inv q2 \<and>
           contents q2 = contents q"
proof -
  from push_ok [OF assms(1,2)] obtain q1 where
    q1: "push q x = Inr q1" "inv q1" "contents q1 = contents q @ [x]" by blast
  moreover have "x \<in> set (contents q1)" using q1(3) by simp
  ultimately obtain q2 where
    q2: "remove q1 x = Inr (True, q2)" "inv q2" "contents q2 = remove_swap x (contents q1)"
    using remove_ok by blast
  have "index_of x (contents q1) = length (contents q)"
    by (rule index_ofI) (use assms(3) q1(3) in \<open>auto simp: nth_append\<close>)
  then have "contents q2 = contents q" by (simp add: q1(3) q2(3) remove_swap_def)
  then show ?thesis using q1(1) q2(1,2) by blast
qed

end

interpretation ring: bounded_buffer PushBack Front Pop Remove Count Size queue_list queue_inv
  by unfold_locales
    (auto simp: PushBack_full Front_nonempty Remove_missing
      intro: PushBack_space Pop_nonempty Remove_found)

text \<open>Several insertions in a row, and \<open>n\<close> times \<open>Front\<close> and \<open>Pop\<close>, as the notifications do it.\<close>

fun push_all :: "'a queue \<Rightarrow> 'a list \<Rightarrow> cpp_error + 'a queue" where
  "push_all q [] = Inr q"
| "push_all q (x # xs) = (case PushBack q x of Inl e \<Rightarrow> Inl e | Inr q' \<Rightarrow> push_all q' xs)"

fun take_all :: "nat \<Rightarrow> 'a queue \<Rightarrow> cpp_error + 'a list \<times> 'a queue" where
  "take_all 0 q = Inr ([], q)"
| "take_all (Suc n) q =
     (case Front q of
        Inl e \<Rightarrow> Inl e
      | Inr x \<Rightarrow>
          (case Pop q of
             Inl e \<Rightarrow> Inl e
           | Inr q' \<Rightarrow> (case take_all n q' of Inl e \<Rightarrow> Inl e | Inr (xs, q'') \<Rightarrow> Inr (x # xs, q''))))"

lemma push_all_contents:
  assumes "queue_inv q" "length (queue_list q) + length xs \<le> unat (Size q)"
  shows "\<exists>q'. push_all q xs = Inr q' \<and> queue_inv q' \<and> queue_list q' = queue_list q @ xs"
  using assms
proof (induction xs arbitrary: q)
  case (Cons x xs)
  then have "length (queue_list q) < unat (Size q)" by simp
  from ring.push_ok [OF Cons.prems(1) this, of x] obtain q1 where
    q1: "PushBack q x = Inr q1" "queue_inv q1" "queue_list q1 = queue_list q @ [x]" "Size q1 = Size q" by blast
  then show ?case using Cons.IH [OF q1(2)] Cons.prems(2) by simp
qed simp

lemma take_all_contents:
  "queue_inv q \<Longrightarrow> \<exists>q'. take_all (length (queue_list q)) q = Inr (queue_list q, q') \<and> queue_inv q' \<and> queue_list q' = []"
proof (induction "queue_list q" arbitrary: q)
  case Nil
  then show ?case by (metis list.size(3) take_all.simps(1))
next
  case (Cons x xs)
  have ne: "queue_list q \<noteq> []" using Cons.hyps(2) by auto
  obtain q1 where q1: "Pop q = Inr q1" "queue_inv q1" "queue_list q1 = xs"
    using ring.pop_ok [OF Cons.prems ne] Cons.hyps(2) [symmetric] by auto
  have "Front q = Inr x" using ring.front_ok [OF Cons.prems ne] Cons.hyps(2) [symmetric] by simp
  then show ?case using Cons.hyps(1) [OF q1(3) [symmetric] q1(2)] q1 Cons.hyps(2) [symmetric] by auto
qed

section \<open>Refinement of a bounded list\<close>

text \<open>
  The abstract queue is a list with a capacity. A client sees the results of its calls; any
  sequence of calls gives the same results on the ring and on the list.
\<close>

datatype 'a queue_op =
    DoPushBack 'a | DoPop | DoPopBack | DoFront | DoBack
  | DoContains 'a | DoRemove 'a | DoCount | DoSpaceAvailable

datatype 'a queue_result =
    Done | Item 'a | Answer bool | Number nat | Raised cpp_error

definition no_item :: "'a queue_result" where
  "no_item = Raised (runtime_error ''no item available'')"

fun queue_call :: "'a queue \<Rightarrow> 'a queue_op \<Rightarrow> 'a queue_result \<times> 'a queue" where
  "queue_call q (DoPushBack x) = (case PushBack q x of Inl e \<Rightarrow> (Raised e, q) | Inr q' \<Rightarrow> (Done, q'))"
| "queue_call q DoPop = (case Pop q of Inl e \<Rightarrow> (Raised e, q) | Inr q' \<Rightarrow> (Done, q'))"
| "queue_call q DoPopBack = (case PopBack q of Inl e \<Rightarrow> (Raised e, q) | Inr q' \<Rightarrow> (Done, q'))"
| "queue_call q DoFront = (case Front q of Inl e \<Rightarrow> (Raised e, q) | Inr x \<Rightarrow> (Item x, q))"
| "queue_call q DoBack = (case Back q of Inl e \<Rightarrow> (Raised e, q) | Inr x \<Rightarrow> (Item x, q))"
| "queue_call q (DoContains x) =
     (case Contains q x of Inl e \<Rightarrow> (Raised e, q) | Inr b \<Rightarrow> (Answer b, q))"
| "queue_call q (DoRemove x) =
     (case Remove q x of Inl e \<Rightarrow> (Raised e, q) | Inr (b, q') \<Rightarrow> (Answer b, q'))"
| "queue_call q DoCount = (Number (unat (Count q)), q)"
| "queue_call q DoSpaceAvailable = (Answer (SpaceAvailable q), q)"

fun list_call :: "nat \<Rightarrow> 'a list \<Rightarrow> 'a queue_op \<Rightarrow> 'a queue_result \<times> 'a list" where
  "list_call n xs (DoPushBack x) =
     (if length xs < n then (Done, xs @ [x])
      else (Raised (runtime_error ''no space available''), xs))"
| "list_call n xs DoPop = (if xs = [] then (no_item, xs) else (Done, tl xs))"
| "list_call n xs DoPopBack = (if xs = [] then (no_item, xs) else (Done, butlast xs))"
| "list_call n xs DoFront = (if xs = [] then (no_item, xs) else (Item (hd xs), xs))"
| "list_call n xs DoBack = (if xs = [] then (no_item, xs) else (Item (last xs), xs))"
| "list_call n xs (DoContains x) = (Answer (x \<in> set xs), xs)"
| "list_call n xs (DoRemove x) =
     (if x \<in> set xs then (Answer True, remove_swap x xs) else (Answer False, xs))"
| "list_call n xs DoCount = (Number (length xs), xs)"
| "list_call n xs DoSpaceAvailable = (Answer (length xs < n), xs)"

fun queue_calls :: "'a queue \<Rightarrow> 'a queue_op list \<Rightarrow> 'a queue_result list" where
  "queue_calls q [] = []"
| "queue_calls q (c # cs) = (case queue_call q c of (r, q') \<Rightarrow> r # queue_calls q' cs)"

fun list_calls :: "nat \<Rightarrow> 'a list \<Rightarrow> 'a queue_op list \<Rightarrow> 'a queue_result list" where
  "list_calls n xs [] = []"
| "list_calls n xs (c # cs) = (case list_call n xs c of (r, xs') \<Rightarrow> r # list_calls n xs' cs)"

lemma queue_call_refines:
  assumes "queue_inv q"
  shows "queue_inv (snd (queue_call q c)) \<and> Size (snd (queue_call q c)) = Size q \<and>
     list_call (unat (Size q)) (queue_list q) c =
       (fst (queue_call q c), queue_list (snd (queue_call q c)))"
proof (cases c)
  case (DoPushBack x)
  then show ?thesis
    using assms PushBack_space [OF assms, of x] PushBack_full [OF assms, of x]
    by (cases "length (queue_list q) < unat (Size q)") auto
next
  case DoPop
  then show ?thesis
    using assms Pop_nonempty [OF assms] empty_errors [of q]
    by (cases "queue_list q = []") (auto simp: no_item_def)
next
  case DoPopBack
  then show ?thesis
    using assms PopBack_nonempty [OF assms] empty_errors [of q]
    by (cases "queue_list q = []") (auto simp: no_item_def)
next
  case DoFront
  then show ?thesis
    using assms Front_nonempty [OF assms] empty_errors [of q]
    by (cases "queue_list q = []") (auto simp: no_item_def)
next
  case DoBack
  then show ?thesis
    using assms Back_nonempty [OF assms] empty_errors [of q]
    by (cases "queue_list q = []") (auto simp: no_item_def)
next
  case (DoRemove x)
  then show ?thesis
    using assms Remove_found [OF assms, of x] Remove_missing [OF assms, of x]
    by (cases "x \<in> set (queue_list q)") auto
qed (use assms in \<open>simp_all add: Contains_spec SpaceAvailable_iff\<close>)

lemma queue_calls_refine:
  assumes "queue_inv q"
  shows "queue_calls q cs = list_calls (unat (Size q)) (queue_list q) cs"
  using assms
proof (induction cs arbitrary: q)
  case (Cons c cs)
  have step: "queue_inv (snd (queue_call q c))" "Size (snd (queue_call q c)) = Size q"
    "list_call (unat (Size q)) (queue_list q) c =
       (fst (queue_call q c), queue_list (snd (queue_call q c)))"
    using queue_call_refines [OF Cons.prems, of c] by simp_all
  then show ?case
    using Cons.IH [OF step(1)] by (simp add: split_beta)
qed simp

section \<open>Properties\<close>

text \<open>
  C4. A freshly initialised queue over a block that can hold its header, with items of at least
  three bytes, is a bounded list: every sequence of calls returns the same results, exceptions
  included, as on a list with the capacity that the constructor computes. No call divides by zero
  or leaves the item array.
\<close>

theorem queue_refines_bounded_list:
  assumes "12 \<le> unat sz" "3 \<le> unat s" "unat (queue_size sz s) \<le> length (items mem)"
  shows "queue_calls (Queue_ctor mem sz s True) cs =
           list_calls ((unat sz - 12) div unat s) [] cs"
  using queue_calls_refine [OF Queue_ctor_inv(1) [OF assms], of cs] Queue_ctor_inv(2) [OF assms]
  by (simp add: Size_def Queue_ctor_def unat_queue_size [OF assms(1)])

theorem queue_refines_bounded_list_witness:
  "queue_calls
     (Queue_ctor \<lparr>readPosition = 7, writePosition = 9, itemCount = 5, items = [0, 0 :: nat]\<rparr> 20 4 True)
     [DoPushBack 1, DoPushBack 2, DoPop, DoPushBack 3, DoPushBack 4, DoRemove 2, DoFront, DoBack] =
   [Done, Done, Done, Done, Raised (runtime_error ''no space available''), Answer True, Item 3, Item 3]"
  by (subst queue_refines_bounded_list) (simp_all add: queue_size_def remove_swap_def)

text \<open>
  Every slot the constructor counts lies inside the memory block: its last byte is at most
  the last byte of the block.
\<close>

theorem queue_slot_inside_block:
  assumes "12 \<le> unat sz" "i < unat (queue_size sz s)"
  shows "item_offset s i + unat s \<le> unat sz"
proof -
  have "Suc i * unat s \<le> (unat sz - 12) div unat s * unat s"
    using assms unat_queue_size [of sz s] by (intro mult_le_mono1) simp
  also have "\<dots> \<le> unat sz - 12" by (rule div_times_less_eq_dividend)
  finally show ?thesis using assms(1) by (simp add: item_offset_def)
qed

theorem queue_slot_inside_block_witness: "item_offset 8 2 + unat (8 :: u32) \<le> unat (40 :: u32)"
  by (rule queue_slot_inside_block) (simp_all add: queue_size_def)

text \<open>
  The constructor does not check the size: for a block smaller than its header the unsigned
  subtraction wraps, the queue reports free space, and the slot that the first insertion writes
  ends beyond the block.
\<close>

theorem queue_undersized_block:
  assumes "unat sz < 12" "0 < unat s" "unat s \<le> 2 ^ 32 - 12"
  shows "SpaceAvailable (Queue_ctor mem sz s True) \<and>
         unat sz < item_offset s (unat (writePosition (memory (Queue_ctor mem sz s True)))) + unat s"
proof -
  have "unat (sz - 12) = 2 ^ 32 + unat sz - 12"
    using assms(1) by (auto simp: unat_sub_if')
  then have "unat (queue_size sz s) = (2 ^ 32 + unat sz - 12) div unat s"
    by (simp add: queue_size_def unat_div)
  moreover have "0 < (2 ^ 32 + unat sz - 12) div unat s"
    using assms by (simp add: div_greater_zero_iff)
  ultimately show ?thesis
    using assms
    by (simp add: SpaceAvailable_def Queue_ctor_def item_offset_def word_less_nat_alt)
qed

theorem queue_undersized_block_witness:
  "let mem = \<lparr>readPosition = 0, writePosition = 0, itemCount = 0, items = [] :: nat list\<rparr>
   in SpaceAvailable (Queue_ctor mem 8 4 True) \<and>
      unat (8 :: u32) < item_offset 4 (unat (writePosition (memory (Queue_ctor mem 8 4 True)))) + unat (4 :: u32)"
  unfolding Let_def by (rule queue_undersized_block) simp_all

text \<open>
  \<open>Remove\<close> of a present item reports it, removes exactly one occurrence and keeps every other
  item, but the last item takes the place of the removed one.
\<close>

theorem Remove_present:
  assumes "queue_inv q" "x \<in> set (queue_list q)"
  shows "\<exists>q'. Remove q x = Inr (True, q') \<and> queue_inv q' \<and>
           mset (queue_list q') = mset (queue_list q) - {#x#} \<and>
           queue_list q' = butlast ((queue_list q)[index_of x (queue_list q) := last (queue_list q)])"
  using Remove_found [OF assms] mset_remove_swap [OF assms(2)] by (auto simp: remove_swap_def)

theorem Remove_present_witness:
  "let q = \<lparr>memory = \<lparr>readPosition = 2, writePosition = 2, itemCount = 3, items = [20, 30, 10]\<rparr>,
            qsize = 3\<rparr> :: nat queue
   in \<exists>q'. Remove q 10 = Inr (True, q') \<and> queue_inv q' \<and>
        mset (queue_list q') = {#20, 30#} \<and> queue_list q' = [30, 20]"
proof -
  let ?q = "\<lparr>memory = \<lparr>readPosition = 2, writePosition = 2, itemCount = 3, items = [20, 30, 10]\<rparr>,
             qsize = 3\<rparr> :: nat queue"
  have l: "queue_list ?q = [10, 20, 30]"
    by (simp add: queue_list_def ring_list_def upt_rec)
  have "queue_inv ?q" by (simp add: queue_inv_def)
  moreover have "10 \<in> set (queue_list ?q)" by (simp add: l)
  ultimately show ?thesis using Remove_present [of ?q 10] by (simp add: l)
qed

text \<open>
  The bound of the invariant is needed. When \<open>_readPosition + i + _size\<close> exceeds 32 bits, the
  slot that \<open>Contains\<close> and \<open>Remove\<close> look at is the right one only if the capacity divides
  \<open>2 ^ 32\<close>.
\<close>

theorem slot_position_wraps:
  fixes q :: "'a queue" and i :: u32
  defines "r \<equiv> unat (readPosition (memory q))" and "n \<equiv> unat (qsize q)"
  assumes "2 ^ 32 \<le> r + unat i + n" "r + unat i + n < 2 * 2 ^ 32" "0 < n"
  shows "\<exists>p. slot_position q i = Inr p \<and> (unat p = (r + unat i) mod n \<longleftrightarrow> n dvd 2 ^ 32)"
proof -
  let ?p = "(readPosition (memory q) + i + qsize q) mod qsize q"
  let ?t = "r + unat i + n - 2 ^ 32"
  have "unat (readPosition (memory q) + i + qsize q) = (r + unat i + n) mod 2 ^ 32"
    by (simp add: unat_word_ariths r_def n_def mod_simps)
  also have "\<dots> = ?t" using assms(3,4) by (simp add: mod_if)
  finally have p: "unat ?p = ?t mod n" by (simp add: n_def unat_mod)
  have "(r + unat i) mod n = (?t + 2 ^ 32) mod n" using assms(3) by simp
  then have "unat ?p = (r + unat i) mod n \<longleftrightarrow> (?t + 2 ^ 32) mod n = ?t mod n"
    using p by auto
  also have "\<dots> \<longleftrightarrow> n dvd 2 ^ 32" by (subst mod_eq_dvd_iff_nat) simp_all
  finally show ?thesis
    using assms(5) by (auto simp: slot_position_def umod_def n_def)
qed

theorem slot_position_wraps_witness:
  "let q = \<lparr>memory = \<lparr>readPosition = 3000000000, writePosition = 0, itemCount = 2, items = []\<rparr>,
            qsize = 4000000000\<rparr> :: nat queue
   in \<exists>p. slot_position q 1 = Inr p \<and> unat p \<noteq> (3000000000 + 1) mod 4000000000"
proof -
  let ?q = "\<lparr>memory = \<lparr>readPosition = 3000000000, writePosition = 0, itemCount = 2, items = []\<rparr>,
             qsize = 4000000000\<rparr> :: nat queue"
  have "\<exists>p. slot_position ?q 1 = Inr p \<and>
      (unat p = (unat (readPosition (memory ?q)) + unat (1 :: u32)) mod unat (qsize ?q) \<longleftrightarrow>
       unat (qsize ?q) dvd 2 ^ 32)"
    by (rule slot_position_wraps) simp_all
  then show ?thesis by (simp add: Let_def)
qed

text \<open>
  A waiter that enqueues its thread id and removes it again leaves the waiters before it in
  their order.
\<close>

theorem PushBack_then_Remove:
  assumes "queue_inv q" "length (queue_list q) < unat (Size q)" "x \<notin> set (queue_list q)"
  shows "\<exists>q1 q2. PushBack q x = Inr q1 \<and> Remove q1 x = Inr (True, q2) \<and> queue_inv q2 \<and>
           queue_list q2 = queue_list q"
  by (rule ring.push_then_remove [OF assms])

theorem PushBack_then_Remove_witness:
  "let q = \<lparr>memory = \<lparr>readPosition = 1, writePosition = 0, itemCount = 1, items = [20, 30]\<rparr>,
            qsize = 2\<rparr> :: nat queue
   in \<exists>q1 q2. PushBack q 40 = Inr q1 \<and> Remove q1 40 = Inr (True, q2) \<and> queue_inv q2 \<and>
        queue_list q2 = [30]"
proof -
  let ?q = "\<lparr>memory = \<lparr>readPosition = 1, writePosition = 0, itemCount = 1, items = [20, 30]\<rparr>,
             qsize = 2\<rparr> :: nat queue"
  have l: "queue_list ?q = [30]" by (simp add: queue_list_def ring_list_def)
  have "queue_inv ?q" by (simp add: queue_inv_def)
  then show ?thesis using PushBack_then_Remove [of ?q 40] by (simp add: l Size_def)
qed

text \<open>
  C40. First in, first out: items that are inserted into a queue with room for them come out again, after
  the items that were there, in the order in which they went in, and leave the queue empty; wherever
  in the ring the queue begins.
\<close>

theorem fifo_roundtrip:
  assumes "queue_inv q" "length (queue_list q) + length xs \<le> unat (Size q)"
  shows "\<exists>q1 q2. push_all q xs = Inr q1 \<and>
    take_all (length (queue_list q) + length xs) q1 = Inr (queue_list q @ xs, q2) \<and>
    queue_inv q2 \<and> queue_list q2 = []"
  using push_all_contents [OF assms] take_all_contents by fastforce

theorem fifo_roundtrip_witness:
  "let q = \<lparr>memory = \<lparr>readPosition = 2, writePosition = 0, itemCount = 1, items = [20, 30, 10]\<rparr>,
            qsize = 3\<rparr> :: nat queue
   in \<exists>q1 q2. push_all q [5, 6] = Inr q1 \<and> take_all 3 q1 = Inr ([10, 5, 6], q2)"
proof -
  let ?q = "\<lparr>memory = \<lparr>readPosition = 2, writePosition = 0, itemCount = 1, items = [20, 30, 10]\<rparr>,
             qsize = 3\<rparr> :: nat queue"
  have l: "queue_list ?q = [10]" by (simp add: queue_list_def ring_list_def)
  have inv: "queue_inv ?q" by (simp add: queue_inv_def)
  have n: "length (queue_list ?q) + length [5, 6 :: nat] = 3" by (simp add: l)
  have len: "length (queue_list ?q) + length [5, 6 :: nat] \<le> unat (Size ?q)"
    by (simp add: l Size_def)
  obtain q1 q2 where p: "push_all ?q [5, 6] = Inr q1"
    and t: "take_all (length (queue_list ?q) + length [5, 6 :: nat]) q1
            = Inr (queue_list ?q @ [5, 6], q2)"
    using fifo_roundtrip [OF inv len] by blast
  have "take_all 3 q1 = Inr ([10, 5, 6], q2)" using t unfolding n unfolding l by (simp only: append.simps)
  with p show ?thesis unfolding Let_def by blast
qed

end
