(* ===== verification/Disposer.thy ===== *)
theory Disposer
  imports Azul_Prelude "HOL-Library.Multiset"
begin

text \<open>
  \<open>include/azul/utils/Disposer.hpp\<close>: the scope guard of the library. A \<open>Disposer\<close> holds a
  \<open>std::function\<close>, empty or not, and calls it when it is destroyed. Calling a function is an
  effect outside this class, so the destructor returns the functions it calls, and a program
  over several guards logs them. A function is represented by a value of the type \<open>'c\<close>.
\<close>

section \<open>One guard\<close>

record 'c disposer =
  func :: "'c option"

definition Disposer_ctor :: "'c option \<Rightarrow> 'c disposer" where
  "Disposer_ctor f = \<lparr>func = f\<rparr>"

definition Disposer_default :: "'c disposer" where
  "Disposer_default = \<lparr>func = None\<rparr>"

text \<open>The destructor: the calls it makes.\<close>

definition Disposer_dtor :: "'c disposer \<Rightarrow> 'c list" where
  "Disposer_dtor d = (case func d of None \<Rightarrow> [] | Some f \<Rightarrow> [f])"

definition Disposer_Set :: "'c disposer \<Rightarrow> 'c option \<Rightarrow> 'c disposer" where
  "Disposer_Set d f = d\<lparr>func := f\<rparr>"

section \<open>A program over guards\<close>

text \<open>
  The guards of a program are the cells of a store, so that a move can name its source and its
  target, which may be the same guard. A cell is \<open>None\<close> after the destructor has run.
  \<open>registered\<close>, \<open>called\<close> and \<open>dropped\<close> record every function given to a guard, every call, and
  every function that a guard held when it was overwritten.
\<close>

record 'c guards =
  cells :: "'c disposer option list"
  registered :: "'c list"
  called :: "'c list"
  dropped :: "'c list"

definition no_guards :: "'c guards" where
  "no_guards = \<lparr>cells = [], registered = [], called = [], dropped = []\<rparr>"

datatype 'c guard_op =
    Construct "'c option"
  | ConstructDefault
  | SetFunction nat "'c option"
  | MoveConstruct nat
  | MoveAssign nat nat
  | Destroy nat

definition held :: "'c disposer option \<Rightarrow> 'c list" where
  "held c = (case c of None \<Rightarrow> [] | Some d \<Rightarrow> Disposer_dtor d)"

definition alive :: "'c guards \<Rightarrow> nat \<Rightarrow> bool" where
  "alive g i = (i < length (cells g) \<and> cells g ! i \<noteq> None)"

text \<open>The function of the guard \<open>i\<close>.\<close>

definition func_of :: "'c guards \<Rightarrow> nat \<Rightarrow> 'c option" where
  "func_of g i = (case cells g ! i of None \<Rightarrow> None | Some d \<Rightarrow> func d)"

definition set_func :: "nat \<Rightarrow> 'c option \<Rightarrow> 'c guards \<Rightarrow> 'c guards" where
  "set_func i f g =
     g\<lparr>cells := (cells g)[i := map_option (\<lambda>d. Disposer_Set d f) (cells g ! i)]\<rparr>"

text \<open>
  The move constructor copies the function of \<open>other\<close> and clears \<open>other\<close>. The move assignment
  does the same on an existing guard: first \<open>_func = other._func\<close>, then
  \<open>other._func = nullptr\<close>, also when both are the same object; the function the target held is
  overwritten and not called.
\<close>

fun guard_step :: "'c guards \<Rightarrow> 'c guard_op \<Rightarrow> 'c guards" where
  "guard_step g (Construct f) =
     g\<lparr>cells := cells g @ [Some (Disposer_ctor f)],
       registered := registered g @ held (Some (Disposer_ctor f))\<rparr>"
| "guard_step g ConstructDefault = g\<lparr>cells := cells g @ [Some Disposer_default]\<rparr>"
| "guard_step g (SetFunction i f) =
     (if alive g i
      then (set_func i f g)\<lparr>registered := registered g @ held (Some (Disposer_ctor f)),
                             dropped := dropped g @ held (cells g ! i)\<rparr>
      else g)"
| "guard_step g (MoveConstruct j) =
     (if alive g j
      then set_func j None (g\<lparr>cells := cells g @ [Some (Disposer_ctor (func_of g j))]\<rparr>)
      else g)"
| "guard_step g (MoveAssign i j) =
     (if alive g i \<and> alive g j
      then set_func j None (set_func i (func_of g j) (g\<lparr>dropped := dropped g @ held (cells g ! i)\<rparr>))
      else g)"
| "guard_step g (Destroy i) =
     (if alive g i
      then g\<lparr>cells := (cells g)[i := None], called := called g @ held (cells g ! i)\<rparr>
      else g)"

fun guard_run :: "'c guards \<Rightarrow> 'c guard_op list \<Rightarrow> 'c guards" where
  "guard_run g [] = g"
| "guard_run g (x # xs) = guard_run (guard_step g x) xs"

section \<open>Every function is accounted for\<close>

definition held_all :: "'c guards \<Rightarrow> 'c list" where
  "held_all g = concat (map held (cells g))"

definition accounted :: "'c guards \<Rightarrow> bool" where
  "accounted g \<longleftrightarrow>
     mset (held_all g) + mset (called g) + mset (dropped g) = mset (registered g)"

lemmas guard_defs = held_def Disposer_dtor_def Disposer_ctor_def Disposer_default_def
  Disposer_Set_def func_of_def set_func_def held_all_def

lemma mset_concat_update:
  assumes "i < length xs"
  shows "mset (concat (map f (xs[i := x]))) + mset (f (xs ! i)) =
         mset (concat (map f xs)) + mset (f x)"
  using assms
proof (induction xs arbitrary: i)
  case (Cons y ys)
  then show ?case by (cases i) (auto simp: ac_simps)
qed simp

lemma held_set_func:
  assumes "alive g i"
  shows "mset (held_all (set_func i f g)) + mset (held (cells g ! i)) =
         mset (held_all g) + mset (held (Some (Disposer_ctor f)))"
  using assms mset_concat_update [of i "cells g" held "map_option (\<lambda>d. Disposer_Set d f) (cells g ! i)"]
  by (auto simp: alive_def guard_defs)

lemma held_func_of: "alive g i \<Longrightarrow> held (cells g ! i) = held (Some (Disposer_ctor (func_of g i)))"
  by (auto simp: alive_def guard_defs)

lemma alive_set_func [simp]: "alive (set_func i f g) j = alive g j"
  by (cases "i < length (cells g)") (auto simp: alive_def set_func_def nth_list_update)

lemma alive_dropped [simp]: "alive (g\<lparr>dropped := ds\<rparr>) i = alive g i"
  by (simp add: alive_def)

lemma logs_set_func [simp]:
  "registered (set_func i f g) = registered g" "called (set_func i f g) = called g"
  "dropped (set_func i f g) = dropped g"
  by (simp_all add: set_func_def)

lemma held_set_func_source:
  assumes "alive g i" "alive g j"
  shows "held (cells (set_func i (func_of g j) g) ! j) = held (cells g ! j)"
  using assms by (auto simp: alive_def guard_defs nth_list_update)

lemma guard_balance:
  fixes a b c d e :: "'c multiset"
  assumes "a + b = c + d" "e + d = a"
  shows "e + b = c"
proof -
  have "e + b + d = c + d" using assms by (simp add: ac_simps)
  then show ?thesis by simp
qed

lemma guard_step_accounted:
  assumes "accounted g"
  shows "accounted (guard_step g x)"
proof (cases x)
  case (SetFunction i f)
  then show ?thesis
    using assms held_set_func [of g i f]
    by (cases "alive g i") (auto simp: accounted_def held_all_def, metis add.assoc add.commute)
next
  case (MoveConstruct j)
  show ?thesis
  proof (cases "alive g j")
    case True
    let ?g = "g\<lparr>cells := cells g @ [Some (Disposer_ctor (func_of g j))]\<rparr>"
    have a: "alive ?g j" using True by (auto simp: alive_def nth_append)
    have c: "cells ?g ! j = cells g ! j" using True by (simp add: alive_def nth_append)
    have "mset (held_all (set_func j None ?g)) + mset (held (cells g ! j)) = mset (held_all ?g)"
      using held_set_func [OF a, of None] c
      by (simp add: held_def Disposer_dtor_def Disposer_ctor_def)
    moreover have "mset (held_all ?g) = mset (held_all g) + mset (held (cells g ! j))"
      by (simp add: held_all_def held_func_of [OF True])
    ultimately have "mset (held_all (set_func j None ?g)) = mset (held_all g)" by simp
    then show ?thesis using True assms MoveConstruct by (simp add: accounted_def)
  qed (use assms MoveConstruct in simp)
next
  case (MoveAssign i j)
  show ?thesis
  proof (cases "alive g i \<and> alive g j")
    case True
    let ?h = "set_func i (func_of g j) (g\<lparr>dropped := dropped g @ held (cells g ! i)\<rparr>)"
    have 1: "mset (held_all ?h) + mset (held (cells g ! i)) =
        mset (held_all g) + mset (held (cells g ! j))"
      using held_set_func [of "g\<lparr>dropped := dropped g @ held (cells g ! i)\<rparr>" i "func_of g j"] True
        held_func_of [of g j]
      by (simp add: held_all_def)
    have "held (cells ?h ! j) = held (cells g ! j)"
      using held_set_func_source [of g i j] True by (simp add: set_func_def)
    then have 2: "mset (held_all (set_func j None ?h)) + mset (held (cells g ! j)) = mset (held_all ?h)"
      using held_set_func [of ?h j None] True
      by (simp add: held_def Disposer_dtor_def Disposer_ctor_def)
    have "mset (held_all (set_func j None ?h)) + mset (held (cells g ! i)) = mset (held_all g)"
      using guard_balance [OF 1 2] .
    then show ?thesis
      using True assms MoveAssign by (auto simp: accounted_def ac_simps)
  qed (use assms MoveAssign in auto)
next
  case (Destroy i)
  show ?thesis
  proof (cases "alive g i")
    case True
    then have "mset (held_all (g\<lparr>cells := (cells g)[i := None]\<rparr>)) + mset (held (cells g ! i)) =
        mset (held_all g)"
      using mset_concat_update [of i "cells g" held None]
      by (simp add: alive_def held_all_def) (simp add: held_def)
    then have "accounted g \<longleftrightarrow>
        mset (held_all (g\<lparr>cells := (cells g)[i := None]\<rparr>)) + mset (held (cells g ! i)) +
          mset (called g) + mset (dropped g) = mset (registered g)"
      by (simp add: accounted_def)
    then show ?thesis
      using True assms Destroy by (simp add: accounted_def held_all_def ac_simps)
  qed (use assms Destroy in simp)
qed (use assms in \<open>auto simp: accounted_def guard_defs ac_simps\<close>)

lemma guard_run_accounted: "accounted g \<Longrightarrow> accounted (guard_run g xs)"
  by (induction xs arbitrary: g) (auto intro: guard_step_accounted)

lemma no_guards_accounted: "accounted no_guards"
  by (simp add: accounted_def no_guards_def held_all_def)

text \<open>An assignment over an empty guard, or no assignment at all, drops nothing.\<close>

definition overwrites :: "'c guards \<Rightarrow> 'c guard_op \<Rightarrow> bool" where
  "overwrites g x =
     (case x of
        SetFunction i f \<Rightarrow> alive g i \<and> func_of g i \<noteq> None
      | MoveAssign i j \<Rightarrow> alive g i \<and> alive g j \<and> func_of g i \<noteq> None
      | _ \<Rightarrow> False)"

fun never_overwrites :: "'c guards \<Rightarrow> 'c guard_op list \<Rightarrow> bool" where
  "never_overwrites g [] = True"
| "never_overwrites g (x # xs) = (\<not> overwrites g x \<and> never_overwrites (guard_step g x) xs)"

lemma held_empty: "alive g i \<Longrightarrow> func_of g i = None \<Longrightarrow> held (cells g ! i) = []"
  by (auto simp: alive_def guard_defs)

lemma guard_step_dropped: "\<not> overwrites g x \<Longrightarrow> dropped (guard_step g x) = dropped g"
  by (cases x) (auto simp: overwrites_def held_empty)

lemma guard_run_dropped:
  "never_overwrites g xs \<Longrightarrow> dropped (guard_run g xs) = dropped g"
  by (induction xs arbitrary: g) (auto simp: guard_step_dropped)

section \<open>Properties\<close>


text \<open>
  If no guard is overwritten while it holds a function, then once all guards are destroyed
  the functions called are exactly the functions registered, each as often as it was registered.
\<close>

theorem guards_call_every_function:
  assumes "never_overwrites no_guards xs" "\<forall>i. \<not> alive (guard_run no_guards xs) i"
  shows "mset (called (guard_run no_guards xs)) = mset (registered (guard_run no_guards xs))"
proof -
  have "held_all (guard_run no_guards xs) = []"
    using assms(2) by (auto simp: held_all_def alive_def held_def in_set_conv_nth split: option.split)
  moreover have "dropped (guard_run no_guards xs) = []"
    using guard_run_dropped [OF assms(1)] by (simp add: no_guards_def)
  ultimately show ?thesis
    using guard_run_accounted [OF no_guards_accounted, of xs] by (simp add: accounted_def)
qed

theorem guards_call_every_function_witness:
  "mset (called (guard_run no_guards
     [Construct (Some (1 :: nat)), MoveConstruct 0, ConstructDefault, SetFunction 2 (Some 2),
      Destroy 0, Destroy 2, Destroy 1])) = {#1, 2#}"
proof -
  let ?xs = "[Construct (Some (1 :: nat)), MoveConstruct 0, ConstructDefault, SetFunction 2 (Some 2),
      Destroy 0, Destroy 2, Destroy 1]"
  have "never_overwrites no_guards ?xs"
    by (simp add: overwrites_def no_guards_def alive_def guard_defs)
  moreover have "\<forall>i. \<not> alive (guard_run no_guards ?xs) i"
    by (auto simp: no_guards_def alive_def guard_defs nth_Cons split: nat.splits)
  ultimately have "mset (called (guard_run no_guards ?xs)) = mset (registered (guard_run no_guards ?xs))"
    by (rule guards_call_every_function)
  then show ?thesis by (simp add: no_guards_def alive_def guard_defs)
qed

text \<open>
  A move assignment to a guard that still holds a function does not call it: the function is
  gone, the target takes over the function of the source, the source is empty; and a move of a
  guard to itself empties it.
\<close>

theorem move_assign_drops_the_target:
  assumes "alive g i" "alive g j" "func_of g i = Some f"
  shows "called (guard_step g (MoveAssign i j)) = called g \<and>
         dropped (guard_step g (MoveAssign i j)) = dropped g @ [f] \<and>
         func_of (guard_step g (MoveAssign i j)) i = (if i = j then None else func_of g j) \<and>
         func_of (guard_step g (MoveAssign i j)) j = None"
  using assms by (auto simp: alive_def guard_defs)

theorem move_assign_drops_the_target_witness:
  "let g = \<lparr>cells = [Some \<lparr>func = Some ''close''\<rparr>, Some \<lparr>func = Some ''unlock''\<rparr>],
            registered = [''close'', ''unlock''], called = [], dropped = []\<rparr>
   in called (guard_step g (MoveAssign 0 1)) = [] \<and>
      dropped (guard_step g (MoveAssign 0 1)) = [''close''] \<and>
      func_of (guard_step g (MoveAssign 0 1)) 0 = Some ''unlock''"
proof -
  let ?g = "\<lparr>cells = [Some \<lparr>func = Some ''close''\<rparr>, Some \<lparr>func = Some ''unlock''\<rparr>],
             registered = [''close'', ''unlock''], called = [], dropped = []\<rparr>"
  have "alive ?g 0" "alive ?g 1" "func_of ?g 0 = Some ''close''" "func_of ?g 1 = Some ''unlock''"
    by (simp_all add: alive_def func_of_def)
  from move_assign_drops_the_target [OF this(1-3)] this(4) show ?thesis by (simp add: Let_def)
qed

end
