(* ===== verification/Future_State.thy ===== *)
theory Future_State
  imports Azul_Prelude Disposer
begin

text \<open>
  \<open>include/azul/async/detail/FutureState.hpp\<close> and the classes \<open>Future\<close> and \<open>Promise\<close> of
  \<open>include/azul/async/Future.hpp\<close>: the shared states of futures in a store, and the operations on
  them.

  A shared state is a cell of the list \<open>states\<close>; a \<open>std::shared_ptr\<close> to it is its index, a null
  pointer is \<open>None\<close>. \<open>FutureState<T>\<close> and its specialisation \<open>FutureState<void>\<close> differ in
  \<open>is_void\<close>. The closures the library stores in \<open>_continuations\<close> are a datatype, because HOL
  cannot store functions that change the store: a user's callable is a function from what
  \<open>Get()\<close> gives on the future it receives to a result or an exception.

  Each operation is split where the code releases the mutex of a state. It returns the store
  after its critical section and the calls it still makes afterwards, as commands in order. A
  thread runs its commands one after the other; a command may put new ones in front. Every
  command is one critical section, so interleaving the commands of several threads gives the
  concurrent executions (theory \<open>Future_System\<close>).
\<close>

section \<open>Data\<close>

datatype FutureErrorCode = EC_BrokenPromise | EC_FutureAlreadySet

text \<open>An exception held by a \<open>std::exception_ptr\<close>: one of the library, or one of the user.\<close>

datatype 'e exn =
    FutureError FutureErrorCode
  | LogicError string
  | UserException 'e

datatype State = Undefined | Ready | Exception | BrokenPromise

text \<open>
  What one pass through the loop of \<open>Get\<close> does. \<open>RethrowsNull\<close> is \<open>std::rethrow_exception\<close> of a
  null pointer, which C++ leaves undefined.
\<close>

datatype ('v, 'e) get_result = Returns "'v option" | Throws "'e exn" | RethrowsNull | Blocks

text \<open>
  What a continuation calls: a user's callable; the lambda of \<open>WhenAll\<close>, which resets the
  \<open>sharedPromiseActivator\<close> it captured (\<open>None\<close> after the reset); the lambda of \<open>WhenAny\<close>,
  which sets the shared state it captured.
\<close>

datatype ('v, 'e) callable =
    UserCallable "('v, 'e) get_result \<Rightarrow> 'e exn + 'v option"
  | ResetActivator "nat option"
  | SetShared nat

text \<open>The lambda \<open>continuation\<close> that \<open>Future::Then\<close> builds, with its captures.\<close>

record ('v, 'e) continuation =
  callable :: "('v, 'e) callable"
  promise :: nat
  copyOfThis :: nat

text \<open>
  A shared state. A value of \<open>T\<close> is \<open>Some v\<close>; \<open>None\<close> is the default value \<open>T{}\<close>, and the only
  value of a void state.
\<close>

record ('v, 'e) future_state =
  is_void :: bool
  state :: State
  stored :: "'v option"
  error :: "'e exn option"
  continuations :: "('v, 'e) continuation list"

text \<open>
  A \<open>std::shared_ptr<Disposer>\<close> of \<open>WhenAll\<close>: how many copies of the pointer exist, and the
  guard it owns, whose function sets the shared state it captured. \<open>inputs\<close> is not read by
  the code: it records the futures \<open>WhenAll\<close> was called with.
\<close>

record activator =
  use_count :: nat
  disposer :: "nat disposer"
  inputs :: "nat list"

text \<open>
  The store. \<open>invoked\<close> is not read by the code: it records the calls of user callables, as the
  shared states of the futures that \<open>Then\<close> returned for them.
\<close>

record ('v, 'e) store =
  states :: "('v, 'e) future_state list"
  activators :: "activator list"
  invoked :: "nat list"

datatype ('v, 'e) command =
    RunContinuation nat nat
  | RunTemporary "('v, 'e) continuation"
  | Resolve nat "'e exn + 'v option"
  | VoidSetValue nat
  | DropPromise nat
  | ClearContinuations nat
  | DropActivator nat
  | CallThen nat "('v, 'e) callable" bool

definition empty_store :: "('v, 'e) store" where
  "empty_store = \<lparr>states = [], activators = [], invoked = []\<rparr>"

section \<open>FutureState\<close>

definition FutureState_new :: "bool \<Rightarrow> ('v, 'e) future_state" where
  "FutureState_new void =
     \<lparr>is_void = void, state = Undefined, stored = None, error = None, continuations = []\<rparr>"

definition upd_state ::
  "nat \<Rightarrow> (('v, 'e) future_state \<Rightarrow> ('v, 'e) future_state) \<Rightarrow> ('v, 'e) store \<Rightarrow> ('v, 'e) store"
where
  "upd_state s f h = h\<lparr>states := (states h)[s := f (states h ! s)]\<rparr>"

text \<open>\<open>std::make_shared<FutureState<T>>()\<close>: the new cell and its pointer.\<close>

definition make_state :: "bool \<Rightarrow> ('v, 'e) store \<Rightarrow> ('v, 'e) store \<times> nat" where
  "make_state void h = (h\<lparr>states := states h @ [FutureState_new void]\<rparr>, length (states h))"

definition IsReady :: "('v, 'e) store \<Rightarrow> nat \<Rightarrow> bool" where
  "IsReady h s = (state (states h ! s) \<noteq> Undefined)"

definition Get :: "('v, 'e) store \<Rightarrow> nat \<Rightarrow> ('v, 'e) get_result" where
  "Get h s =
     (let fs = states h ! s in
      case state fs of
        Exception \<Rightarrow> (case error fs of Some e \<Rightarrow> Throws e | None \<Rightarrow> RethrowsNull)
      | BrokenPromise \<Rightarrow> Throws (FutureError EC_BrokenPromise)
      | Ready \<Rightarrow> Returns (stored fs)
      | Undefined \<Rightarrow> Blocks)"

text \<open>The loop after the critical section: \<open>for (const auto& continuation : _continuations)\<close>.\<close>

definition run_continuations :: "('v, 'e) store \<Rightarrow> nat \<Rightarrow> ('v, 'e) command list" where
  "run_continuations h s = map (RunContinuation s) [0..<length (continuations (states h ! s))]"

text \<open>\<open>FutureState<T>::SetValue\<close> throws when the state is set.\<close>

definition SetValue ::
  "('v, 'e) store \<Rightarrow> nat \<Rightarrow> 'v option \<Rightarrow> 'e exn + ('v, 'e) store \<times> ('v, 'e) command list"
where
  "SetValue h s v =
     (if state (states h ! s) \<noteq> Undefined then Inl (FutureError EC_FutureAlreadySet)
      else Inr (upd_state s (\<lambda>fs. fs\<lparr>stored := v, state := Ready\<rparr>) h, run_continuations h s))"

text \<open>\<open>FutureState<void>::SetValue\<close> returns silently when the state is set.\<close>

definition SetValue_void ::
  "('v, 'e) store \<Rightarrow> nat \<Rightarrow> ('v, 'e) store \<times> ('v, 'e) command list"
where
  "SetValue_void h s =
     (if state (states h ! s) \<noteq> Undefined then (h, [])
      else (upd_state s (\<lambda>fs. fs\<lparr>state := Ready\<rparr>) h, run_continuations h s))"

text \<open>\<open>SetException\<close> of both classes does not look at the state.\<close>

definition SetException ::
  "('v, 'e) store \<Rightarrow> nat \<Rightarrow> 'e exn \<Rightarrow> ('v, 'e) store \<times> ('v, 'e) command list"
where
  "SetException h s ex =
     (upd_state s (\<lambda>fs. fs\<lparr>error := Some ex, state := Exception\<rparr>) h, run_continuations h s)"

text \<open>
  Copying a closure into \<open>_continuations\<close> copies the activator pointer it holds; \<open>acquire\<close>
  counts that copy and \<open>drop_callable\<close> releases it when the closure is destroyed.
\<close>

fun acquire :: "('v, 'e) callable \<Rightarrow> ('v, 'e) store \<Rightarrow> ('v, 'e) store" where
  "acquire (ResetActivator (Some a)) h =
     h\<lparr>activators := (activators h)[a := (activators h ! a)\<lparr>use_count := Suc (use_count (activators h ! a))\<rparr>]\<rparr>"
| "acquire _ h = h"

fun drop_callable :: "('v, 'e) callable \<Rightarrow> ('v, 'e) command list" where
  "drop_callable (ResetActivator (Some a)) = [DropActivator a]"
| "drop_callable _ = []"

text \<open>
  \<open>FutureState::Then\<close>: stores the continuation, or calls it at once when the state is set. In
  the second case the temporary copy is destroyed after the call, and with it the last pointer
  to the promise.
\<close>

definition FutureState_Then ::
  "('v, 'e) store \<Rightarrow> nat \<Rightarrow> ('v, 'e) continuation \<Rightarrow> ('v, 'e) store \<times> ('v, 'e) command list"
where
  "FutureState_Then h s k =
     (let h = acquire (callable k) h in
      if state (states h ! s) = Undefined
      then (upd_state s (\<lambda>fs. fs\<lparr>continuations := continuations fs @ [k]\<rparr>) h, [])
      else (h, [RunTemporary k, DropPromise (promise k)]))"

definition NumberOfContinuations :: "('v, 'e) store \<Rightarrow> nat \<Rightarrow> nat" where
  "NumberOfContinuations h s = length (continuations (states h ! s))"

text \<open>
  \<open>AboutToDestroyPromise\<close>: the critical section, then \<open>_continuations.clear()\<close> outside of it.
\<close>

definition AboutToDestroyPromise ::
  "('v, 'e) store \<Rightarrow> nat \<Rightarrow> ('v, 'e) store \<times> ('v, 'e) command list"
where
  "AboutToDestroyPromise h s =
     ((if state (states h ! s) = Undefined
       then upd_state s (\<lambda>fs. fs\<lparr>state := BrokenPromise\<rparr>) h else h),
      [ClearContinuations s])"

text \<open>
  Destroying a stored closure destroys its captures in the reverse order of their declaration:
  the pointer to the promise, whose deleter calls \<open>AboutToDestroyPromise\<close>, then the callable.
\<close>

definition destroy_continuation :: "('v, 'e) continuation \<Rightarrow> ('v, 'e) command list" where
  "destroy_continuation k = DropPromise (promise k) # drop_callable (callable k)"

definition clear_continuations ::
  "('v, 'e) store \<Rightarrow> nat \<Rightarrow> ('v, 'e) store \<times> ('v, 'e) command list"
where
  "clear_continuations h s =
     (upd_state s (\<lambda>fs. fs\<lparr>continuations := []\<rparr>) h,
      concat (map destroy_continuation (continuations (states h ! s))))"

section \<open>Calling a continuation\<close>

text \<open>
  The body of the lambda \<open>continuation\<close>, up to the result of the callable: the call
  \<open>callable(copyOfThis)\<close>, with the commands of the library's own callables, and then the result
  that \<open>Resolve\<close> passes to the promise. The user's callable sees the future it is given.
\<close>

definition call_continuation ::
  "('v, 'e) store \<Rightarrow> ('v, 'e) continuation \<Rightarrow> ('v, 'e) store \<times> ('v, 'e) command list"
where
  "call_continuation h k =
     (case callable k of
        UserCallable f \<Rightarrow>
          (h\<lparr>invoked := invoked h @ [promise k]\<rparr>, [Resolve (promise k) (f (Get h (copyOfThis k)))])
      | ResetActivator a \<Rightarrow> (h, drop_callable (ResetActivator a) @ [Resolve (promise k) (Inr None)])
      | SetShared w \<Rightarrow> (h, [VoidSetValue w, Resolve (promise k) (Inr None)]))"

text \<open>The lambda of \<open>WhenAll\<close> is \<open>mutable\<close>: its pointer is null after the first call.\<close>

fun after_call :: "('v, 'e) callable \<Rightarrow> ('v, 'e) callable" where
  "after_call (ResetActivator a) = ResetActivator None"
| "after_call c = c"

text \<open>The call of the element \<open>j\<close> of the vector; a loop over the vector ends at its size.\<close>

definition run_continuation ::
  "('v, 'e) store \<Rightarrow> nat \<Rightarrow> nat \<Rightarrow> ('v, 'e) store \<times> ('v, 'e) command list"
where
  "run_continuation h s j =
     (let ks = continuations (states h ! s) in
      if j < length ks
      then (let (h', cs) = call_continuation h (ks ! j)
            in (upd_state s (\<lambda>fs. fs\<lparr>continuations :=
                  ks[j := (ks ! j)\<lparr>callable := after_call (callable (ks ! j))\<rparr>]\<rparr>) h', cs))
      else (h, []))"

text \<open>
  The rest of the lambda: \<open>promise->SetValue\<close> inside the \<open>try\<close> block and
  \<open>promise->SetException\<close> in the handler, which also catches what \<open>SetValue\<close> throws.
\<close>

definition resolve ::
  "('v, 'e) store \<Rightarrow> nat \<Rightarrow> 'e exn + 'v option \<Rightarrow> ('v, 'e) store \<times> ('v, 'e) command list"
where
  "resolve h p r =
     (case r of
        Inl ex \<Rightarrow> SetException h p ex
      | Inr v \<Rightarrow>
          (if is_void (states h ! p) then SetValue_void h p
           else (case SetValue h p v of Inl ex \<Rightarrow> SetException h p ex | Inr r \<Rightarrow> r)))"

text \<open>Releasing a copy of \<open>sharedPromiseActivator\<close>: the last one destroys the guard.\<close>

definition drop_activator ::
  "('v, 'e) store \<Rightarrow> nat \<Rightarrow> ('v, 'e) store \<times> ('v, 'e) command list"
where
  "drop_activator h a =
     (let act = activators h ! a; n = use_count act - 1 in
      (h\<lparr>activators := (activators h)[a := act\<lparr>use_count := n\<rparr>]\<rparr>,
       if use_count act = 1 then map VoidSetValue (Disposer_dtor (disposer act)) else []))"

section \<open>Future::Then\<close>

text \<open>
  \<open>Then\<close> on a future that points to the state \<open>s\<close>: a new state, which the returned future and
  the continuation's promise share. \<open>void\<close> says whether the callable returns \<open>void\<close>.
\<close>

definition then_continuation :: "('v, 'e) callable \<Rightarrow> nat \<Rightarrow> nat \<Rightarrow> ('v, 'e) continuation" where
  "then_continuation c s t = \<lparr>callable = c, promise = t, copyOfThis = s\<rparr>"

definition Then_call ::
  "('v, 'e) store \<Rightarrow> nat \<Rightarrow> ('v, 'e) callable \<Rightarrow> bool \<Rightarrow>
     ('v, 'e) store \<times> ('v, 'e) command list"
where
  "Then_call h s c void =
     (let (h1, t) = make_state void h in FutureState_Then h1 s (then_continuation c s t))"

section \<open>Running the commands of one thread\<close>

fun step :: "('v, 'e) store \<Rightarrow> ('v, 'e) command \<Rightarrow> ('v, 'e) store \<times> ('v, 'e) command list" where
  "step h (RunContinuation s j) = run_continuation h s j"
| "step h (RunTemporary k) = call_continuation h k"
| "step h (Resolve p r) = resolve h p r"
| "step h (VoidSetValue s) = SetValue_void h s"
| "step h (DropPromise s) = AboutToDestroyPromise h s"
| "step h (ClearContinuations s) = clear_continuations h s"
| "step h (DropActivator a) = drop_activator h a"
| "step h (CallThen s c void) = Then_call h s c void"

text \<open>
  A thread alone runs its commands to the end. Nothing in the definition makes this stop: it is
  proved for the stores the library builds.
\<close>

partial_function (option) exec ::
  "('v, 'e) store \<Rightarrow> ('v, 'e) command list \<Rightarrow> ('v, 'e) store option"
where
  "exec h cs =
     (case cs of
        [] \<Rightarrow> Some h
      | c # cs' \<Rightarrow> (case step h c of (h', new) \<Rightarrow> exec h' (new @ cs')))"

lemma exec_Nil [simp]: "exec h [] = Some h"
  by (simp add: exec.simps)

lemma exec_Cons: "exec h (c # cs) = (case step h c of (h', new) \<Rightarrow> exec h' (new @ cs))"
  by (subst exec.simps) simp

end
