(* ===== verification/Future_Invariant.thy ===== *)
theory Future_Invariant
  imports Future_State
begin

text \<open>
  The invariant of the store of futures and of the commands that are still to run. It is stated
  over the multiset of all pending commands, so it holds whichever thread runs which command
  next, and it is kept by every command.
\<close>

section \<open>Who completes a shared state\<close>

text \<open>
  Every shared state is completed from one place: a \<open>Promise\<close> object; the continuation of the
  call of \<open>Then\<close> that made it, on the named state; an activator of \<open>WhenAll\<close>; or the lambdas of
  \<open>WhenAny\<close>, which was called on the named states.
\<close>

datatype role = ByPromise | ByThen nat | ByAll nat | ByAny "nat list"

definition is_set :: "('v, 'e) store \<Rightarrow> nat \<Rightarrow> bool" where
  "is_set h s \<longleftrightarrow> state (states h ! s) \<noteq> Undefined"

text \<open>May the state \<open>s\<close> be set now? A chained future is set after the one it hangs on.\<close>

fun may_set :: "('v, 'e) store \<Rightarrow> role \<Rightarrow> bool" where
  "may_set h (ByThen s) = is_set h s"
| "may_set h (ByAny ss) = (\<exists>s \<in> set ss. is_set h s)"
| "may_set h r = True"

definition act_target :: "('v, 'e) store \<Rightarrow> nat \<Rightarrow> nat" where
  "act_target h a = the (func (disposer (activators h ! a)))"

definition act_ok :: "(nat \<Rightarrow> role) \<Rightarrow> ('v, 'e) store \<Rightarrow> nat \<Rightarrow> bool" where
  "act_ok role h a \<longleftrightarrow>
     func (disposer (activators h ! a)) = Some (act_target h a) \<and>
     act_target h a < length (states h) \<and> role (act_target h a) = ByAll a"

fun callable_ok :: "(nat \<Rightarrow> role) \<Rightarrow> ('v, 'e) store \<Rightarrow> nat \<Rightarrow> ('v, 'e) callable \<Rightarrow> bool" where
  "callable_ok role h s (UserCallable f) = True"
| "callable_ok role h s (ResetActivator None) = True"
| "callable_ok role h s (ResetActivator (Some a)) =
     (a < length (activators h) \<and> s < act_target h a \<and> s \<in> set (inputs (activators h ! a)))"
| "callable_ok role h s (SetShared w) = (s < w \<and> w < length (states h) \<and> (\<exists>ss. role w = ByAny ss \<and> s \<in> set ss))"

definition cont_ok :: "(nat \<Rightarrow> role) \<Rightarrow> ('v, 'e) store \<Rightarrow> nat \<Rightarrow> ('v, 'e) continuation \<Rightarrow> bool" where
  "cont_ok role h s k \<longleftrightarrow>
     s < promise k \<and> promise k < length (states h) \<and> copyOfThis k = s \<and>
     role (promise k) = ByThen s \<and> callable_ok role h s (callable k)"

fun cmd_ok :: "(nat \<Rightarrow> role) \<Rightarrow> ('v, 'e) store \<Rightarrow> ('v, 'e) command \<Rightarrow> bool" where
  "cmd_ok role h (RunContinuation s j) =
     (s < length (states h) \<and> state (states h ! s) \<noteq> Undefined)"
| "cmd_ok role h (RunTemporary k) =
     (cont_ok role h (copyOfThis k) k \<and> state (states h ! copyOfThis k) \<noteq> Undefined)"
| "cmd_ok role h (Resolve t r) = (t < length (states h) \<and> (\<exists>s. role t = ByThen s \<and> is_set h s))"
| "cmd_ok role h (VoidSetValue w) =
     (w < length (states h) \<and>
      ((\<exists>ss. role w = ByAny ss \<and> (\<exists>s \<in> set ss. is_set h s)) \<or>
       (\<exists>a < length (activators h). role w = ByAll a \<and> act_target h a = w \<and>
          use_count (activators h ! a) = 0)))"
| "cmd_ok role h (DropPromise t) =
     (t < length (states h) \<and> ((\<exists>s. role t = ByThen s \<and> is_set h s) \<or> role t = ByPromise))"
| "cmd_ok role h (ClearContinuations t) =
     (t < length (states h) \<and> state (states h ! t) \<noteq> Undefined)"
| "cmd_ok role h (DropActivator a) = (a < length (activators h))"
| "cmd_ok role h (CallThen s c void) = (s < length (states h) \<and> callable_ok role h s c)"

section \<open>Counting the pointers to an activator\<close>

definition holds :: "nat \<Rightarrow> ('v, 'e) continuation \<Rightarrow> nat" where
  "holds a k = (if callable k = ResetActivator (Some a) then 1 else 0)"

fun cmd_holds :: "nat \<Rightarrow> ('v, 'e) command \<Rightarrow> nat" where
  "cmd_holds a (RunTemporary k) = holds a k"
| "cmd_holds a (DropActivator b) = (if a = b then 1 else 0)"
| "cmd_holds a _ = 0"

definition list_holds :: "nat \<Rightarrow> ('v, 'e) continuation list \<Rightarrow> nat" where
  "list_holds a ks = sum_list (map (holds a) ks)"

definition store_refs :: "nat \<Rightarrow> ('v, 'e) store \<Rightarrow> nat" where
  "store_refs a h = sum_list (map (\<lambda>fs. list_holds a (continuations fs)) (states h))"

definition cmd_refs :: "nat \<Rightarrow> ('v, 'e) command multiset \<Rightarrow> nat" where
  "cmd_refs a P = sum_mset (image_mset (cmd_holds a) P)"

section \<open>The invariant\<close>

definition conts_ok :: "(nat \<Rightarrow> role) \<Rightarrow> ('v, 'e) store \<Rightarrow> bool" where
  "conts_ok role h \<longleftrightarrow>
     (\<forall>s < length (states h). \<forall>k \<in> set (continuations (states h ! s)). cont_ok role h s k)"

definition acts_ok :: "(nat \<Rightarrow> role) \<Rightarrow> ('v, 'e) store \<Rightarrow> bool" where
  "acts_ok role h \<longleftrightarrow>
     (\<forall>a < length (activators h). act_ok role h a) \<and>
     (\<forall>s < length (states h). state (states h ! s) = Exception \<longrightarrow> error (states h ! s) \<noteq> None)"

definition order_ok :: "(nat \<Rightarrow> role) \<Rightarrow> ('v, 'e) store \<Rightarrow> bool" where
  "order_ok role h \<longleftrightarrow>
     (\<forall>t < length (states h).
        (is_set h t \<longrightarrow> may_set h (role t)) \<and>
        (\<forall>s. role t = ByThen s \<longrightarrow> s < t) \<and> (\<forall>ss. role t = ByAny ss \<longrightarrow> set ss \<subseteq> {..<t}))"

definition refs_ok :: "('v, 'e) store \<Rightarrow> ('v, 'e) command multiset \<Rightarrow> bool" where
  "refs_ok h P \<longleftrightarrow>
     (\<forall>a < length (activators h). use_count (activators h ! a) = store_refs a h + cmd_refs a P)"

text \<open>A stored pointer in a set state is about to be released.\<close>

definition drained :: "('v, 'e) store \<Rightarrow> ('v, 'e) command multiset \<Rightarrow> bool" where
  "drained h P \<longleftrightarrow>
     (\<forall>s < length (states h). \<forall>j < length (continuations (states h ! s)). \<forall>a.
        callable (continuations (states h ! s) ! j) = ResetActivator (Some a) \<longrightarrow>
        state (states h ! s) \<noteq> Undefined \<longrightarrow>
        RunContinuation s j \<in># P \<or> ClearContinuations s \<in># P)"

text \<open>An input that is not set still holds a pointer, or is about to get one.\<close>

definition inputs_ok :: "('v, 'e) store \<Rightarrow> ('v, 'e) command multiset \<Rightarrow> bool" where
  "inputs_ok h P \<longleftrightarrow>
     (\<forall>a < length (activators h). \<forall>s \<in> set (inputs (activators h ! a)).
        s < length (states h) \<and>
        (state (states h ! s) = Undefined \<longrightarrow>
         (\<exists>k \<in> set (continuations (states h ! s)). callable k = ResetActivator (Some a)) \<or>
         (\<exists>v. CallThen s (ResetActivator (Some a)) v \<in># P)))"

text \<open>The state of \<open>WhenAll\<close> is set when, and only when, its last pointer is gone.\<close>

definition targets_ok :: "('v, 'e) store \<Rightarrow> ('v, 'e) command multiset \<Rightarrow> bool" where
  "targets_ok h P \<longleftrightarrow>
     (\<forall>a < length (activators h).
        (0 < use_count (activators h ! a) \<longrightarrow> state (states h ! act_target h a) = Undefined) \<and>
        (use_count (activators h ! a) = 0 \<longrightarrow>
           state (states h ! act_target h a) = Ready \<or>
           state (states h ! act_target h a) = Undefined \<and> VoidSetValue (act_target h a) \<in># P))"

definition inv :: "(nat \<Rightarrow> role) \<Rightarrow> ('v, 'e) store \<Rightarrow> ('v, 'e) command multiset \<Rightarrow> bool" where
  "inv role h P \<longleftrightarrow>
     conts_ok role h \<and> acts_ok role h \<and> order_ok role h \<and> (\<forall>c. c \<in># P \<longrightarrow> cmd_ok role h c) \<and>
     refs_ok h P \<and> drained h P \<and> inputs_ok h P \<and> targets_ok h P"

lemmas inv_defs = conts_ok_def acts_ok_def order_ok_def refs_ok_def drained_def inputs_ok_def targets_ok_def

section \<open>Reading an updated store\<close>

lemma states_upd_state [simp]: "states (upd_state s f h) = (states h)[s := f (states h ! s)]"
  by (simp add: upd_state_def)

lemma activators_upd_state [simp]: "activators (upd_state s f h) = activators h"
  by (simp add: upd_state_def)

lemma act_target_upd_state [simp]: "act_target (upd_state s f h) a = act_target h a"
  by (simp add: act_target_def)

lemma act_ok_upd_state [simp]: "act_ok role (upd_state s f h) a = act_ok role h a"
  by (simp add: act_ok_def)

lemma callable_ok_upd_state [simp]: "callable_ok role (upd_state s f h) t c = callable_ok role h t c"
  by (induction role h t c rule: callable_ok.induct) auto

lemma cont_ok_upd_state [simp]: "cont_ok role (upd_state s f h) t k = cont_ok role h t k"
  by (simp add: cont_ok_def)

lemma list_holds_simps [simp]:
  "list_holds a [] = 0" "list_holds a (k # ks) = holds a k + list_holds a ks"
  "list_holds a (xs @ ys) = list_holds a xs + list_holds a ys"
  by (simp_all add: list_holds_def)

lemma cmd_refs_simps [simp]:
  "cmd_refs a {#} = 0" "cmd_refs a (add_mset c P) = cmd_holds a c + cmd_refs a P"
  "cmd_refs a (P + Q) = cmd_refs a P + cmd_refs a Q"
  by (simp_all add: cmd_refs_def)

lemma sum_list_map_update:
  fixes f :: "'b \<Rightarrow> nat"
  assumes "s < length xs"
  shows "sum_list (map f (xs[s := x])) + f (xs ! s) = sum_list (map f xs) + f x"
  using assms
proof (induction xs arbitrary: s)
  case (Cons y ys)
  then show ?case by (cases s) auto
qed simp

lemma store_refs_upd:
  assumes "s < length (states h)"
  shows "store_refs a (upd_state s f h) + list_holds a (continuations (states h ! s)) =
         store_refs a h + list_holds a (continuations (f (states h ! s)))"
  using sum_list_map_update [OF assms, of "\<lambda>fs. list_holds a (continuations fs)"]
  by (simp add: store_refs_def)

lemma store_refs_upd_same [simp]:
  assumes "\<And>fs. continuations (f fs) = continuations fs"
  shows "store_refs a (upd_state s f h) = store_refs a h"
proof (cases "s < length (states h)")
  case True
  from store_refs_upd [OF this, of a f] assms show ?thesis by simp
qed (simp add: store_refs_def upd_state_def list_update_beyond)

lemma list_holds_update:
  assumes "j < length ks"
  shows "list_holds a (ks[j := k]) + holds a (ks ! j) = list_holds a ks + holds a k"
  using sum_list_map_update [OF assms, of "holds a"] by (simp add: list_holds_def)

lemma holds_member: "k \<in> set ks \<Longrightarrow> callable k = ResetActivator (Some a) \<Longrightarrow> 0 < list_holds a ks"
  by (induction ks) (auto simp: holds_def)

lemma list_holds_pos: "0 < list_holds a ks \<Longrightarrow> \<exists>k \<in> set ks. callable k = ResetActivator (Some a)"
  by (induction ks) (auto simp: holds_def split: if_splits)

lemma sum_list_pos_member:
  fixes f :: "'b \<Rightarrow> nat"
  shows "0 < sum_list (map f xs) \<Longrightarrow> \<exists>x \<in> set xs. 0 < f x"
  by (induction xs) auto

lemma store_refs_pos:
  assumes "0 < store_refs a h"
  shows "\<exists>s < length (states h). \<exists>k \<in> set (continuations (states h ! s)).
           callable k = ResetActivator (Some a)"
proof -
  have "\<exists>fs \<in> set (states h). 0 < list_holds a (continuations fs)"
    using assms unfolding store_refs_def by (rule sum_list_pos_member)
  then show ?thesis using list_holds_pos by (metis in_set_conv_nth)
qed

lemma store_refs_member:
  assumes "s < length (states h)" "k \<in> set (continuations (states h ! s))"
    "callable k = ResetActivator (Some a)"
  shows "0 < store_refs a h"
proof -
  have "0 < list_holds a (continuations (states h ! s))" using assms(2,3) by (rule holds_member)
  also have "\<dots> \<le> store_refs a h"
    unfolding store_refs_def using assms(1)
    by (intro member_le_sum_list) (auto intro!: image_eqI [of _ _ "states h ! s"])
  finally show ?thesis .
qed

section \<open>Small changes that keep the invariant\<close>

text \<open>Adding a command that holds no pointer.\<close>

lemma inv_add:
  assumes "inv role h P" "cmd_ok role h c" "\<And>a. cmd_holds a c = 0"
  shows "inv role h (add_mset c P)"
proof -
  note i = assms(1)[unfolded inv_def]
  have "inputs_ok h (add_mset c P)"
    using i unfolding inputs_ok_def by (simp only: set_mset_add_mset_insert insert_iff) blast
  moreover have "drained h (add_mset c P)" using i by (auto simp: drained_def)
  moreover have "targets_ok h (add_mset c P)" using i by (auto simp: targets_ok_def)
  moreover have "refs_ok h (add_mset c P)" using i assms(3) by (auto simp: refs_ok_def)
  ultimately show ?thesis using i assms(2) by (auto simp: inv_def)
qed

lemma inv_add_all:
  assumes "inv role h P" "\<And>c. c \<in> set cs \<Longrightarrow> cmd_ok role h c \<and> (\<forall>a. cmd_holds a c = 0)"
  shows "inv role h (mset cs + P)"
  using assms by (induction cs) (auto intro: inv_add)

text \<open>Removing a command that holds no pointer and that no part of the invariant relies on.\<close>

fun dispensable :: "('v, 'e) store \<Rightarrow> ('v, 'e) command \<Rightarrow> bool" where
  "dispensable h (RunContinuation s j) =
     (j < length (continuations (states h ! s)) \<longrightarrow>
        (\<forall>a. callable (continuations (states h ! s) ! j) \<noteq> ResetActivator (Some a)))"
| "dispensable h (RunTemporary k) = (\<forall>a. callable k \<noteq> ResetActivator (Some a))"
| "dispensable h (VoidSetValue w) = (state (states h ! w) \<noteq> Undefined)"
| "dispensable h (ClearContinuations s) = (continuations (states h ! s) = [])"
| "dispensable h (DropActivator a) = False"
| "dispensable h (CallThen s (ResetActivator (Some a)) v) =
     (state (states h ! s) \<noteq> Undefined \<or>
      (\<exists>k \<in> set (continuations (states h ! s)). callable k = ResetActivator (Some a)))"
| "dispensable h _ = True"

lemma dispensable_holds: "dispensable h c \<Longrightarrow> cmd_holds a c = 0"
  by (induction h c rule: dispensable.induct) (auto simp: holds_def)

lemma inv_remove:
  assumes "inv role h (add_mset c P)" "dispensable h c"
  shows "inv role h P"
proof -
  note i = assms(1)[unfolded inv_def]
  have "refs_ok h P" using i dispensable_holds [OF assms(2)] by (auto simp: refs_ok_def)
  moreover have "drained h P"
    unfolding drained_def
  proof (intro allI impI)
    fix s j a
    assume *: "s < length (states h)" "j < length (continuations (states h ! s))"
      "callable (continuations (states h ! s) ! j) = ResetActivator (Some a)"
      "state (states h ! s) \<noteq> Undefined"
    then have "c \<noteq> RunContinuation s j" "c \<noteq> ClearContinuations s" using assms(2) by auto
    with i * show "RunContinuation s j \<in># P \<or> ClearContinuations s \<in># P"
      by (force simp: drained_def)
  qed
  moreover have "inputs_ok h P"
    unfolding inputs_ok_def
  proof (intro allI impI ballI conjI)
    fix a s
    assume a: "a < length (activators h)" and s: "s \<in> set (inputs (activators h ! a))"
    show "s < length (states h)" using i a s by (auto simp: inputs_ok_def)
    assume u: "state (states h ! s) = Undefined"
    let ?Q = "\<exists>k \<in> set (continuations (states h ! s)). callable k = ResetActivator (Some a)"
    from i a s u have "?Q \<or> (\<exists>v. CallThen s (ResetActivator (Some a)) v \<in># add_mset c P)"
      by (auto simp: inputs_ok_def)
    moreover have "?Q" if "c = CallThen s (ResetActivator (Some a)) v" for v
      using that assms(2) u by auto
    ultimately show "?Q \<or> (\<exists>v. CallThen s (ResetActivator (Some a)) v \<in># P)" by auto
  qed
  moreover have "targets_ok h P"
    unfolding targets_ok_def
  proof (intro allI impI conjI)
    fix a assume a: "a < length (activators h)"
    { assume "0 < use_count (activators h ! a)"
      then show "state (states h ! act_target h a) = Undefined" using i a by (simp add: targets_ok_def) }
    assume "use_count (activators h ! a) = 0"
    then show "state (states h ! act_target h a) = Ready \<or>
        state (states h ! act_target h a) = Undefined \<and> VoidSetValue (act_target h a) \<in># P"
      using i a assms(2) by (auto simp: targets_ok_def)
  qed
  ultimately show ?thesis using i by (simp add: inv_def)
qed

lemma nth_update_if: "t < length xs \<Longrightarrow> xs[s := x] ! t = (if t = s then x else xs ! t)"
  by (cases "t = s") auto

text \<open>A change of one state that only sets it, and a change of the commands that keeps all calls of \<open>Then\<close>.\<close>

lemma inputs_ok_change:
  assumes "inputs_ok h P"
    and "state (f (states h ! s)) = Undefined \<Longrightarrow> state (states h ! s) = Undefined \<and>
      (\<forall>k a. k \<in> set (continuations (states h ! s)) \<and> callable k = ResetActivator (Some a) \<longrightarrow>
         k \<in> set (continuations (f (states h ! s))))"
    and "\<And>s c v. CallThen s c v \<in># P \<Longrightarrow> CallThen s c v \<in># Q"
  shows "inputs_ok (upd_state s f h) Q"
  unfolding inputs_ok_def
proof (intro allI impI ballI conjI)
  fix a t
  assume a: "a < length (activators (upd_state s f h))"
    and t: "t \<in> set (inputs (activators (upd_state s f h) ! a))"
  then have l: "t < length (states h)" using assms(1) by (simp add: inputs_ok_def)
  then show "t < length (states (upd_state s f h))" by simp
  assume "state (states (upd_state s f h) ! t) = Undefined"
  then have u: "state (states h ! t) = Undefined"
    using l assms(2) by (auto simp: nth_update_if split: if_splits)
  then have "(\<exists>k \<in> set (continuations (states h ! t)). callable k = ResetActivator (Some a)) \<or>
      (\<exists>v. CallThen t (ResetActivator (Some a)) v \<in># P)"
    using assms(1) a t by (auto simp: inputs_ok_def)
  then show "(\<exists>k \<in> set (continuations (states (upd_state s f h) ! t)). callable k = ResetActivator (Some a)) \<or>
      (\<exists>v. CallThen t (ResetActivator (Some a)) v \<in># Q)"
  proof (elim disjE bexE exE)
    fix k assume k: "k \<in> set (continuations (states h ! t))" "callable k = ResetActivator (Some a)"
    have "k \<in> set (continuations (states (upd_state s f h) ! t))"
      using k l assms(2) \<open>state (states (upd_state s f h) ! t) = Undefined\<close>
      by (auto simp: nth_update_if split: if_splits)
    with k(2) show ?thesis by blast
  next
    fix v assume "CallThen t (ResetActivator (Some a)) v \<in># P"
    then show ?thesis using assms(3) by blast
  qed
qed

lemma targets_ok_change:
  assumes "targets_ok h P" "s < length (states h)"
    and "\<And>a. a < length (activators h) \<Longrightarrow> act_target h a = s \<Longrightarrow>
      use_count (activators h ! a) = 0 \<and> state (f (states h ! s)) = Ready \<or>
      state (f (states h ! s)) = state (states h ! s)"
    and "\<And>w. VoidSetValue w \<in># P \<Longrightarrow> VoidSetValue w \<in># Q"
  shows "targets_ok (upd_state s f h) Q"
  unfolding targets_ok_def
proof (intro allI impI)
  fix a assume "a < length (activators (upd_state s f h))"
  then have a: "a < length (activators h)" by simp
  with assms show "(0 < use_count (activators (upd_state s f h) ! a) \<longrightarrow>
      state (states (upd_state s f h) ! act_target (upd_state s f h) a) = Undefined) \<and>
    (use_count (activators (upd_state s f h) ! a) = 0 \<longrightarrow>
      state (states (upd_state s f h) ! act_target (upd_state s f h) a) = Ready \<or>
      state (states (upd_state s f h) ! act_target (upd_state s f h) a) = Undefined \<and>
      VoidSetValue (act_target (upd_state s f h) a) \<in># Q)"
    by (cases "act_target h a = s") (fastforce simp: targets_ok_def)+
qed

text \<open>A state that is set stays set.\<close>

lemma is_set_upd_state:
  assumes "is_set h t" "is_set h s \<Longrightarrow> state (f (states h ! s)) \<noteq> Undefined"
  shows "is_set (upd_state s f h) t"
proof (cases "s < length (states h)")
  case True
  then show ?thesis using assms by (auto simp: is_set_def nth_list_update)
qed (use assms in \<open>simp add: is_set_def upd_state_def list_update_beyond\<close>)

lemma may_set_mono:
  assumes "may_set h r" "\<And>t. is_set h t \<Longrightarrow> is_set h' t"
  shows "may_set h' r"
  using assms by (cases r) auto

lemma order_ok_upd_state:
  assumes "order_ok role h" "is_set h s \<Longrightarrow> state (f (states h ! s)) \<noteq> Undefined"
    "state (f (states h ! s)) \<noteq> Undefined \<Longrightarrow> may_set h (role s)"
  shows "order_ok role (upd_state s f h)"
  unfolding order_ok_def
proof (intro allI impI conjI)
  fix t assume t: "t < length (states (upd_state s f h))"
  show "is_set (upd_state s f h) t \<Longrightarrow> may_set (upd_state s f h) (role t)"
  proof (rule may_set_mono [of h])
    assume "is_set (upd_state s f h) t"
    then show "may_set h (role t)"
      using assms t by (auto simp: order_ok_def is_set_def nth_update_if split: if_splits)
  qed (use assms(2) in \<open>blast intro: is_set_upd_state\<close>)
qed (use assms(1) in \<open>auto simp: order_ok_def\<close>)

lemma cmd_ok_upd_state:
  assumes "cmd_ok role h c"
    "is_set h s \<Longrightarrow> state (f (states h ! s)) \<noteq> Undefined"
  shows "cmd_ok role (upd_state s f h) c"
proof -
  have "is_set (upd_state s f h) t" if "is_set h t" for t
    using that assms(2) by (rule is_set_upd_state)
  then show ?thesis
    using assms(1) by (cases c) (auto simp: is_set_def cont_ok_def)
qed

text \<open>Completing a state: its continuations are about to run.\<close>

lemma inv_complete:
  assumes i: "inv role h P" and s: "s < length (states h)"
    and conts: "\<And>fs. continuations (f fs) = continuations fs"
    and set: "state (f (states h ! s)) \<noteq> Undefined"
    and err: "state (f (states h ! s)) = Exception \<Longrightarrow> error (f (states h ! s)) \<noteq> None"
    and tgt: "\<And>a. a < length (activators h) \<Longrightarrow> act_target h a = s \<Longrightarrow>
      use_count (activators h ! a) = 0 \<and> state (f (states h ! s)) = Ready"
    and may: "may_set h (role s)"
  shows "inv role (upd_state s f h) (mset (run_continuations h s) + P)"
proof -
  note i = i[unfolded inv_def]
  have ok: "cmd_ok role (upd_state s f h) c" if "c \<in># P" for c
    using i that set by (blast intro: cmd_ok_upd_state)
  have new: "cmd_ok role (upd_state s f h) c" if "c \<in> set (run_continuations h s)" for c
    using that s set by (auto simp: run_continuations_def)
  have "conts_ok role (upd_state s f h)"
    using i conts by (auto simp: conts_ok_def nth_update_if)
  moreover have "acts_ok role (upd_state s f h)"
    using i err by (auto simp: acts_ok_def nth_update_if)
  moreover have "refs_ok (upd_state s f h) (mset (run_continuations h s) + P)"
  proof -
    have "cmd_refs a (mset (run_continuations h s)) = 0" for a
      by (simp add: run_continuations_def cmd_refs_def)
    then show ?thesis using i conts by (simp add: refs_ok_def)
  qed
  moreover have "drained (upd_state s f h) (mset (run_continuations h s) + P)"
    using i conts by (auto simp: drained_def run_continuations_def nth_update_if)
  moreover have "inputs_ok (upd_state s f h) (mset (run_continuations h s) + P)"
    by (rule inputs_ok_change [of h P]) (use i set in auto)
  moreover have "targets_ok (upd_state s f h) (mset (run_continuations h s) + P)"
    by (rule targets_ok_change [of h P]) (use i tgt s in auto)
  moreover have "order_ok role (upd_state s f h)"
    by (rule order_ok_upd_state) (use i set may in auto)
  ultimately show ?thesis using ok new by (auto simp: inv_def)
qed

text \<open>Breaking a promise: its continuations are about to be destroyed.\<close>

lemma inv_break:
  assumes i: "inv role h P" and s: "s < length (states h)" and r: "\<And>a. role s \<noteq> ByAll a"
    and may: "may_set h (role s)"
  shows "inv role (fst (AboutToDestroyPromise h s)) (add_mset (ClearContinuations s) P)"
proof (cases "state (states h ! s) = Undefined")
  case False
  then show ?thesis using i s by (auto simp: AboutToDestroyPromise_def intro: inv_add)
next
  case True
  let ?h = "upd_state s (\<lambda>fs. fs\<lparr>state := BrokenPromise\<rparr>) h"
  note i = i[unfolded inv_def]
  have ok: "cmd_ok role ?h c" if "c \<in># P" for c
    using i that by (intro cmd_ok_upd_state) auto
  have t: "act_target h a \<noteq> s" if "a < length (activators h)" for a
    using i r that by (auto simp: acts_ok_def act_ok_def)
  have "conts_ok role ?h" using i by (auto simp: conts_ok_def nth_update_if)
  moreover have "acts_ok role ?h" using i by (auto simp: acts_ok_def nth_update_if)
  moreover have "refs_ok ?h (add_mset (ClearContinuations s) P)" using i by (simp add: refs_ok_def)
  moreover have "drained ?h (add_mset (ClearContinuations s) P)"
    using i by (auto simp: drained_def nth_update_if)
  moreover have "inputs_ok ?h (add_mset (ClearContinuations s) P)"
    by (rule inputs_ok_change [of h P]) (use i in auto)
  moreover have "targets_ok ?h (add_mset (ClearContinuations s) P)"
    by (rule targets_ok_change [of h P]) (use i t s in auto)
  moreover have "order_ok role ?h"
    by (rule order_ok_upd_state) (use i may in auto)
  ultimately have "inv role ?h (add_mset (ClearContinuations s) P)"
    using ok s by (auto simp: inv_def)
  then show ?thesis using True by (simp add: AboutToDestroyPromise_def)
qed

end
