(* ===== verification/Future_Steps.thy ===== *)
theory Future_Steps
  imports Future_Invariant
begin

text \<open>
  Every command keeps the invariant, so every interleaving of the commands of all threads does.
\<close>

section \<open>Changes that move pointers\<close>

lemma inv_invoked [simp]: "inv role (h\<lparr>invoked := xs\<rparr>) P = inv role h P"
proof -
  have t: "act_target (h\<lparr>invoked := xs\<rparr>) a = act_target h a" for a by (simp add: act_target_def)
  have a: "act_ok role (h\<lparr>invoked := xs\<rparr>) a = act_ok role h a" for a by (simp add: act_ok_def t)
  have c: "callable_ok role (h\<lparr>invoked := xs\<rparr>) s c = callable_ok role h s c" for s c
  proof (cases c)
    case (ResetActivator x)
    then show ?thesis by (cases x) (auto simp: t)
  qed auto
  have k: "cont_ok role (h\<lparr>invoked := xs\<rparr>) s k = cont_ok role h s k" for s k
    by (simp add: cont_ok_def c)
  have m: "cmd_ok role (h\<lparr>invoked := xs\<rparr>) c = cmd_ok role h c" for c
    by (cases c) (auto simp: c k t is_set_def)
  have r: "store_refs a (h\<lparr>invoked := xs\<rparr>) = store_refs a h" for a by (simp add: store_refs_def)
  have z: "is_set (h\<lparr>invoked := xs\<rparr>) t = is_set h t" for t by (simp add: is_set_def)
  have y: "may_set (h\<lparr>invoked := xs\<rparr>) r = may_set h r" for r by (cases r) (auto simp: z)
  show ?thesis by (simp add: inv_def inv_defs t a k m r y z)
qed

text \<open>The lambda of \<open>WhenAll\<close> resets the pointer it captured.\<close>

lemma inv_reset:
  fixes h :: "('v, 'e) store"
  assumes i: "inv role h P" and s: "s < length (states h)"
    and j: "j < length (continuations (states h ! s))"
    and c: "callable (continuations (states h ! s) ! j) = ResetActivator (Some a)"
    and u: "state (states h ! s) \<noteq> Undefined"
  defines "ks \<equiv> continuations (states h ! s)"
  defines "f \<equiv> \<lambda>fs. fs\<lparr>continuations := ks[j := (ks ! j)\<lparr>callable := ResetActivator None\<rparr>]\<rparr>"
  shows "inv role (upd_state s f h) (add_mset (DropActivator a) P)"
proof -
  note i = i[unfolded inv_def]
  have k: "cont_ok role h s (ks ! j)" using i s j by (auto simp: conts_ok_def ks_def)
  have a: "a < length (activators h)" using k c by (simp add: cont_ok_def ks_def)
  have st: "state (f fs) = state fs" for fs by (simp add: f_def)
  have "cont_ok role h s ((ks ! j)\<lparr>callable := ResetActivator None\<rparr>)"
    using k by (simp add: cont_ok_def)
  then have "conts_ok role (upd_state s f h)"
    using i unfolding conts_ok_def
    by (auto simp: nth_update_if f_def ks_def dest!: set_update_subset_insert [THEN subsetD])
  moreover have "acts_ok role (upd_state s f h)"
    using i by (auto simp: acts_ok_def nth_update_if f_def)
  moreover have "order_ok role (upd_state s f h)"
    by (rule order_ok_upd_state) (use i s in \<open>auto simp: st order_ok_def is_set_def\<close>)
  moreover have "refs_ok (upd_state s f h) (add_mset (DropActivator a) P)"
  proof -
    have "store_refs b (upd_state s f h) + holds b (ks ! j) = store_refs b h" for b
      using store_refs_upd [OF s, of b f] list_holds_update [of j ks b "(ks ! j)\<lparr>callable := ResetActivator None\<rparr>"] j
      by (simp add: f_def ks_def holds_def)
    moreover have "holds b (ks ! j) = cmd_holds b (DropActivator a)" for b
      using c by (simp add: holds_def ks_def)
    ultimately show ?thesis using i by (auto simp: refs_ok_def)
  qed
  moreover have "drained (upd_state s f h) (add_mset (DropActivator a) P)"
    using i by (auto simp: drained_def nth_update_if f_def ks_def split: if_splits)
  moreover have "inputs_ok (upd_state s f h) (add_mset (DropActivator a) P)"
    by (rule inputs_ok_change [of h P]) (use i u in \<open>auto simp: st\<close>)
  moreover have "targets_ok (upd_state s f h) (add_mset (DropActivator a) P)"
    by (rule targets_ok_change [of h P]) (use i s in \<open>auto simp: st\<close>)
  moreover have "cmd_ok role (upd_state s f h) c" if "c \<in># P" for c
    using i that by (intro cmd_ok_upd_state) (auto simp: st is_set_def)
  ultimately show ?thesis using a by (auto simp: inv_def)
qed

lemma inv_run_reset:
  assumes "inv role h (add_mset (RunTemporary k) Q)" "callable k = ResetActivator (Some a)"
  shows "inv role h (add_mset (DropActivator a) Q)"
proof -
  note i = assms(1)[unfolded inv_def]
  have "cont_ok role h (copyOfThis k) k" using i by auto
  then have "a < length (activators h)" using assms(2) by (simp add: cont_ok_def)
  moreover have "refs_ok h (add_mset (DropActivator a) Q)"
    using i assms(2) by (auto simp: refs_ok_def holds_def)
  moreover have "inputs_ok h (add_mset (DropActivator a) Q)"
    using i unfolding inputs_ok_def by (simp only: set_mset_add_mset_insert insert_iff) blast
  ultimately show ?thesis using i by (auto simp: inv_def drained_def targets_ok_def)
qed

text \<open>\<open>_continuations.clear()\<close>\<close>

lemma cmd_refs_destroy:
  "cmd_refs a (mset (concat (map destroy_continuation ks))) = list_holds a ks"
proof (induction ks)
  case (Cons k ks)
  have "cmd_refs a (mset (destroy_continuation k)) = holds a k"
    by (cases "callable k" rule: drop_callable.cases) (auto simp: destroy_continuation_def holds_def)
  with Cons show ?case by simp
qed simp

lemma inv_clear:
  assumes i: "inv role h P" and s: "s < length (states h)" and u: "state (states h ! s) \<noteq> Undefined"
  shows "inv role (fst (clear_continuations h s)) (mset (snd (clear_continuations h s)) + P)"
proof -
  let ?f = "\<lambda>fs. fs\<lparr>continuations := []\<rparr>" and ?ks = "continuations (states h ! s)"
  let ?h = "upd_state s ?f h" and ?new = "concat (map destroy_continuation ?ks)"
  note i = i[unfolded inv_def]
  have "conts_ok role ?h" using i by (auto simp: conts_ok_def nth_update_if split: if_splits)
  moreover have "acts_ok role ?h" using i by (auto simp: acts_ok_def nth_update_if)
  moreover have "order_ok role ?h"
    by (rule order_ok_upd_state) (use i s in \<open>auto simp: order_ok_def is_set_def\<close>)
  moreover have "refs_ok ?h (mset ?new + P)"
  proof -
    have "store_refs a ?h + list_holds a ?ks = store_refs a h" for a
      using store_refs_upd [OF s, of a ?f] by simp
    then show ?thesis
      using i by (auto simp: refs_ok_def cmd_refs_destroy)
  qed
  moreover have "drained ?h (mset ?new + P)"
    using i by (auto simp: drained_def nth_update_if split: if_splits)
  moreover have "inputs_ok ?h (mset ?new + P)"
    by (rule inputs_ok_change [of h P]) (use i u in auto)
  moreover have "targets_ok ?h (mset ?new + P)"
    by (rule targets_ok_change [of h P]) (use i s in auto)
  moreover have "cmd_ok role ?h c" if "c \<in># P" for c
    using i that by (intro cmd_ok_upd_state) (auto simp: is_set_def)
  moreover have "cmd_ok role ?h c" if c: "c \<in> set ?new" for c
  proof -
    obtain k where k: "k \<in> set ?ks" "c \<in> set (destroy_continuation k)" using c by auto
    have "cont_ok role h s k" using i s k(1) by (auto simp: conts_ok_def)
    then show ?thesis using k(2)
      using u s by (cases "callable k" rule: drop_callable.cases)
        (auto simp: destroy_continuation_def cont_ok_def is_set_def)
  qed
  ultimately show ?thesis by (auto simp: inv_def clear_continuations_def)
qed

text \<open>A change of the number of pointers alone.\<close>

definition set_count :: "nat \<Rightarrow> nat \<Rightarrow> ('v, 'e) store \<Rightarrow> ('v, 'e) store" where
  "set_count a n h = h\<lparr>activators := (activators h)[a := (activators h ! a)\<lparr>use_count := n\<rparr>]\<rparr>"

lemma nth_update_keeps:
  assumes "\<And>x. F (u x) = F x"
  shows "F (xs[a := u (xs ! a)] ! b) = F (xs ! b)"
  using assms by (cases "a < length xs"; cases "a = b") (auto simp: list_update_beyond not_less)

lemma set_count_simps [simp]:
  "states (set_count a n h) = states h"
  "length (activators (set_count a n h)) = length (activators h)"
  "b < length (activators h) \<Longrightarrow>
     use_count (activators (set_count a n h) ! b) = (if b = a then n else use_count (activators h ! b))"
  "inputs (activators (set_count a n h) ! b) = inputs (activators h ! b)"
  "disposer (activators (set_count a n h) ! b) = disposer (activators h ! b)"
  by (simp_all add: set_count_def nth_update_if) (rule nth_update_keeps; simp)+

lemma act_target_set_count [simp]: "act_target (set_count a n h) b = act_target h b"
  by (simp add: act_target_def)

lemma act_ok_set_count [simp]: "act_ok role (set_count a n h) b = act_ok role h b"
  by (simp add: act_ok_def)

lemma callable_ok_set_count [simp]: "callable_ok role (set_count a n h) s c = callable_ok role h s c"
proof (cases c)
  case (ResetActivator x)
  then show ?thesis by (cases x) auto
qed auto

lemma cont_ok_set_count [simp]: "cont_ok role (set_count a n h) s k = cont_ok role h s k"
  by (simp add: cont_ok_def)

lemma store_refs_set_count [simp]: "store_refs b (set_count a n h) = store_refs b h"
  by (simp add: store_refs_def)

lemma is_set_set_count [simp]: "is_set (set_count a n h) t = is_set h t"
  by (simp add: is_set_def)

lemma may_set_set_count [simp]: "may_set (set_count a n h) r = may_set h r"
  by (cases r) auto

lemma cmd_ok_set_count:
  assumes "cmd_ok role h c" "n = 0 \<or> 0 < use_count (activators h ! a)"
  shows "cmd_ok role (set_count a n h) c"
  using assms by (cases c) (auto split: if_splits)

lemma inv_drop_activator:
  assumes "inv role h (add_mset (DropActivator a) Q)"
  shows "inv role (fst (drop_activator h a)) (mset (snd (drop_activator h a)) + Q)"
proof -
  note i = assms[unfolded inv_def]
  let ?n = "use_count (activators h ! a)"
  have a: "a < length (activators h)" using i by auto
  then have n: "?n = store_refs a h + cmd_refs a Q + 1" using i by (auto simp: refs_ok_def)
  have h: "fst (drop_activator h a) = set_count a (?n - 1) h"
    by (simp add: drop_activator_def set_count_def Let_def)
  have act: "func (disposer (activators h ! a)) = Some (act_target h a)" "act_target h a < length (states h)"
    "role (act_target h a) = ByAll a"
    using i a by (auto simp: acts_ok_def act_ok_def)
  then have new: "snd (drop_activator h a) = (if ?n = 1 then [VoidSetValue (act_target h a)] else [])"
    by (simp add: drop_activator_def Let_def Disposer_dtor_def)
  let ?h = "set_count a (?n - 1) h" and ?P = "mset (snd (drop_activator h a)) + Q"
  have "conts_ok role ?h" using i by (auto simp: conts_ok_def)
  moreover have "acts_ok role ?h" using i by (auto simp: acts_ok_def)
  moreover have "order_ok role ?h" using i by (auto simp: order_ok_def)
  moreover have "refs_ok ?h ?P"
    using i n by (simp add: refs_ok_def new)
  moreover have "drained ?h ?P" using i by (auto simp: drained_def)
  moreover have "inputs_ok ?h ?P"
    using i unfolding inputs_ok_def by (auto simp: new)
  moreover have "targets_ok ?h ?P"
    unfolding targets_ok_def
  proof (intro allI impI)
    fix b assume b: "b < length (activators ?h)"
    have t: "(0 < use_count (activators h ! b) \<longrightarrow> state (states h ! act_target h b) = Undefined) \<and>
        (use_count (activators h ! b) = 0 \<longrightarrow> state (states h ! act_target h b) = Ready \<or>
          state (states h ! act_target h b) = Undefined \<and> VoidSetValue (act_target h b) \<in># Q)"
      using i b by (auto simp: targets_ok_def)
    show "(0 < use_count (activators ?h ! b) \<longrightarrow> state (states ?h ! act_target ?h b) = Undefined) \<and>
        (use_count (activators ?h ! b) = 0 \<longrightarrow> state (states ?h ! act_target ?h b) = Ready \<or>
          state (states ?h ! act_target ?h b) = Undefined \<and> VoidSetValue (act_target ?h b) \<in># ?P)"
      using t b n by (cases "b = a") (auto simp: new)
  qed
  moreover have "cmd_ok role ?h c" if "c \<in># Q" for c
    using i that n by (intro cmd_ok_set_count) auto
  moreover have "cmd_ok role ?h c" if "c \<in> set (snd (drop_activator h a))" for c
    using that act a by (auto simp: new split: if_splits)
  ultimately show ?thesis by (auto simp: inv_def h)
qed

section \<open>New states and new continuations\<close>

lemma states_make_state [simp]:
  "states (fst (make_state v h)) = states h @ [FutureState_new v]"
  "activators (fst (make_state v h)) = activators h"
  "snd (make_state v h) = length (states h)"
  by (simp_all add: make_state_def)

lemma act_target_make_state [simp]: "act_target (fst (make_state v h)) a = act_target h a"
  by (simp add: act_target_def)

lemma callable_ok_make_state:
  assumes "callable_ok role h s c"
  shows "callable_ok (role(length (states h) := r)) (fst (make_state v h)) s c"
proof (cases c)
  case (ResetActivator x)
  then show ?thesis using assms by (cases x) auto
qed (use assms in auto)

lemma is_set_make_state [simp]:
  "t < length (states h) \<Longrightarrow> is_set (fst (make_state v h)) t = is_set h t"
  "\<not> is_set (fst (make_state v h)) (length (states h))"
  by (simp_all add: is_set_def nth_append FutureState_new_def)

lemma cont_ok_make_state:
  "cont_ok role h s k \<Longrightarrow> cont_ok (role(length (states h) := r)) (fst (make_state v h)) s k"
  by (auto simp: cont_ok_def callable_ok_make_state)

lemma may_set_make_state:
  assumes "order_ok role h" "t < length (states h)" "may_set h (role t)"
  shows "may_set (fst (make_state v h)) (role t)"
proof (cases "role t")
  case (ByThen s)
  then have "s < length (states h)" using assms by (force simp: order_ok_def)
  then show ?thesis using ByThen assms(3) by simp
next
  case (ByAny ss)
  then have "set ss \<subseteq> {..<length (states h)}" using assms(1,2) by (force simp: order_ok_def)
  then show ?thesis using ByAny assms(3) by (auto intro!: bexI)
qed simp_all

lemma cmd_ok_make_state:
  assumes "cmd_ok role h c" "order_ok role h"
  shows "cmd_ok (role(length (states h) := r)) (fst (make_state v h)) c"
proof -
  have m: "may_set (fst (make_state v h)) (role t)" if "t < length (states h)" "may_set h (role t)" for t
    using that assms(2) by (intro may_set_make_state) auto
  show ?thesis
  proof (cases c)
    case (Resolve t x)
    then show ?thesis using assms(1) m [of t] by auto
  next
    case (VoidSetValue t)
    then show ?thesis using assms(1) m [of t] by fastforce
  next
    case (DropPromise t)
    then show ?thesis using assms(1) m [of t] by auto
  qed (use assms(1) in \<open>auto simp: nth_append callable_ok_make_state cont_ok_make_state cont_ok_def\<close>)
qed

lemma store_refs_make_state [simp]: "store_refs a (fst (make_state v h)) = store_refs a h"
  by (simp add: store_refs_def FutureState_new_def)

lemma order_ok_make_state:
  assumes o: "order_ok role h"
    and r: "\<And>s. r = ByThen s \<Longrightarrow> s < length (states h)"
      "\<And>ss. r = ByAny ss \<Longrightarrow> set ss \<subseteq> {..<length (states h)}"
  shows "order_ok (role(length (states h) := r)) (fst (make_state v h))"
  unfolding order_ok_def
proof (intro allI impI)
  let ?h = "fst (make_state v h)" and ?role = "role(length (states h) := r)"
  fix t assume l: "t < length (states ?h)"
  show "(is_set ?h t \<longrightarrow> may_set ?h (?role t)) \<and> (\<forall>s. ?role t = ByThen s \<longrightarrow> s < t) \<and>
      (\<forall>ss. ?role t = ByAny ss \<longrightarrow> set ss \<subseteq> {..<t})"
  proof (cases "t = length (states h)")
    case True
    then show ?thesis using r by auto
  next
    case False
    then have t: "t < length (states h)" using l by simp
    then have "is_set h t \<longrightarrow> may_set h (role t)" "\<forall>s. role t = ByThen s \<longrightarrow> s < t"
      "\<forall>ss. role t = ByAny ss \<longrightarrow> set ss \<subseteq> {..<t}"
      using o by (simp_all add: order_ok_def)
    moreover have "may_set h (role t) \<Longrightarrow> may_set ?h (role t)"
      using o t by (rule may_set_make_state)
    ultimately show ?thesis using t False by simp
  qed
qed

lemma inv_make_state:
  assumes "inv role h P"
    and r: "\<And>s. r = ByThen s \<Longrightarrow> s < length (states h)"
      "\<And>ss. r = ByAny ss \<Longrightarrow> set ss \<subseteq> {..<length (states h)}"
  shows "inv (role(length (states h) := r)) (fst (make_state v h)) P"
proof -
  note i = assms(1)[unfolded inv_def]
  let ?h = "fst (make_state v h)" and ?role = "role(length (states h) := r)"
  have t: "act_target h a < length (states h)" "act_target h a \<noteq> length (states h)"
    if "a < length (activators h)" for a
    using i that by (fastforce simp: acts_ok_def act_ok_def)+
  have "conts_ok ?role ?h"
    using i
    by (auto simp: conts_ok_def less_Suc_eq nth_append FutureState_new_def intro: cont_ok_make_state)
  moreover have "acts_ok ?role ?h"
    using i t by (auto simp: acts_ok_def act_ok_def less_Suc_eq nth_append FutureState_new_def)
  moreover have "order_ok ?role ?h" using i r by (intro order_ok_make_state) auto
  moreover have "refs_ok ?h P" using i by (simp add: refs_ok_def)
  moreover have "drained ?h P"
    using i by (auto simp: drained_def less_Suc_eq nth_append FutureState_new_def)
  moreover have "inputs_ok ?h P"
    unfolding inputs_ok_def
  proof (intro allI impI ballI)
    fix a s assume "a < length (activators ?h)" "s \<in> set (inputs (activators ?h ! a))"
    then have "s < length (states h) \<and>
        (state (states h ! s) = Undefined \<longrightarrow>
         (\<exists>k \<in> set (continuations (states h ! s)). callable k = ResetActivator (Some a)) \<or>
         (\<exists>v. CallThen s (ResetActivator (Some a)) v \<in># P))"
      using i by (simp add: inputs_ok_def)
    then show "s < length (states ?h) \<and>
        (state (states ?h ! s) = Undefined \<longrightarrow>
         (\<exists>k \<in> set (continuations (states ?h ! s)). callable k = ResetActivator (Some a)) \<or>
         (\<exists>v. CallThen s (ResetActivator (Some a)) v \<in># P))"
      by (simp add: nth_append)
  qed
  moreover have "targets_ok ?h P"
    using i t by (auto simp: targets_ok_def nth_append)
  moreover have "cmd_ok ?role ?h c" if "c \<in># P" for c
    using i that by (intro cmd_ok_make_state) auto
  ultimately show ?thesis by (auto simp: inv_def)
qed

text \<open>Storing a continuation, and calling it at once.\<close>

definition acquired :: "nat \<Rightarrow> ('v, 'e) callable \<Rightarrow> nat" where
  "acquired a c = (if c = ResetActivator (Some a) then 1 else 0)"

lemma holds_acquired: "holds a k = acquired a (callable k)"
  by (simp add: holds_def acquired_def)

lemma acquire_set_count:
  "acquire c h = (case c of ResetActivator (Some a) \<Rightarrow> set_count a (Suc (use_count (activators h ! a))) h | _ \<Rightarrow> h)"
  by (cases c rule: drop_callable.cases) (simp_all add: set_count_def)

lemma acquire_simps [simp]:
  "states (acquire c h) = states h"
  "length (activators (acquire c h)) = length (activators h)"
  "b < length (activators h) \<Longrightarrow>
     use_count (activators (acquire c h) ! b) = use_count (activators h ! b) + acquired b c"
  "inputs (activators (acquire c h) ! b) = inputs (activators h ! b)"
  "act_target (acquire c h) b = act_target h b"
  "act_ok role (acquire c h) b = act_ok role h b"
  "callable_ok role (acquire c h) s c' = callable_ok role h s c'"
  "cont_ok role (acquire c h) s k = cont_ok role h s k"
  "is_set (acquire c h) t = is_set h t"
  "may_set (acquire c h) r = may_set h r"
  "store_refs b (acquire c h) = store_refs b h"
  by (auto simp: acquire_set_count acquired_def split: callable.split option.split)

text \<open>A pointer is only copied from a pointer: \<open>WhenAll\<close> holds one while it calls \<open>Then\<close>.\<close>

definition may_acquire :: "('v, 'e) store \<Rightarrow> ('v, 'e) callable \<Rightarrow> bool" where
  "may_acquire h c \<longleftrightarrow>
     (\<forall>a. c = ResetActivator (Some a) \<longrightarrow> a < length (activators h) \<and> 0 < use_count (activators h ! a))"

lemma cmd_ok_acquire:
  assumes "cmd_ok role h c" "may_acquire h k"
  shows "cmd_ok role (acquire k h) c"
  using assms
  by (cases k rule: drop_callable.cases)
    (auto simp: acquire_set_count may_acquire_def intro!: cmd_ok_set_count)

text \<open>\<open>acquire\<close> keeps everything but the count of pointers.\<close>

lemma inv_acquire:
  assumes i: "inv role h P" and m: "may_acquire h c"
  shows "conts_ok role (acquire c h)" "acts_ok role (acquire c h)" "order_ok role (acquire c h)"
    "drained (acquire c h) P" "inputs_ok (acquire c h) P" "targets_ok (acquire c h) P"
    "\<And>d. d \<in># P \<Longrightarrow> cmd_ok role (acquire c h) d"
proof -
  note i = i[unfolded inv_def]
  show "conts_ok role (acquire c h)" using i by (simp add: conts_ok_def)
  show "acts_ok role (acquire c h)" using i by (simp add: acts_ok_def)
  show "order_ok role (acquire c h)" using i by (simp add: order_ok_def)
  show "drained (acquire c h) P" using i by (simp add: drained_def)
  show "inputs_ok (acquire c h) P" using i by (simp add: inputs_ok_def)
  have "use_count (activators h ! a) + acquired a c = 0 \<longleftrightarrow> use_count (activators h ! a) = 0"
    if "a < length (activators h)" for a
    using m by (auto simp: may_acquire_def acquired_def)
  then have "0 < use_count (activators h ! a) + acquired a c \<longleftrightarrow> 0 < use_count (activators h ! a)"
    "use_count (activators h ! a) + acquired a c = 0 \<longleftrightarrow> use_count (activators h ! a) = 0"
    if "a < length (activators h)" for a
    using that by (metis gr0I not_less0)+
  then show "targets_ok (acquire c h) P" using i by (simp only: targets_ok_def acquire_simps) simp
  show "cmd_ok role (acquire c h) d" if "d \<in># P" for d
    using i m that by (intro cmd_ok_acquire) auto
qed

lemma inv_call_temporary:
  assumes i: "inv role h P" and m: "may_acquire h (callable k)"
    and k: "cont_ok role h (copyOfThis k) k" "state (states h ! copyOfThis k) \<noteq> Undefined"
  shows "inv role (acquire (callable k) h) (add_mset (RunTemporary k) P)"
proof -
  let ?h = "acquire (callable k) h"
  note a = inv_acquire [OF i m]
  have "refs_ok ?h (add_mset (RunTemporary k) P)"
    using i by (auto simp: inv_def refs_ok_def holds_acquired)
  moreover have "inputs_ok ?h (add_mset (RunTemporary k) P)"
    using a(5) unfolding inputs_ok_def by (simp only: set_mset_add_mset_insert insert_iff) blast
  ultimately show ?thesis
    using a k by (auto simp: inv_def drained_def targets_ok_def)
qed

lemma inv_store_continuation:
  fixes h :: "('v, 'e) store"
  assumes i: "inv role h P" and m: "may_acquire h (callable k)" and s: "s < length (states h)"
    and k: "cont_ok role h s k" and u: "state (states h ! s) = Undefined"
  defines "f \<equiv> \<lambda>fs. fs\<lparr>continuations := continuations fs @ [k]\<rparr>"
  shows "inv role (upd_state s f (acquire (callable k) h)) P"
proof -
  let ?h = "acquire (callable k) h"
  note a = inv_acquire [OF i m]
  have "conts_ok role (upd_state s f ?h)"
    using a(1) k by (auto simp: conts_ok_def nth_update_if f_def split: if_splits)
  moreover have "acts_ok role (upd_state s f ?h)"
    using a(2) by (auto simp: acts_ok_def nth_update_if f_def)
  moreover have "refs_ok (upd_state s f ?h) P"
    using i s store_refs_upd [of s ?h _ f]
    by (auto simp: inv_def refs_ok_def f_def holds_acquired)
  moreover have "drained (upd_state s f ?h) P"
    using a(4) u by (auto simp: drained_def nth_update_if f_def split: if_splits)
  moreover have "inputs_ok (upd_state s f ?h) P"
    by (rule inputs_ok_change [OF a(5)]) (use u in \<open>auto simp: f_def\<close>)
  moreover have "targets_ok (upd_state s f ?h) P"
    by (rule targets_ok_change [OF a(6)]) (use s in \<open>auto simp: f_def\<close>)
  moreover have "cmd_ok role (upd_state s f ?h) d" if "d \<in># P" for d
    using a(7) [OF that] u by (intro cmd_ok_upd_state) (auto simp: is_set_def)
  moreover have "order_ok role (upd_state s f ?h)"
    by (rule order_ok_upd_state) (use a(3) s u in \<open>auto simp: order_ok_def is_set_def f_def\<close>)
  ultimately show ?thesis by (auto simp: inv_def)
qed

section \<open>Every command keeps the invariant\<close>

lemma not_target:
  assumes "inv role h P" "a < length (activators h)" "act_target h a = s"
  shows "role s = ByAll a"
  using assms by (auto simp: inv_def acts_ok_def act_ok_def)

lemma inv_SetException:
  assumes "inv role h P" "s < length (states h)" "may_set h (role s)" "\<And>a. role s \<noteq> ByAll a"
  shows "inv role (fst (SetException h s e)) (mset (snd (SetException h s e)) + P)"
  unfolding SetException_def fst_conv snd_conv
  by (rule inv_complete [OF assms(1,2)]) (use assms not_target in \<open>fastforce+\<close>)

lemma inv_SetValue:
  assumes "inv role h P" "s < length (states h)" "may_set h (role s)" "\<And>a. role s \<noteq> ByAll a"
    "SetValue h s v = Inr (h', new)"
  shows "inv role h' (mset new + P)"
proof -
  have "inv role (upd_state s (\<lambda>fs. fs\<lparr>stored := v, state := Ready\<rparr>) h) (mset (run_continuations h s) + P)"
    by (rule inv_complete [OF assms(1,2)]) (use assms not_target in \<open>fastforce+\<close>)
  then show ?thesis using assms(5) by (auto simp: SetValue_def split: if_splits)
qed

lemma inv_SetValue_void:
  assumes "inv role h P" "s < length (states h)"
    "\<And>a. a < length (activators h) \<Longrightarrow> role s = ByAll a \<Longrightarrow> use_count (activators h ! a) = 0"
    "may_set h (role s)"
  shows "inv role (fst (SetValue_void h s)) (mset (snd (SetValue_void h s)) + P)"
proof (cases "state (states h ! s) = Undefined")
  case True
  have "inv role (upd_state s (\<lambda>fs. fs\<lparr>state := Ready\<rparr>) h) (mset (run_continuations h s) + P)"
    by (rule inv_complete [OF assms(1,2)]) (use assms not_target in \<open>fastforce+\<close>)
  then show ?thesis using True by (simp add: SetValue_void_def)
qed (use assms(1) in \<open>simp add: SetValue_void_def\<close>)

lemma inv_resolve:
  assumes "inv role h P" "s < length (states h)" "role s = ByThen p" "is_set h p"
  shows "inv role (fst (resolve h s r)) (mset (snd (resolve h s r)) + P)"
proof -
  have x: "inv role (fst (SetException h s e)) (mset (snd (SetException h s e)) + P)" for e
    using assms by (intro inv_SetException) auto
  have y: "inv role (fst (SetValue_void h s)) (mset (snd (SetValue_void h s)) + P)"
    using assms by (intro inv_SetValue_void) auto
  show ?thesis
  proof (cases r)
    case (Inr v)
    show ?thesis
    proof (cases "SetValue h s v")
      case (Inr hc)
      obtain h' new where "hc = (h', new)" by (cases hc)
      with Inr have "inv role h' (mset new + P)" using assms by (intro inv_SetValue) auto
      then show ?thesis using Inr y \<open>r = Inr v\<close> \<open>hc = _\<close> by (simp add: resolve_def)
    qed (use x y Inr in \<open>simp add: resolve_def\<close>)
  qed (use x in \<open>simp add: resolve_def\<close>)
qed

lemma upd_state_same:
  "s < length (states h) \<Longrightarrow> f (states h ! s) = states h ! s \<Longrightarrow> upd_state s f h = h"
  by (simp add: upd_state_def)

lemma call_continuation_other:
  assumes "\<And>a. callable k \<noteq> ResetActivator (Some a)" "inv role h P" "cont_ok role h s k" "is_set h s"
  shows "inv role (fst (call_continuation h k)) (mset (snd (call_continuation h k)) + P)"
    "states (fst (call_continuation h k)) = states h"
proof -
  have r: "cmd_ok role h (Resolve (promise k) r)" for r using assms(3,4) by (simp add: cont_ok_def)
  show "inv role (fst (call_continuation h k)) (mset (snd (call_continuation h k)) + P)"
  proof (cases "callable k")
    case (UserCallable f)
    then show ?thesis using assms(2) r by (auto simp: call_continuation_def intro: inv_add)
  next
    case (ResetActivator x)
    then have "x = None" using assms(1) by (cases x) auto
    with ResetActivator show ?thesis
      using assms(2) r by (auto simp: call_continuation_def intro: inv_add)
  next
    case (SetShared w)
    then have "cmd_ok role h (VoidSetValue w)" using assms(3,4) by (auto simp: cont_ok_def)
    with SetShared show ?thesis
      using assms(2) r by (auto simp: call_continuation_def intro!: inv_add)
  qed
  show "states (fst (call_continuation h k)) = states h"
    by (simp add: call_continuation_def split: callable.split)
qed

lemma inv_run_continuation:
  assumes i: "inv role h (add_mset (RunContinuation s j) Q)"
  shows "inv role (fst (run_continuation h s j)) (mset (snd (run_continuation h s j)) + Q)"
proof -
  let ?ks = "continuations (states h ! s)" and ?P = "add_mset (RunContinuation s j) Q"
  have s: "s < length (states h)" "state (states h ! s) \<noteq> Undefined" using i by (auto simp: inv_def)
  show ?thesis
  proof (cases "j < length ?ks")
    case False
    then have "inv role h Q" using i by (intro inv_remove [OF i]) simp
    with False show ?thesis by (simp add: run_continuation_def)
  next
    case j: True
    let ?k = "?ks ! j"
    have k: "cont_ok role h s ?k" using i s(1) j by (auto simp: inv_def conts_ok_def)
    show ?thesis
    proof (cases "\<exists>a. callable ?k = ResetActivator (Some a)")
      case False
      then have c: "\<And>a. callable ?k \<noteq> ResetActivator (Some a)" by blast
      then have "inv role h Q" using i j by (intro inv_remove [OF i]) simp
      have "is_set h s" using s(2) by (simp add: is_set_def)
      note n = call_continuation_other [OF c \<open>inv role h Q\<close> k this]
      have "after_call (callable ?k) = callable ?k"
        using c by (cases "callable ?k" rule: drop_callable.cases) auto
      then have "fst (run_continuation h s j) = fst (call_continuation h ?k)"
        using j s(1) n(2)
        by (auto simp: run_continuation_def Let_def split_beta intro!: upd_state_same)
      moreover have "snd (run_continuation h s j) = snd (call_continuation h ?k)"
        using j by (simp add: run_continuation_def Let_def split_beta)
      ultimately show ?thesis using n(1) by simp
    next
      case True
      then obtain a where a: "callable ?k = ResetActivator (Some a)" by blast
      let ?h = "upd_state s (\<lambda>fs. fs\<lparr>continuations := ?ks[j := ?k\<lparr>callable := ResetActivator None\<rparr>]\<rparr>) h"
      have "inv role ?h (add_mset (RunContinuation s j) (add_mset (DropActivator a) Q))"
        using inv_reset [OF i s(1) j a s(2)] by (simp add: add_mset_commute)
      then have "inv role ?h (add_mset (DropActivator a) Q)"
        by (rule inv_remove) (use s j in simp)
      then have "inv role ?h (add_mset (DropActivator a) (add_mset (Resolve (promise ?k) (Inr None)) Q))"
        by (subst add_mset_commute, rule inv_add)
          (use k s j in \<open>auto simp: cont_ok_def is_set_def\<close>)
      then show ?thesis
        using a j by (simp add: run_continuation_def call_continuation_def Let_def)
    qed
  qed
qed

lemma inv_run_temporary:
  assumes i: "inv role h (add_mset (RunTemporary k) Q)"
  shows "inv role (fst (call_continuation h k)) (mset (snd (call_continuation h k)) + Q)"
proof (cases "\<exists>a. callable k = ResetActivator (Some a)")
  case False
  then have c: "\<And>a. callable k \<noteq> ResetActivator (Some a)" by blast
  then have "inv role h Q" by (intro inv_remove [OF i]) simp
  moreover have "cont_ok role h (copyOfThis k) k" "is_set h (copyOfThis k)"
    using i by (auto simp: inv_def is_set_def)
  ultimately show ?thesis using c by (intro call_continuation_other(1))
next
  case True
  then obtain a where a: "callable k = ResetActivator (Some a)" by blast
  have "cont_ok role h (copyOfThis k) k" "is_set h (copyOfThis k)"
    using i by (auto simp: inv_def is_set_def)
  then have "inv role h (add_mset (Resolve (promise k) (Inr None)) (add_mset (DropActivator a) Q))"
    by (intro inv_add [OF inv_run_reset [OF i a]]) (auto simp: cont_ok_def)
  then show ?thesis using a by (simp add: call_continuation_def add_mset_commute)
qed

lemma may_acquire_pending:
  assumes "inv role h P" "callable_ok role h s c" "\<And>a. c = ResetActivator (Some a) \<Longrightarrow> DropActivator a \<in># P"
  shows "may_acquire h c"
  unfolding may_acquire_def
proof (intro allI impI)
  fix a assume c: "c = ResetActivator (Some a)"
  then have a: "a < length (activators h)" using assms(2) by simp
  obtain Q where "P = add_mset (DropActivator a) Q"
    using assms(3) [OF c] by (metis insert_DiffM)
  then have "0 < use_count (activators h ! a)"
    using assms(1) a by (auto simp: inv_def refs_ok_def)
  with a show "a < length (activators h) \<and> 0 < use_count (activators h ! a)" by blast
qed

lemma inv_Then_call:
  assumes i: "inv role h (add_mset (CallThen s c v) Q)"
    and d: "\<And>a. c = ResetActivator (Some a) \<Longrightarrow> DropActivator a \<in># Q"
  shows "inv (role(length (states h) := ByThen s)) (fst (Then_call h s c v))
    (mset (snd (Then_call h s c v)) + Q)"
proof -
  let ?role = "role(length (states h) := ByThen s)" and ?h = "fst (make_state v h)"
  let ?k = "then_continuation c s (length (states h))"
  have s: "s < length (states h)" using i by (auto simp: inv_def)
  then have i1: "inv ?role ?h (add_mset (CallThen s c v) Q)" by (intro inv_make_state [OF i]) auto
  then have c: "callable_ok ?role ?h s c" by (auto simp: inv_def)
  have k: "cont_ok ?role ?h s ?k" using s c by (simp add: cont_ok_def then_continuation_def)
  have m: "may_acquire ?h (callable ?k)"
    using d by (intro may_acquire_pending [OF i1, of s]) (use c in \<open>auto simp: then_continuation_def\<close>)
  have kc: "callable ?k = c" "copyOfThis ?k = s" "promise ?k = length (states h)"
    by (simp_all add: then_continuation_def)
  have u: "state (states ?h ! s) = state (states h ! s)" using s by (simp add: nth_append)
  show ?thesis
  proof (cases "state (states h ! s) = Undefined")
    case True
    let ?f = "\<lambda>fs. fs\<lparr>continuations := continuations fs @ [?k]\<rparr>"
    have 1: "inv ?role (upd_state s ?f (acquire c ?h)) (add_mset (CallThen s c v) Q)"
      using inv_store_continuation [OF i1 m _ k] s True u kc by simp
    have "inv ?role (upd_state s ?f (acquire c ?h)) Q"
      by (rule inv_remove [OF 1]) (use s kc in \<open>cases c rule: drop_callable.cases; simp\<close>)
    then show ?thesis
      using True u kc by (simp add: Then_call_def split_beta FutureState_Then_def Let_def)
  next
    case False
    have "inv ?role (acquire c ?h) (add_mset (RunTemporary ?k) (add_mset (CallThen s c v) Q))"
      using inv_call_temporary [OF i1 m] k False u kc by simp
    then have 1: "inv ?role (acquire c ?h) (add_mset (CallThen s c v) (add_mset (RunTemporary ?k) Q))"
      by (simp add: add_mset_commute)
    have "inv ?role (acquire c ?h) (add_mset (RunTemporary ?k) Q)"
      by (rule inv_remove [OF 1]) (use False u in \<open>cases c rule: drop_callable.cases; simp\<close>)
    then have "inv ?role (acquire c ?h) (add_mset (DropPromise (length (states h))) (add_mset (RunTemporary ?k) Q))"
      by (rule inv_add) (use s False in \<open>simp_all add: is_set_def nth_append\<close>)
    then show ?thesis
      using False u kc by (simp add: Then_call_def split_beta FutureState_Then_def Let_def add_mset_commute)
  qed
qed

text \<open>The new state of a call of \<open>Then\<close> hangs on the state it was called on.\<close>

fun next_role :: "('v, 'e) store \<Rightarrow> (nat \<Rightarrow> role) \<Rightarrow> ('v, 'e) command \<Rightarrow> nat \<Rightarrow> role" where
  "next_role h role (CallThen s c v) = role(length (states h) := ByThen s)"
| "next_role h role _ = role"

lemma inv_step:
  assumes i: "inv role h (add_mset c Q)"
    and d: "\<And>s a v. c = CallThen s (ResetActivator (Some a)) v \<Longrightarrow> DropActivator a \<in># Q"
  shows "inv (next_role h role c) (fst (step h c)) (mset (snd (step h c)) + Q)"
proof (cases c)
  case (CallThen s k v)
  then show ?thesis using i d by (auto intro!: inv_Then_call)
next
  case (RunContinuation s j)
  then show ?thesis using i by (auto intro!: inv_run_continuation)
next
  case (RunTemporary k)
  then show ?thesis using i by (auto intro!: inv_run_temporary)
next
  case (Resolve p r)
  then obtain s where "p < length (states h)" "role p = ByThen s" "is_set h s"
    using i by (auto simp: inv_def)
  moreover have "inv role h Q" using Resolve by (intro inv_remove [OF i]) simp
  ultimately show ?thesis using Resolve by (auto intro!: inv_resolve)
next
  case (VoidSetValue s)
  have ok: "cmd_ok role h (VoidSetValue s)" using i VoidSetValue by (auto simp: inv_def)
  have z: "use_count (activators h ! a) = 0" if "role s = ByAll a" for a using ok that by auto
  have m: "may_set h (role s)" using ok by auto
  have "inv role (fst (SetValue_void h s)) (mset (snd (SetValue_void h s)) + add_mset c Q)"
    using i ok z m by (intro inv_SetValue_void) auto
  then have 1: "inv role (fst (SetValue_void h s)) (add_mset c (mset (snd (SetValue_void h s)) + Q))"
    by simp
  have "inv role (fst (SetValue_void h s)) (mset (snd (SetValue_void h s)) + Q)"
    by (rule inv_remove [OF 1]) (use ok in \<open>auto simp: VoidSetValue SetValue_void_def\<close>)
  then show ?thesis using VoidSetValue by auto
next
  case (DropPromise s)
  then have "s < length (states h)" "may_set h (role s)" "\<And>a. role s \<noteq> ByAll a"
    using i by (auto simp: inv_def)
  moreover have "inv role h Q" using DropPromise by (intro inv_remove [OF i]) simp
  ultimately have "inv role (fst (AboutToDestroyPromise h s)) (add_mset (ClearContinuations s) Q)"
    by (intro inv_break) auto
  then show ?thesis using DropPromise by (auto simp: AboutToDestroyPromise_def)
next
  case (ClearContinuations s)
  have ok: "s < length (states h)" "state (states h ! s) \<noteq> Undefined"
    using i ClearContinuations by (auto simp: inv_def)
  have 1: "inv role (fst (clear_continuations h s)) (add_mset c (mset (snd (clear_continuations h s)) + Q))"
    using inv_clear [OF i ok] by simp
  have "inv role (fst (clear_continuations h s)) (mset (snd (clear_continuations h s)) + Q)"
    by (rule inv_remove [OF 1]) (use ok in \<open>simp add: ClearContinuations clear_continuations_def\<close>)
  then show ?thesis using ClearContinuations by auto
next
  case (DropActivator a)
  then show ?thesis using i by (auto intro!: inv_drop_activator)
qed

end
