(* ===== verification/Future_Progress.thy ===== *)
theory Future_Progress
  imports Future_Steps
begin

text \<open>
  Progress of the futures: a chained future that is not set yet is waiting for the one it hangs
  on or has a command pending that sets it; and the commands run out, whatever thread runs
  which command next.
\<close>

section \<open>What a step changes\<close>

definition promises_of :: "('v, 'e) store \<Rightarrow> nat \<Rightarrow> nat list" where
  "promises_of h s = map promise (continuations (states h ! s))"

fun is_call :: "('v, 'e) command \<Rightarrow> bool" where
  "is_call (CallThen s c v) = True"
| "is_call _ = False"

lemma states_drop_activator [simp]: "states (fst (drop_activator h a)) = states h"
  by (simp add: drop_activator_def Let_def)

lemma states_call_continuation [simp]: "states (fst (call_continuation h k)) = states h"
  by (simp add: call_continuation_def split: callable.split)

lemma activators_call_continuation [simp]: "activators (fst (call_continuation h k)) = activators h"
  by (simp add: call_continuation_def split: callable.split)

lemma SetValue_cases:
  "SetValue h s v = (if is_set h s then Inl (FutureError EC_FutureAlreadySet)
     else Inr (upd_state s (\<lambda>fs. fs\<lparr>stored := v, state := Ready\<rparr>) h, run_continuations h s))"
  by (simp add: SetValue_def is_set_def)

lemma resolve_cases:
  obtains f where "resolve h s r = (upd_state s f h, run_continuations h s)"
    "\<And>fs. continuations (f fs) = continuations fs" "\<And>fs. state (f fs) \<noteq> Undefined"
  | "resolve h s r = (h, [])" "is_set h s"
proof (cases r)
  case (Inl e)
  show ?thesis
    by (rule that(1) [of "\<lambda>fs. fs\<lparr>error := Some e, state := Exception\<rparr>"])
      (simp_all add: Inl resolve_def SetException_def)
next
  case (Inr v)
  consider "is_void (states h ! s)" "is_set h s" | "is_void (states h ! s)" "\<not> is_set h s"
    | "\<not> is_void (states h ! s)" "is_set h s" | "\<not> is_void (states h ! s)" "\<not> is_set h s" by blast
  then show ?thesis
  proof cases
    case 1
    then show ?thesis using that(2) Inr by (simp add: resolve_def SetValue_void_def is_set_def)
  next
    case 2
    then show ?thesis
      using that(1) [of "\<lambda>fs. fs\<lparr>state := Ready\<rparr>"] Inr
      by (simp add: resolve_def SetValue_void_def is_set_def)
  next
    case 3
    then show ?thesis
      using that(1) [of "\<lambda>fs. fs\<lparr>error := Some (FutureError EC_FutureAlreadySet), state := Exception\<rparr>"] Inr
      by (simp add: resolve_def SetValue_cases SetException_def)
  next
    case 4
    then show ?thesis
      using that(1) [of "\<lambda>fs. fs\<lparr>stored := v, state := Ready\<rparr>"] Inr
      by (simp add: resolve_def SetValue_cases)
  qed
qed

lemma length_states_step:
  "\<not> is_call c \<Longrightarrow> length (states (fst (step h c))) = length (states h)"
proof (cases c)
  case (Resolve p r)
  then show ?thesis by (cases rule: resolve_cases [of h p r]) simp_all
qed (auto simp: run_continuation_def SetValue_void_def AboutToDestroyPromise_def
    clear_continuations_def Let_def split_beta)

lemma disposer_drop_activator:
  "disposer (activators (fst (drop_activator h b)) ! a) = disposer (activators h ! a)"
  by (simp add: drop_activator_def Let_def nth_update_keeps [where F = disposer])

lemma act_target_step:
  "\<not> is_call c \<Longrightarrow> act_target (fst (step h c)) a = act_target h a"
proof (cases c)
  case (Resolve p r)
  then show ?thesis by (cases rule: resolve_cases [of h p r]) simp_all
qed (auto simp: run_continuation_def SetValue_void_def AboutToDestroyPromise_def
    clear_continuations_def Let_def split_beta act_target_def disposer_drop_activator)

lemma promises_of_upd [simp]:
  assumes "\<And>fs. continuations (f fs) = continuations fs"
  shows "promises_of (upd_state s f h) t = promises_of h t"
  using assms unfolding promises_of_def
  by (simp add: nth_update_keeps [where F = continuations])

lemma promises_of_step:
  assumes "\<not> is_call c" "c \<noteq> ClearContinuations s"
  shows "promises_of (fst (step h c)) s = promises_of h s"
proof (cases c)
  case (Resolve p r)
  then show ?thesis by (cases rule: resolve_cases [of h p r]) simp_all
next
  case (RunContinuation t j)
  let ?ks = "continuations (states h ! t)"
  have "map promise (?ks[j := (?ks ! j)\<lparr>callable := x\<rparr>]) = map promise ?ks" for x
    by (rule nth_equalityI) (auto simp: nth_update_if)
  then show ?thesis
    using RunContinuation
    by (cases "t < length (states h)"; cases "s = t")
      (auto simp: run_continuation_def promises_of_def Let_def split_beta list_update_beyond not_less)
next
  case (ClearContinuations t)
  then show ?thesis using assms(2) by (simp add: clear_continuations_def promises_of_def)
qed (use assms in \<open>auto simp: SetValue_void_def AboutToDestroyPromise_def promises_of_def
    nth_update_keeps [where F = continuations]\<close>)

lemma state_set_continuations:
  "state (xs[t := (xs ! t)\<lparr>continuations := ks\<rparr>] ! s) = state (xs ! s)"
  by (rule nth_update_keeps) simp

lemma is_set_step:
  assumes "is_set h s" "\<not> is_call c"
  shows "is_set (fst (step h c)) s"
proof (cases c)
  case (Resolve p r)
  then show ?thesis
    using assms by (cases rule: resolve_cases [of h p r]) (auto intro: is_set_upd_state)
next
  case (RunContinuation t j)
  then show ?thesis using assms by (simp add: run_continuation_def Let_def split_beta is_set_def state_set_continuations)
next
  case (VoidSetValue t)
  then show ?thesis using assms(1) by (auto simp: SetValue_void_def intro: is_set_upd_state)
next
  case (DropPromise t)
  then show ?thesis using assms(1) by (auto simp: AboutToDestroyPromise_def intro: is_set_upd_state)
next
  case (ClearContinuations t)
  then show ?thesis
    using assms(1) by (simp add: clear_continuations_def is_set_def state_set_continuations)
qed (use assms in \<open>auto simp: is_set_def\<close>)

text \<open>When a state becomes set, the same step issues the commands for its continuations.\<close>

lemma newly_set:
  assumes "is_set (fst (step h c)) s" "\<not> is_set h s" "\<not> is_call c" "s < length (states h)"
  shows "(\<forall>j < length (promises_of h s). RunContinuation s j \<in> set (snd (step h c))) \<or>
    ClearContinuations s \<in> set (snd (step h c))"
proof (cases c)
  case (Resolve p r)
  then show ?thesis
    using assms
    by (cases rule: resolve_cases [of h p r])
      (auto simp: is_set_def run_continuations_def promises_of_def nth_update_if split: if_splits)
next
  case (RunContinuation t j)
  then have False
    using assms
    by (cases "j < length (continuations (states h ! t))")
      (auto simp: is_set_def run_continuation_def Let_def split_beta state_set_continuations)
  then show ?thesis ..
qed (use assms in \<open>auto simp: is_set_def SetValue_void_def AboutToDestroyPromise_def
    clear_continuations_def run_continuations_def promises_of_def nth_update_if split: if_splits\<close>)

lemma sets_its_state:
  assumes "c = Resolve t r \<or> c = DropPromise t" "t < length (states h)"
  shows "is_set (fst (step h c)) t"
  using assms(1)
proof
  assume "c = Resolve t r"
  then show ?thesis
    using assms(2) by (cases rule: resolve_cases [of h t r]) (auto simp: is_set_def)
next
  assume "c = DropPromise t"
  then show ?thesis using assms(2) by (auto simp: AboutToDestroyPromise_def is_set_def)
qed

section \<open>Chained futures\<close>

text \<open>
  The state \<open>t\<close> that a call of \<open>Then\<close> on \<open>s\<close> made is waiting: its continuation is stored in \<open>s\<close>,
  which is not set or whose continuations are about to run or to be destroyed; or the command
  that sets \<open>t\<close> is pending.
\<close>

definition waiting :: "('v, 'e) store \<Rightarrow> ('v, 'e) command multiset \<Rightarrow> nat \<Rightarrow> nat \<Rightarrow> bool" where
  "waiting h P s t \<longleftrightarrow>
     (\<exists>j < length (promises_of h s). promises_of h s ! j = t \<and>
        (\<not> is_set h s \<or> RunContinuation s j \<in># P \<or> ClearContinuations s \<in># P)) \<or>
     (\<exists>k. RunTemporary k \<in># P \<and> promise k = t) \<or> (\<exists>r. Resolve t r \<in># P) \<or> DropPromise t \<in># P"

definition children_ok :: "(nat \<Rightarrow> role) \<Rightarrow> ('v, 'e) store \<Rightarrow> ('v, 'e) command multiset \<Rightarrow> bool" where
  "children_ok role h P \<longleftrightarrow>
     (\<forall>t < length (states h). \<forall>s. role t = ByThen s \<longrightarrow> \<not> is_set h t \<longrightarrow> waiting h P s t)"

lemma waiting_mono:
  assumes "waiting h P s t" "\<And>c. c \<in># P \<Longrightarrow> c \<in># Q"
  shows "waiting h Q s t"
  using assms(1) unfolding waiting_def by (blast intro: assms(2))

lemma call_continuation_resolves:
  "\<exists>r. Resolve (promise k) r \<in> set (snd (call_continuation h k))"
  by (auto simp: call_continuation_def split: callable.split)

lemma clear_drops:
  assumes "j < length (promises_of h s)"
  shows "DropPromise (promises_of h s ! j) \<in> set (snd (clear_continuations h s))"
  using assms
  by (auto simp: clear_continuations_def promises_of_def destroy_continuation_def intro!: bexI)

lemma waiting_step:
  assumes w: "waiting h (add_mset c Q) s t" and c: "\<not> is_call c" and s: "s < length (states h)"
    and t: "t < length (states h)" and u: "\<not> is_set (fst (step h c)) t"
  shows "waiting (fst (step h c)) (mset (snd (step h c)) + Q) s t"
proof -
  let ?h = "fst (step h c)" and ?P = "mset (snd (step h c)) + Q"
  have other: "waiting ?h ?P s t" if "c \<noteq> d" "d \<in># add_mset c Q"
    "d = DropPromise t \<or> (\<exists>r. d = Resolve t r) \<or> (\<exists>k. d = RunTemporary k \<and> promise k = t)" for d
    using that by (auto simp: waiting_def)
  have stored: "waiting ?h ?P s t"
    if j: "j < length (promises_of h s)" "promises_of h s ! j = t"
      and d: "\<not> is_set h s \<or> RunContinuation s j \<in># add_mset c Q \<or> ClearContinuations s \<in># add_mset c Q" for j
  proof (cases "c = ClearContinuations s")
    case True
    then show ?thesis using clear_drops [OF j(1)] j(2) by (auto simp: waiting_def)
  next
    case n: False
    show ?thesis
    proof (cases "c = RunContinuation s j")
      case True
      have "promise (continuations (states h ! s) ! j) = t" "j < length (continuations (states h ! s))"
        using j by (auto simp: promises_of_def)
      then have "\<exists>r. Resolve t r \<in> set (snd (step h c))"
        using call_continuation_resolves [of "continuations (states h ! s) ! j" h] True
        by (auto simp: run_continuation_def Let_def split_beta)
      then show ?thesis by (auto simp: waiting_def)
    next
      case False
      have p: "promises_of ?h s = promises_of h s" using c n by (rule promises_of_step)
      have "\<not> is_set ?h s \<or> RunContinuation s j \<in># ?P \<or> ClearContinuations s \<in># ?P"
        using newly_set [OF _ _ c s] d j(1) False n by auto
      then show ?thesis unfolding waiting_def p using j by blast
    qed
  qed
  have "c \<noteq> DropPromise t" "c \<noteq> Resolve t r" for r using sets_its_state [of c t r h] t u by auto
  moreover have "\<exists>r. Resolve t r \<in> set (snd (step h c))" if "c = RunTemporary k" "promise k = t" for k
    using that call_continuation_resolves [of k h] by simp
  ultimately show ?thesis
    using w other stored unfolding waiting_def [of h]
    by (metis (no_types, lifting) UnI1 in_multiset_in_set union_iff waiting_def)
qed

lemma children_step:
  assumes i: "inv role h (add_mset c Q)" and k: "children_ok role h (add_mset c Q)" and c: "\<not> is_call c"
  shows "children_ok role (fst (step h c)) (mset (snd (step h c)) + Q)"
  unfolding children_ok_def
proof (intro allI impI)
  fix t s assume t: "t < length (states (fst (step h c)))" "role t = ByThen s" "\<not> is_set (fst (step h c)) t"
  have l: "t < length (states h)" using t(1) length_states_step [OF c] by metis
  then have "s < t" using i t(2) by (simp add: inv_def order_ok_def)
  moreover have "\<not> is_set h t" using t(3) is_set_step [OF _ c] by blast
  ultimately have "waiting h (add_mset c Q) s t" using k l t(2) by (simp add: children_ok_def)
  then show "waiting (fst (step h c)) (mset (snd (step h c)) + Q) s t"
    using c l t(3) \<open>s < t\<close> by (intro waiting_step) auto
qed

lemma waiting_make_state:
  assumes "waiting h P s t" "s < length (states h)"
  shows "waiting (fst (make_state v h)) P s t"
  using assms by (simp add: waiting_def promises_of_def nth_append)

lemma children_make_state:
  assumes "inv role h P" "children_ok role h P" "\<And>s. r \<noteq> ByThen s"
  shows "children_ok (role(length (states h) := r)) (fst (make_state v h)) P"
  unfolding children_ok_def
proof (intro allI impI)
  fix t s assume t: "t < length (states (fst (make_state v h)))"
    "(role(length (states h) := r)) t = ByThen s" "\<not> is_set (fst (make_state v h)) t"
  have l: "t < length (states h)" using t(1,2) assms(3) by (cases "t = length (states h)") auto
  then have "role t = ByThen s" "\<not> is_set h t" using t by (auto split: if_splits)
  moreover from this(1) l have "s < t" using assms(1) by (simp add: inv_def order_ok_def)
  ultimately show "waiting (fst (make_state v h)) P s t"
    using assms(2) l by (intro waiting_make_state) (auto simp: children_ok_def)
qed

lemma Then_call_undefined:
  assumes "s < length (states h)" "\<not> is_set h s"
  shows "Then_call h s c v =
    (upd_state s (\<lambda>fs. fs\<lparr>continuations := continuations fs @ [then_continuation c s (length (states h))]\<rparr>)
       (acquire c (fst (make_state v h))), [])"
  using assms
  by (simp add: Then_call_def split_beta FutureState_Then_def Let_def is_set_def then_continuation_def nth_append)

lemma Then_call_set:
  assumes "s < length (states h)" "is_set h s"
  shows "Then_call h s c v =
    (acquire c (fst (make_state v h)),
     [RunTemporary (then_continuation c s (length (states h))), DropPromise (length (states h))])"
  using assms
  by (simp add: Then_call_def split_beta FutureState_Then_def Let_def is_set_def then_continuation_def nth_append)

lemma children_Then_call:
  assumes i: "inv role h (add_mset (CallThen s c v) Q)"
    and k: "children_ok role h (add_mset (CallThen s c v) Q)"
  shows "children_ok (role(length (states h) := ByThen s)) (fst (Then_call h s c v))
    (mset (snd (Then_call h s c v)) + Q)"
  unfolding children_ok_def
proof (intro allI impI)
  let ?h = "fst (Then_call h s c v)" and ?P = "mset (snd (Then_call h s c v)) + Q"
  let ?n = "length (states h)"
  fix t p assume t: "t < length (states ?h)" "(role(?n := ByThen s)) t = ByThen p" "\<not> is_set ?h t"
  have s: "s < ?n" using i by (auto simp: inv_def)
  have set: "is_set ?h u = is_set h u" if "u < ?n" for u
    using that s
    by (cases "is_set h s")
      (auto simp: Then_call_set Then_call_undefined is_set_def nth_append nth_list_update)
  have len: "length (states ?h) = Suc ?n"
    using s by (cases "is_set h s") (simp_all add: Then_call_set Then_call_undefined)
  have prom: "promises_of ?h u = (if u = s \<and> \<not> is_set h s then promises_of h u @ [?n] else promises_of h u)"
    if "u < ?n" for u
    using that s
    by (cases "is_set h s")
      (auto simp: Then_call_set Then_call_undefined promises_of_def nth_append nth_list_update then_continuation_def)
  show "waiting ?h ?P p t"
  proof (cases "t = ?n")
    case True
    then have p: "p = s" using t(2) by simp
    show ?thesis
    proof (cases "is_set h s")
      case True
      then show ?thesis using s \<open>t = ?n\<close> by (auto simp: Then_call_set waiting_def)
    next
      case False
      then show ?thesis
        using s set \<open>t = ?n\<close> prom [of s] p
        by (auto simp: waiting_def intro!: exI [of _ "length (promises_of h s)"])
    qed
  next
    case False
    then have l: "t < ?n" "role t = ByThen p" "\<not> is_set h t" using t len set by auto
    then have p: "p < ?n" using i by (force simp: inv_def order_ok_def)
    have "waiting h (add_mset (CallThen s c v) Q) p t" using k l by (auto simp: children_ok_def)
    then show ?thesis
      unfolding waiting_def using set [OF p] prom [OF p]
      by (auto simp: nth_append)
  qed
qed

lemma children_next:
  assumes "inv role h (add_mset c Q)" "children_ok role h (add_mset c Q)"
  shows "children_ok (next_role h role c) (fst (step h c)) (mset (snd (step h c)) + Q)"
proof (cases "is_call c")
  case True
  then show ?thesis using assms by (cases c) (auto intro!: children_Then_call)
next
  case False
  then have "next_role h role c = role" by (cases c) auto
  then show ?thesis using children_step [OF assms False] by simp
qed

section \<open>The commands run out\<close>

text \<open>
  Commands issue commands for states that were made later. \<open>rank\<close> orders the commands by the
  distance of their state from the end of the store.
\<close>

fun rank :: "('v, 'e) store \<Rightarrow> ('v, 'e) command \<Rightarrow> nat" where
  "rank h (RunContinuation s j) = 4 * (length (states h) - s) + 1"
| "rank h (RunTemporary k) = 4 * (length (states h) - copyOfThis k) + 1"
| "rank h (Resolve t r) = 4 * (length (states h) - t) + 2"
| "rank h (VoidSetValue t) = 4 * (length (states h) - t) + 2"
| "rank h (DropPromise t) = 4 * (length (states h) - t) + 2"
| "rank h (ClearContinuations t) = 4 * (length (states h) - t) + 1"
| "rank h (DropActivator a) = 4 * (length (states h) - act_target h a) + 3"
| "rank h (CallThen s c v) = 0"

lemma rank_step:
  assumes "\<not> is_call c"
  shows "rank (fst (step h c)) d = rank h d"
  using length_states_step [OF assms, of h] act_target_step [OF assms, of h] by (cases d) simp_all

lemma rank_later:
  assumes "s < t" "t < (n :: nat)"
  shows "4 * (n - t) + 3 < 4 * (n - s) + 1"
  using assms by linarith

lemma rank_call_continuation:
  assumes k: "cont_ok role h s k" and d: "d \<in> set (snd (call_continuation h k))"
    and a: "acts_ok role h"
  shows "rank h d < 4 * (length (states h) - s) + 1 \<and> \<not> is_call d"
proof -
  have p: "s < promise k" "promise k < length (states h)" using k by (auto simp: cont_ok_def)
  show ?thesis
  proof (cases "callable k" rule: drop_callable.cases)
    case (1 b)
    then have "s < act_target h b" "act_target h b < length (states h)"
      using k a by (auto simp: cont_ok_def acts_ok_def act_ok_def)
    then show ?thesis using d 1 p rank_later [of s "act_target h b" "length (states h)"]
      by (auto simp: call_continuation_def)
  qed (use k d p in \<open>auto simp: call_continuation_def cont_ok_def\<close>)
qed

lemma rank_new:
  assumes i: "inv role h (add_mset c Q)" and c: "\<not> is_call c" and d: "d \<in> set (snd (step h c))"
  shows "rank h d < rank h c \<and> \<not> is_call d"
proof -
  have a: "acts_ok role h" and co: "conts_ok role h" and ok: "cmd_ok role h c"
    using i by (auto simp: inv_def)
  show ?thesis
  proof (cases c)
    case (RunContinuation s j)
    then have "j < length (continuations (states h ! s))"
      "d \<in> set (snd (call_continuation h (continuations (states h ! s) ! j)))"
      using d by (auto simp: run_continuation_def Let_def split_beta split: if_splits)
    moreover from this(1) have "cont_ok role h s (continuations (states h ! s) ! j)"
      using co ok RunContinuation by (auto simp: conts_ok_def)
    ultimately show ?thesis using rank_call_continuation a RunContinuation by fastforce
  next
    case (RunTemporary k)
    then show ?thesis using rank_call_continuation [of role h "copyOfThis k" k d] ok d a by simp
  next
    case (Resolve p r)
    then show ?thesis
      using d by (cases rule: resolve_cases [of h p r]) (auto simp: run_continuations_def)
  next
    case (ClearContinuations s)
    then obtain k where k: "k \<in> set (continuations (states h ! s))" "d \<in> set (destroy_continuation k)"
      using d by (auto simp: clear_continuations_def)
    then have "cont_ok role h s k" using co ok ClearContinuations by (auto simp: conts_ok_def)
    then have s: "s < promise k" "promise k < length (states h)" "callable_ok role h s (callable k)"
      by (auto simp: cont_ok_def)
    show ?thesis
    proof (cases "callable k" rule: drop_callable.cases)
      case (1 b)
      then have "s < act_target h b" "act_target h b < length (states h)"
        using s a by (auto simp: acts_ok_def act_ok_def)
      then show ?thesis using k 1 s ClearContinuations rank_later [of s "act_target h b" "length (states h)"]
        by (auto simp: destroy_continuation_def)
    qed (use k s ClearContinuations in \<open>auto simp: destroy_continuation_def\<close>)
  next
    case (DropActivator b)
    then have "func (disposer (activators h ! b)) = Some (act_target h b)"
      using a ok by (auto simp: acts_ok_def act_ok_def)
    then show ?thesis
      using d DropActivator
      by (auto simp: drop_activator_def Let_def Disposer_dtor_def split: if_splits)
  qed (use c d in \<open>auto simp: SetValue_void_def AboutToDestroyPromise_def run_continuations_def
        split: if_splits\<close>)
qed

text \<open>The number of calls of \<open>Then\<close> still to make, then the ranks of the pending commands.\<close>

definition weight :: "('v, 'e) store \<Rightarrow> ('v, 'e) command multiset \<Rightarrow> nat \<times> nat multiset" where
  "weight h P = (size (filter_mset is_call P), image_mset (rank h) (filter_mset (\<lambda>c. \<not> is_call c) P))"

definition weight_less :: "((nat \<times> nat multiset) \<times> (nat \<times> nat multiset)) set" where
  "weight_less = less_than <*lex*> mult less_than"

lemma wf_weight_less: "wf weight_less"
  by (simp add: weight_less_def wf_mult wf_lex_prod)

lemma weight_step:
  assumes i: "inv role h (add_mset c Q)"
  shows "(weight (fst (step h c)) (mset (snd (step h c)) + Q), weight h (add_mset c Q)) \<in> weight_less"
proof (cases "is_call c")
  case True
  then obtain s k v where c: "c = CallThen s k v" by (cases c) auto
  have "s < length (states h)" using i c by (auto simp: inv_def)
  then have "filter_mset is_call (mset (snd (step h c))) = {#}"
    using c by (cases "is_set h s") (auto simp: Then_call_set Then_call_undefined)
  then show ?thesis using True by (simp add: weight_def weight_less_def)
next
  case False
  have n: "rank h d < rank h c \<and> \<not> is_call d" if "d \<in># mset (snd (step h c))" for d
    using rank_new [OF i False] that by simp
  then have f: "filter_mset is_call (mset (snd (step h c))) = {#}"
    "filter_mset (\<lambda>c. \<not> is_call c) (mset (snd (step h c))) = mset (snd (step h c))"
    by (auto simp: filter_mset_eq_conv)
  have "(image_mset (rank h) (filter_mset (\<lambda>c. \<not> is_call c) Q) + image_mset (rank h) (mset (snd (step h c))),
      image_mset (rank h) (filter_mset (\<lambda>c. \<not> is_call c) Q) + {#rank h c#}) \<in> mult less_than"
    using n by (intro one_step_implies_mult) auto
  moreover have "rank (fst (step h c)) = rank h" using rank_step [OF False] by blast
  ultimately show ?thesis
    using False f by (simp add: weight_def weight_less_def add.commute)
qed

end
