(* ===== verification/Future_Api.thy ===== *)
theory Future_Api
  imports Future_Progress
begin

text \<open>
  The public classes of \<open>include/azul/async/Future.hpp\<close>. A \<open>Future\<close> or \<open>Promise\<close> object is the
  value of its \<open>_state\<close>: \<open>None\<close> for an object without a state, otherwise the shared state.
\<close>

type_synonym handle = "nat option"

section \<open>Future\<close>

definition Check :: "handle \<Rightarrow> 'e exn + nat" where
  "Check f =
     (case f of
        None \<Rightarrow> Inl (LogicError ''Calling operations on an uninitialized object.'')
      | Some s \<Rightarrow> Inr s)"

definition Future_Valid :: "handle \<Rightarrow> bool" where
  "Future_Valid f = (f \<noteq> None)"

definition Future_IsReady :: "('v, 'e) store \<Rightarrow> handle \<Rightarrow> 'e exn + bool" where
  "Future_IsReady h f = (case Check f of Inl e \<Rightarrow> Inl e | Inr s \<Rightarrow> Inr (IsReady h s))"

definition Future_Get :: "('v, 'e) store \<Rightarrow> handle \<Rightarrow> 'e exn + ('v, 'e) get_result" where
  "Future_Get h f = (case Check f of Inl e \<Rightarrow> Inl e | Inr s \<Rightarrow> Inr (Get h s))"

text \<open>\<open>Then\<close>: the calls it makes and the future it returns, which points to the state it makes.\<close>

definition Future_Then ::
  "('v, 'e) store \<Rightarrow> handle \<Rightarrow> ('v, 'e) callable \<Rightarrow> bool \<Rightarrow>
     'e exn + ('v, 'e) store \<times> ('v, 'e) command list \<times> handle"
where
  "Future_Then h f c void =
     (case Check f of
        Inl e \<Rightarrow> Inl e
      | Inr s \<Rightarrow> (let (h', cs) = Then_call h s c void in Inr (h', cs, Some (length (states h)))))"

text \<open>\<open>NumberOfContinuations\<close> of both classes reads through the pointer unchecked.\<close>

definition Handle_NumberOfContinuations :: "('v, 'e) store \<Rightarrow> handle \<Rightarrow> cpp_error + nat" where
  "Handle_NumberOfContinuations h f =
     (case f of None \<Rightarrow> Inl undefined_behaviour | Some s \<Rightarrow> Inr (NumberOfContinuations h s))"

section \<open>Promise\<close>

definition Promise_ctor :: "bool \<Rightarrow> ('v, 'e) store \<Rightarrow> ('v, 'e) store \<times> handle" where
  "Promise_ctor void h = (let (h', s) = make_state void h in (h', Some s))"

text \<open>The destructor: the call it makes; a promise without a state does nothing.\<close>

definition Promise_dtor :: "handle \<Rightarrow> ('v, 'e) command list" where
  "Promise_dtor p = (case p of None \<Rightarrow> [] | Some s \<Rightarrow> [DropPromise s])"

definition Promise_Valid :: "handle \<Rightarrow> bool" where
  "Promise_Valid p = (p \<noteq> None)"

text \<open>The two members \<open>SetValue\<close>; a promise of \<open>void\<close> only has the one without a value.\<close>

definition Promise_SetValue ::
  "('v, 'e) store \<Rightarrow> handle \<Rightarrow> 'v option \<Rightarrow> 'e exn + ('v, 'e) store \<times> ('v, 'e) command list"
where
  "Promise_SetValue h p v =
     (case Check p of
        Inl e \<Rightarrow> Inl e
      | Inr s \<Rightarrow> (if is_void (states h ! s) then Inr (SetValue_void h s) else SetValue h s v))"

definition Promise_SetException ::
  "('v, 'e) store \<Rightarrow> handle \<Rightarrow> 'e exn \<Rightarrow> 'e exn + ('v, 'e) store \<times> ('v, 'e) command list"
where
  "Promise_SetException h p e =
     (case Check p of Inl e' \<Rightarrow> Inl e' | Inr s \<Rightarrow> Inr (SetException h s e))"

definition Promise_GetFuture :: "handle \<Rightarrow> 'e exn + handle" where
  "Promise_GetFuture p = (case Check p of Inl e \<Rightarrow> Inl e | Inr s \<Rightarrow> Inr (Some s))"

text \<open>
  The defaulted move assignment moves the pointer: the state the target had is released without
  \<open>AboutToDestroyPromise\<close>. The objects are cells of a list, because source and target may be the
  same object; a moved \<open>std::shared_ptr\<close> is null, and moving it to itself keeps it.
\<close>

definition Promise_move_assign :: "handle list \<Rightarrow> nat \<Rightarrow> nat \<Rightarrow> handle list" where
  "Promise_move_assign ps i j = (if i = j then ps else ps[i := ps ! j, j := None])"

section \<open>WhenAll and WhenAny\<close>

text \<open>
  \<open>futures.Then(func), ...\<close>: the calls of \<open>Then\<close> up to the first future that has no state, which
  throws.
\<close>

definition fold_Then :: "handle list \<Rightarrow> ('v, 'e) callable \<Rightarrow> ('v, 'e) command list" where
  "fold_Then fs c = map (\<lambda>f. CallThen (the f) c True) (takeWhile Future_Valid fs)"

definition fold_result :: "handle list \<Rightarrow> handle \<Rightarrow> 'e exn + handle" where
  "fold_result fs r =
     (if list_all Future_Valid fs then Inr r
      else Inl (LogicError ''Calling operations on an uninitialized object.''))"

text \<open>
  \<open>WhenAll\<close>: a void state, a guard that sets it, shared by the local pointer and by the lambda;
  the calls of \<open>Then\<close>; and the release of the lambda and of the local pointer at the end of the
  function, also when a call of \<open>Then\<close> throws.
\<close>

definition WhenAll ::
  "('v, 'e) store \<Rightarrow> handle list \<Rightarrow>
     ('v, 'e) store \<times> ('v, 'e) command list \<times> ('e exn + handle)"
where
  "WhenAll h fs =
     (let (h1, w) = make_state True h;
          a = length (activators h1);
          h2 = h1\<lparr>activators := activators h1 @
                 [\<lparr>use_count = 2, disposer = Disposer_ctor (Some w),
                   inputs = map the (takeWhile Future_Valid fs)\<rparr>]\<rparr>
      in (h2, fold_Then fs (ResetActivator (Some a)) @ [DropActivator a, DropActivator a],
          fold_result fs (Some w)))"

definition WhenAny ::
  "('v, 'e) store \<Rightarrow> handle list \<Rightarrow>
     ('v, 'e) store \<times> ('v, 'e) command list \<times> ('e exn + handle)"
where
  "WhenAny h fs =
     (let (h1, w) = make_state True h in (h1, fold_Then fs (SetShared w), fold_result fs (Some w)))"

text \<open>The operators \<open>&&\<close> and \<open>||\<close> on two futures.\<close>

definition operator_and ::
  "('v, 'e) store \<Rightarrow> handle \<Rightarrow> handle \<Rightarrow> ('v, 'e) store \<times> ('v, 'e) command list \<times> ('e exn + handle)"
where
  "operator_and h f1 f2 = WhenAll h [f1, f2]"

definition operator_or ::
  "('v, 'e) store \<Rightarrow> handle \<Rightarrow> handle \<Rightarrow> ('v, 'e) store \<times> ('v, 'e) command list \<times> ('e exn + handle)"
where
  "operator_or h f1 f2 = WhenAny h [f1, f2]"

section \<open>The API keeps the invariant\<close>

text \<open>Nothing refers to an activator that does not exist yet.\<close>

lemma no_refs_beyond:
  assumes i: "inv role h P" and a: "length (activators h) \<le> a"
  shows "store_refs a h = 0" "cmd_refs a P = 0"
proof -
  show "store_refs a h = 0"
  proof (rule ccontr)
    assume "store_refs a h \<noteq> 0"
    then obtain s k where "s < length (states h)" "k \<in> set (continuations (states h ! s))"
      "callable k = ResetActivator (Some a)" using store_refs_pos [of a h] by blast
    moreover from this(1,2) have "cont_ok role h s k" using i by (auto simp: inv_def conts_ok_def)
    ultimately show False using a by (auto simp: cont_ok_def)
  qed
  have "cmd_holds a c = 0" if "c \<in># P" for c
  proof -
    have "cmd_ok role h c" using i that by (simp add: inv_def)
    then show ?thesis using a by (cases c) (auto simp: holds_def cont_ok_def)
  qed
  then show "cmd_refs a P = 0" by (auto simp: cmd_refs_def)
qed

definition add_activator :: "activator \<Rightarrow> ('v, 'e) store \<Rightarrow> ('v, 'e) store" where
  "add_activator x h = h\<lparr>activators := activators h @ [x]\<rparr>"

lemma act_target_add_activator:
  "a < length (activators h) \<Longrightarrow> act_target (add_activator x h) a = act_target h a"
  by (simp add: act_target_def add_activator_def nth_append)

lemma callable_ok_add_activator:
  assumes "callable_ok role h s c"
  shows "callable_ok role (add_activator x h) s c"
proof (cases c)
  case (ResetActivator y)
  then show ?thesis
    using assms act_target_add_activator [of _ h x]
    by (cases y) (auto simp: add_activator_def nth_append)
qed (use assms in \<open>auto simp: add_activator_def\<close>)

lemma cont_ok_add_activator: "cont_ok role h s k \<Longrightarrow> cont_ok role (add_activator x h) s k"
  by (auto simp: cont_ok_def callable_ok_add_activator) (simp_all add: add_activator_def)

lemma is_set_add_activator [simp]: "is_set (add_activator x h) s = is_set h s"
  by (simp add: is_set_def add_activator_def)

lemma may_set_add_activator [simp]: "may_set (add_activator x h) r = may_set h r"
  by (cases r) auto

lemma states_add_activator [simp]: "states (add_activator x h) = states h"
  by (simp add: add_activator_def)

lemma activators_add_activator [simp]: "activators (add_activator x h) = activators h @ [x]"
  by (simp add: add_activator_def)

lemma store_refs_add_activator [simp]: "store_refs a (add_activator x h) = store_refs a h"
  by (simp add: store_refs_def)

lemma cmd_ok_add_activator:
  assumes "cmd_ok role h c"
  shows "cmd_ok role (add_activator x h) c"
  using assms
proof (cases c)
  case (VoidSetValue w)
  then show ?thesis
    using assms by (auto simp: nth_append act_target_add_activator intro: less_SucI)
qed (auto simp: callable_ok_add_activator cont_ok_add_activator)

lemma cmd_refs_CallThen [simp]: "cmd_refs a (image_mset (\<lambda>s. CallThen s c v) M) = 0"
  by (induction M) auto

text \<open>The activator of \<open>WhenAll\<close>, the calls of \<open>Then\<close> with it and the two releases.\<close>

lemma inv_add_activator:
  fixes h :: "('v, 'e) store"
  defines "a \<equiv> \<lambda>h :: ('v, 'e) store. length (activators h)"
  assumes i: "inv role h P" and w: "w < length (states h)" "role w = ByAll (a h)" "\<not> is_set h w"
    and ss: "\<And>s. s \<in> set ss \<Longrightarrow> s < w"
  shows "inv role (add_activator \<lparr>use_count = 2, disposer = Disposer_ctor (Some w), inputs = ss\<rparr> h)
    (mset (map (\<lambda>s. CallThen s (ResetActivator (Some (a h))) True) ss @
           [DropActivator (a h), DropActivator (a h)]) + P)" (is "inv role ?h (mset ?cs + P)")
proof -
  note n = no_refs_beyond [OF i order_refl]
  note i = i[unfolded inv_def]
  have t: "act_target ?h (a h) = w"
    by (simp add: a_def act_target_def Disposer_ctor_def)
  have "conts_ok role ?h" using i by (auto simp: conts_ok_def intro: cont_ok_add_activator)
  moreover have "acts_ok role ?h"
    using i w t
    by (auto simp: acts_ok_def act_ok_def nth_append less_Suc_eq act_target_add_activator a_def Disposer_ctor_def)
  moreover have "order_ok role ?h" using i by (auto simp: order_ok_def)
  moreover have "refs_ok ?h (mset ?cs + P)"
    using i n by (auto simp: refs_ok_def nth_append less_Suc_eq a_def)
  moreover have "drained ?h (mset ?cs + P)" using i by (auto simp: drained_def)
  moreover have "inputs_ok ?h (mset ?cs + P)"
    unfolding inputs_ok_def
  proof (intro allI impI ballI)
    fix b s assume b: "b < length (activators ?h)" and s: "s \<in> set (inputs (activators ?h ! b))"
    show "s < length (states ?h) \<and>
        (state (states ?h ! s) = Undefined \<longrightarrow>
         (\<exists>k \<in> set (continuations (states ?h ! s)). callable k = ResetActivator (Some b)) \<or>
         (\<exists>v. CallThen s (ResetActivator (Some b)) v \<in># mset ?cs + P))"
    proof (cases "b = a h")
      case True
      then have "s \<in> set ss" using s by (simp add: a_def)
      moreover have "CallThen s (ResetActivator (Some b)) True \<in> set ?cs" using calculation True by simp
      then have "\<exists>v. CallThen s (ResetActivator (Some b)) v \<in># mset ?cs + P"
        by (metis in_multiset_in_set union_iff)
      moreover have "s < length (states ?h)" using ss [of s] w(1) \<open>s \<in> set ss\<close> by simp
      ultimately show ?thesis by blast
    next
      case False
      then have l: "b < length (activators h)" using b by (simp add: a_def)
      then have "s \<in> set (inputs (activators h ! b))" using s by (simp add: nth_append)
      with i l have "s < length (states h) \<and>
          (state (states h ! s) = Undefined \<longrightarrow>
           (\<exists>k \<in> set (continuations (states h ! s)). callable k = ResetActivator (Some b)) \<or>
           (\<exists>v. CallThen s (ResetActivator (Some b)) v \<in># P))" by (simp add: inputs_ok_def)
      then show ?thesis by (simp only: states_add_activator union_iff) blast
    qed
  qed
  moreover have "targets_ok ?h (mset ?cs + P)"
    unfolding targets_ok_def
  proof (intro allI impI)
    fix b assume b: "b < length (activators ?h)"
    show "(0 < use_count (activators ?h ! b) \<longrightarrow> state (states ?h ! act_target ?h b) = Undefined) \<and>
        (use_count (activators ?h ! b) = 0 \<longrightarrow> state (states ?h ! act_target ?h b) = Ready \<or>
          state (states ?h ! act_target ?h b) = Undefined \<and> VoidSetValue (act_target ?h b) \<in># mset ?cs + P)"
    proof (cases "b = a h")
      case True
      then show ?thesis using t w(3) by (simp add: a_def is_set_def)
    next
      case False
      then have "b < length (activators h)" using b by (simp add: a_def)
      then show ?thesis
        using i by (auto simp: targets_ok_def nth_append act_target_add_activator)
    qed
  qed
  moreover have "cmd_ok role ?h c" if "c \<in># P" for c
    using i that by (intro cmd_ok_add_activator) auto
  moreover have "cmd_ok role ?h c" if c: "c \<in> set ?cs" for c
  proof -
    consider s where "s \<in> set ss" "c = CallThen s (ResetActivator (Some (a h))) True"
      | "c = DropActivator (a h)" using c by auto
    then show ?thesis
    proof cases
      case 1
      then show ?thesis using ss [of s] w(1) t by (simp add: a_def)
    qed (simp add: a_def)
  qed
  ultimately show ?thesis by (auto simp: inv_def a_def)
qed

lemma fold_Then_map:
  "fold_Then fs c = map (\<lambda>s. CallThen s c True) (map the (takeWhile Future_Valid fs))"
  by (simp add: fold_Then_def)

lemma valid_inputs:
  assumes "s \<in> set (map the (takeWhile Future_Valid fs))"
  shows "Some s \<in> set fs"
  using assms by (auto simp: Future_Valid_def dest!: set_takeWhileD)

lemma inv_WhenAll:
  assumes "inv role h P" "\<And>s. Some s \<in> set fs \<Longrightarrow> s < length (states h)"
  shows "inv (role(length (states h) := ByAll (length (activators h)))) (fst (WhenAll h fs))
    (mset (fst (snd (WhenAll h fs))) + P)"
proof -
  let ?role = "role(length (states h) := ByAll (length (activators h)))" and ?h = "fst (make_state True h)"
  have "inv ?role ?h P" using assms(1) by (rule inv_make_state) simp_all
  then have "inv ?role (add_activator \<lparr>use_count = 2, disposer = Disposer_ctor (Some (length (states h))),
      inputs = map the (takeWhile Future_Valid fs)\<rparr> ?h)
    (mset (map (\<lambda>s. CallThen s (ResetActivator (Some (length (activators ?h)))) True)
        (map the (takeWhile Future_Valid fs)) @
        [DropActivator (length (activators ?h)), DropActivator (length (activators ?h))]) + P)"
  proof (rule inv_add_activator)
    show "s < length (states h)" if "s \<in> set (map the (takeWhile Future_Valid fs))" for s
      using that by (intro assms(2) valid_inputs)
  qed simp_all
  then show ?thesis by (simp add: WhenAll_def split_beta Let_def fold_Then_map add_activator_def)
qed

lemma inv_WhenAny:
  assumes "inv role h P" "\<And>s. Some s \<in> set fs \<Longrightarrow> s < length (states h)"
  defines "ss \<equiv> map the (takeWhile Future_Valid fs)"
  shows "inv (role(length (states h) := ByAny ss)) (fst (WhenAny h fs)) (mset (fst (snd (WhenAny h fs))) + P)"
proof -
  let ?role = "role(length (states h) := ByAny ss)" and ?h = "fst (make_state True h)"
  have ss: "s < length (states h)" if "s \<in> set ss" for s
    using that unfolding ss_def by (intro assms(2) valid_inputs)
  then have "inv ?role ?h P" by (intro inv_make_state [OF assms(1)]) auto
  then have "inv ?role ?h (mset (map (\<lambda>s. CallThen s (SetShared (length (states h))) True) ss) + P)"
    by (rule inv_add_all) (use ss in \<open>auto simp: less_Suc_eq\<close>)
  then show ?thesis by (simp add: WhenAny_def split_beta Let_def fold_Then_map ss_def)
qed

section \<open>Completing a state keeps the chained futures waiting\<close>

lemma children_complete:
  assumes i: "inv role h P" and k: "children_ok role h P" and s: "s < length (states h)"
    and conts: "\<And>fs. continuations (f fs) = continuations fs" and set: "\<And>fs. state (f fs) \<noteq> Undefined"
  shows "children_ok role (upd_state s f h) (mset (run_continuations h s) + P)"
  unfolding children_ok_def
proof (intro allI impI)
  let ?h = "upd_state s f h" and ?P = "mset (run_continuations h s) + P"
  fix t p assume t: "t < length (states ?h)" "role t = ByThen p" "\<not> is_set ?h t"
  then have l: "t < length (states h)" by simp
  moreover have "\<not> is_set h t" using t(3) is_set_upd_state [of h t s f] set by blast
  ultimately have w: "waiting h P p t" using k t(2) by (simp add: children_ok_def)
  have p: "p < length (states h)" using i l t(2) by (force simp: inv_def order_ok_def)
  have "is_set ?h p = (is_set h p \<or> p = s)"
    using p s set by (auto simp: is_set_def nth_list_update)
  moreover have "RunContinuation s j \<in># ?P" if "j < length (promises_of h s)" for j
    using that by (simp add: run_continuations_def promises_of_def)
  ultimately show "waiting ?h ?P p t" using w conts unfolding waiting_def by auto
qed

lemma children_subset:
  assumes "children_ok role h P" "\<And>c. c \<in># P \<Longrightarrow> c \<in># Q"
  shows "children_ok role h Q"
  using assms unfolding children_ok_def by (blast intro: waiting_mono)

lemma children_add_activator [simp]:
  "children_ok role (add_activator x h) P = children_ok role h P"
  by (simp add: children_ok_def waiting_def promises_of_def)

end
