(* ===== verification/Future_System.thy ===== *)
theory Future_System
  imports Future_Api
begin

text \<open>
  Programs over futures: several threads call the functions of \<open>Future.hpp\<close> on shared promise
  objects and futures. A call does its first critical section and leaves the rest of its work as
  commands in the agenda of its thread; the threads run their commands in any interleaving.
\<close>

section \<open>Threads\<close>

text \<open>\<open>maker\<close> is not read by the code: it records which call made each state.\<close>

record ('v, 'e) system =
  heap :: "('v, 'e) store"
  agendas :: "('v, 'e) command list list"
  promises :: "handle list"
  maker :: "nat \<Rightarrow> role"

datatype ('v, 'e) client_op =
    NewPromise bool
  | PromiseSetValue nat "'v option"
  | PromiseSetException nat "'e exn"
  | DestroyPromise nat
  | MovePromise nat nat
  | CallFutureThen handle "('v, 'e) get_result \<Rightarrow> 'e exn + 'v option" bool
  | CallWhenAll "handle list"
  | CallWhenAny "handle list"

text \<open>A program starts with some threads and nothing else.\<close>

definition start :: "nat \<Rightarrow> ('v, 'e) system" where
  "start n = \<lparr>heap = empty_store, agendas = replicate n [], promises = [], maker = (\<lambda>_. ByPromise)\<rparr>"

text \<open>
  A call: the system after its first critical section, the commands it leaves, and the exception
  it throws, if any.
\<close>

fun client_call ::
  "('v, 'e) system \<Rightarrow> ('v, 'e) client_op \<Rightarrow> ('v, 'e) system \<times> ('v, 'e) command list \<times> 'e exn option"
where
  "client_call g (NewPromise void) =
     (let (h, p) = Promise_ctor void (heap g)
      in (g\<lparr>heap := h, promises := promises g @ [p],
            maker := (maker g)(length (states (heap g)) := ByPromise)\<rparr>, [], None))"
| "client_call g (PromiseSetValue j v) =
     (case Promise_SetValue (heap g) (promises g ! j) v of
        Inl e \<Rightarrow> (g, [], Some e)
      | Inr (h, cs) \<Rightarrow> (g\<lparr>heap := h\<rparr>, cs, None))"
| "client_call g (PromiseSetException j e) =
     (case Promise_SetException (heap g) (promises g ! j) e of
        Inl e' \<Rightarrow> (g, [], Some e')
      | Inr (h, cs) \<Rightarrow> (g\<lparr>heap := h\<rparr>, cs, None))"
| "client_call g (DestroyPromise j) =
     (g\<lparr>promises := (promises g)[j := None]\<rparr>, Promise_dtor (promises g ! j), None)"
| "client_call g (MovePromise i j) =
     (g\<lparr>promises := Promise_move_assign (promises g) i j\<rparr>, [], None)"
| "client_call g (CallFutureThen f c void) =
     (case Check f of
        Inl e \<Rightarrow> (g, [], Some e)
      | Inr s \<Rightarrow> (g, [CallThen s (UserCallable c) void], None))"
| "client_call g (CallWhenAll fs) =
     (case WhenAll (heap g) fs of (h, cs, r) \<Rightarrow>
        (g\<lparr>heap := h, maker := (maker g)(length (states (heap g)) := ByAll (length (activators (heap g))))\<rparr>,
         cs, (case r of Inl e \<Rightarrow> Some e | Inr _ \<Rightarrow> None)))"
| "client_call g (CallWhenAny fs) =
     (case WhenAny (heap g) fs of (h, cs, r) \<Rightarrow>
        (g\<lparr>heap := h, maker := (maker g)(length (states (heap g)) :=
                          ByAny (map the (takeWhile Future_Valid fs)))\<rparr>,
         cs, (case r of Inl e \<Rightarrow> Some e | Inr _ \<Rightarrow> None)))"

text \<open>A program can only name objects and futures that exist.\<close>

definition known :: "('v, 'e) system \<Rightarrow> handle \<Rightarrow> bool" where
  "known g f = (case f of None \<Rightarrow> True | Some s \<Rightarrow> s < length (states (heap g)))"

fun op_ok :: "('v, 'e) system \<Rightarrow> ('v, 'e) client_op \<Rightarrow> bool" where
  "op_ok g (NewPromise void) = True"
| "op_ok g (PromiseSetValue j v) = (j < length (promises g))"
| "op_ok g (PromiseSetException j e) = (j < length (promises g))"
| "op_ok g (DestroyPromise j) = (j < length (promises g))"
| "op_ok g (MovePromise i j) = (i < length (promises g) \<and> j < length (promises g))"
| "op_ok g (CallFutureThen f c void) = known g f"
| "op_ok g (CallWhenAll fs) = list_all (known g) fs"
| "op_ok g (CallWhenAny fs) = list_all (known g) fs"

text \<open>
  One thread runs its next command, or starts a call. It can do so also with work left: in a callable or a
  destructor of the user that the library calls. The commands of such a nested call come before those of
  the call around it.
\<close>

inductive run_step :: "('v, 'e) system \<Rightarrow> ('v, 'e) system \<Rightarrow> bool" where
  run_stepI: "\<lbrakk>i < length (agendas g); agendas g ! i = c # cs; step (heap g) c = (h, new)\<rbrakk> \<Longrightarrow>
    run_step g (g\<lparr>heap := h, agendas := (agendas g)[i := new @ cs],
                  maker := next_role (heap g) (maker g) c\<rparr>)"

inductive client_step :: "('v, 'e) system \<Rightarrow> ('v, 'e) system \<Rightarrow> bool" where
  client_stepI: "\<lbrakk>i < length (agendas g); op_ok g x; client_call g x = (g', cs, e)\<rbrakk> \<Longrightarrow>
    client_step g (g'\<lparr>agendas := (agendas g)[i := cs @ agendas g ! i]\<rparr>)"

lemma client_step_idle:
  assumes "i < length (agendas g)" "agendas g ! i = []" "op_ok g x" "client_call g x = (g', cs, e)"
  shows "client_step g (g'\<lparr>agendas := (agendas g)[i := cs]\<rparr>)"
  using client_stepI [OF assms(1,3,4)] assms(2) by simp

inductive_cases run_stepE: "run_step g g'"
inductive_cases client_stepE: "client_step g g'"

definition sys_step :: "('v, 'e) system \<Rightarrow> ('v, 'e) system \<Rightarrow> bool" where
  "sys_step g g' \<longleftrightarrow> run_step g g' \<or> client_step g g'"

definition reachable :: "nat \<Rightarrow> ('v, 'e) system \<Rightarrow> bool" where
  "reachable n g \<longleftrightarrow> sys_step\<^sup>*\<^sup>* (start n) g"

definition quiescent :: "('v, 'e) system \<Rightarrow> bool" where
  "quiescent g \<longleftrightarrow> (\<forall>i < length (agendas g). agendas g ! i = [])"

section \<open>The invariant of the system\<close>

text \<open>
  In an agenda, every call of \<open>Then\<close> with a pointer to an activator is followed by the release of
  such a pointer: the local variable of \<open>WhenAll\<close>.
\<close>

fun guarded :: "('v, 'e) command \<Rightarrow> ('v, 'e) command list \<Rightarrow> bool" where
  "guarded (CallThen s (ResetActivator (Some a)) v) cs = (DropActivator a \<in> set cs)"
| "guarded _ cs = True"

fun agenda_ok :: "('v, 'e) command list \<Rightarrow> bool" where
  "agenda_ok [] = True"
| "agenda_ok (c # cs) = (guarded c cs \<and> agenda_ok cs)"

definition pending :: "('v, 'e) system \<Rightarrow> ('v, 'e) command multiset" where
  "pending g = mset (concat (agendas g))"

definition promises_ok :: "('v, 'e) system \<Rightarrow> bool" where
  "promises_ok g \<longleftrightarrow>
     (\<forall>s. Some s \<in> set (promises g) \<longrightarrow> s < length (states (heap g)) \<and> maker g s = ByPromise)"

definition sys_inv :: "('v, 'e) system \<Rightarrow> bool" where
  "sys_inv g \<longleftrightarrow>
     inv (maker g) (heap g) (pending g) \<and> children_ok (maker g) (heap g) (pending g) \<and>
     (\<forall>cs \<in> set (agendas g). agenda_ok cs) \<and> promises_ok g"

lemma pending_update:
  assumes "i < length xs"
  shows "mset (concat (xs[i := ys])) + mset (xs ! i) = mset (concat xs) + mset ys"
  using mset_concat_update [OF assms, of "\<lambda>x. x" ys] by simp

lemma pending_run:
  assumes "i < length xs" "xs ! i = c # cs"
  shows "mset (concat xs) = add_mset c (mset (concat (xs[i := cs])))"
    "mset (concat (xs[i := new @ cs])) = mset new + mset (concat (xs[i := cs]))"
proof -
  show P: "mset (concat xs) = add_mset c (mset (concat (xs[i := cs])))"
    using pending_update [OF assms(1), of cs] assms(2) by simp
  have "mset (concat (xs[i := new @ cs])) + add_mset c (mset cs) =
      (mset new + mset (concat (xs[i := cs]))) + add_mset c (mset cs)"
    using pending_update [OF assms(1), of "new @ cs"] assms(2) P by simp
  then show "mset (concat (xs[i := new @ cs])) = mset new + mset (concat (xs[i := cs]))"
    by (simp only: add_right_cancel)
qed

lemma pending_call:
  assumes "i < length xs"
  shows "mset (concat (xs[i := cs @ xs ! i])) = mset cs + mset (concat xs)"
  using pending_update [OF assms, of "cs @ xs ! i"] by (simp add: ac_simps)

lemma pending_idle:
  assumes "i < length xs" "xs ! i = []"
  shows "mset (concat (xs[i := cs])) = mset cs + mset (concat xs)"
  using pending_call [OF assms(1), of cs] assms(2) by simp

lemma guarded_simple: "\<not> is_call c \<Longrightarrow> guarded c cs"
  by (cases c) auto

lemma agenda_ok_append:
  "\<lbrakk>\<forall>c \<in> set new. \<not> is_call c; agenda_ok cs\<rbrakk> \<Longrightarrow> agenda_ok (new @ cs)"
  by (induction new) (auto simp: guarded_simple)

lemma guarded_more: "guarded c cs \<Longrightarrow> guarded c (cs @ ds)"
  by (cases "(c, cs)" rule: guarded.cases) auto

lemma agenda_ok_nested: "agenda_ok cs \<Longrightarrow> agenda_ok ds \<Longrightarrow> agenda_ok (cs @ ds)"
  by (induction cs) (auto intro: guarded_more)

lemma new_not_call:
  assumes "inv role h (add_mset c Q)" "d \<in> set (snd (step h c))"
  shows "\<not> is_call d"
proof (cases "is_call c")
  case True
  then obtain s k v where c: "c = CallThen s k v" by (cases c) auto
  have "s < length (states h)" using assms(1) c by (auto simp: inv_def)
  then show ?thesis
    using assms(2) c by (cases "is_set h s") (auto simp: Then_call_set Then_call_undefined)
qed (use assms rank_new in blast)

lemma length_states_mono: "length (states h) \<le> length (states (fst (step h c)))"
proof (cases "is_call c")
  case True
  then obtain s k v where c: "c = CallThen s k v" by (cases c) auto
  show ?thesis
    by (simp add: c Then_call_def split_beta FutureState_Then_def Let_def)
qed (simp add: length_states_step)

lemma guarded_pending:
  assumes "guarded (CallThen s (ResetActivator (Some a)) v) cs" "i < length xs"
  shows "DropActivator a \<in># mset (concat (xs[i := cs]))"
proof -
  have "cs \<in> set (xs[i := cs])" using assms(2) by (simp add: set_update_memI)
  then show ?thesis using assms(1) by (auto simp: intro!: bexI)
qed

lemma run_step_inv:
  assumes "run_step g g'" "sys_inv g"
  shows "sys_inv g'"
  using assms(1)
proof cases
  case (run_stepI i c cs h new)
  let ?Q = "mset (concat ((agendas g)[i := cs]))"
  have P: "pending g = add_mset c ?Q" "pending g' = mset new + ?Q"
    using pending_run [OF run_stepI(2,3)] run_stepI(1) by (simp_all add: pending_def)
  have hn: "h = fst (step (heap g) c)" "new = snd (step (heap g) c)" using run_stepI(4) by simp_all
  have i: "inv (maker g) (heap g) (add_mset c ?Q)" and k: "children_ok (maker g) (heap g) (add_mset c ?Q)"
    using assms(2) P by (simp_all add: sys_inv_def)
  have mem: "c # cs \<in> set (agendas g)" using run_stepI(2,3) by (metis nth_mem)
  then have ag: "guarded c cs" "agenda_ok cs" using assms(2) by (force simp: sys_inv_def)+
  have d: "DropActivator a \<in># ?Q" if "c = CallThen s (ResetActivator (Some a)) v" for s a v
    using ag(1) that guarded_pending [OF _ run_stepI(2), of s a v cs] by simp
  have "inv (maker g') (heap g') (pending g')"
    using inv_step [OF i d] run_stepI(1) P hn by simp
  moreover have "children_ok (maker g') (heap g') (pending g')"
    using children_next [OF i k] run_stepI(1) P hn by simp
  moreover have "agenda_ok (new @ cs)"
    using new_not_call [OF i] hn ag(2) by (intro agenda_ok_append) auto
  then have "\<forall>x \<in> set (agendas g'). agenda_ok x"
    using assms(2) run_stepI(1) by (auto simp: sys_inv_def dest!: set_update_subset_insert [THEN subsetD])
  moreover have "promises_ok g'"
  proof -
    have "next_role (heap g) (maker g) c s = maker g s" if "s < length (states (heap g))" for s
      using that by (cases c) auto
    moreover have "length (states (heap g)) \<le> length (states h)" using hn(1) length_states_mono by simp
    ultimately show ?thesis
      using assms(2) run_stepI(1) by (fastforce simp: sys_inv_def promises_ok_def)
  qed
  ultimately show ?thesis by (simp add: sys_inv_def)
qed

text \<open>What a call must establish, given the commands that are already pending.\<close>

definition call_ok :: "('v, 'e) system \<Rightarrow> ('v, 'e) command list \<Rightarrow> ('v, 'e) command multiset \<Rightarrow> bool" where
  "call_ok g cs P \<longleftrightarrow>
     inv (maker g) (heap g) (mset cs + P) \<and> children_ok (maker g) (heap g) (mset cs + P) \<and>
     agenda_ok cs \<and> promises_ok g"

lemma agenda_ok_simple: "\<forall>c \<in> set cs. \<not> is_call c \<Longrightarrow> agenda_ok cs"
  using agenda_ok_append [of cs "[]"] by simp

lemma agenda_ok_all:
  "agenda_ok (map (\<lambda>s. CallThen s (ResetActivator (Some a)) v) ss @ [DropActivator a, DropActivator a])"
  by (induction ss) auto

lemma agenda_ok_any: "agenda_ok (map (\<lambda>s. CallThen s (SetShared w) v) ss)"
  by (induction ss) auto

lemma promises_ok_grow:
  assumes "promises_ok g" "promises g' = promises g" "length (states (heap g)) \<le> length (states (heap g'))"
    "\<And>s. s < length (states (heap g)) \<Longrightarrow> maker g' s = maker g s"
  shows "promises_ok g'"
  using assms unfolding promises_ok_def by fastforce

lemma complete_ok:
  assumes g: "sys_inv g" and s: "Some s \<in> set (promises g)"
    and f: "\<And>fs. continuations (f fs) = continuations fs" "\<And>fs. state (f fs) \<noteq> Undefined"
      "\<And>fs. state (f fs) = Exception \<Longrightarrow> error (f fs) \<noteq> None"
  shows "call_ok (g\<lparr>heap := upd_state s f (heap g)\<rparr>) (run_continuations (heap g) s) (pending g)"
proof -
  let ?h = "heap g"
  have i: "inv (maker g) ?h (pending g)" and k: "children_ok (maker g) ?h (pending g)"
    and p: "promises_ok g" using g by (simp_all add: sys_inv_def)
  have s: "s < length (states ?h)" "maker g s = ByPromise" using p s by (auto simp: promises_ok_def)
  have "inv (maker g) (upd_state s f ?h) (mset (run_continuations ?h s) + pending g)"
    by (rule inv_complete [OF i s(1)]) (use f s(2) not_target [OF i] in \<open>fastforce+\<close>)
  moreover have "children_ok (maker g) (upd_state s f ?h) (mset (run_continuations ?h s) + pending g)"
    using f by (intro children_complete [OF i k s(1)])
  moreover have "agenda_ok (run_continuations ?h s)"
    by (rule agenda_ok_simple) (auto simp: run_continuations_def)
  moreover have "promises_ok (g\<lparr>heap := upd_state s f ?h\<rparr>)"
    using p by (auto simp: promises_ok_def)
  ultimately show ?thesis by (simp add: call_ok_def)
qed

lemma unchanged_ok: "sys_inv g \<Longrightarrow> call_ok g [] (pending g)"
  by (simp add: sys_inv_def call_ok_def)

lemma SetValue_ok:
  assumes g: "sys_inv g" and j: "j < length (promises g)"
    and r: "Promise_SetValue (heap g) (promises g ! j) v = Inr (h, cs)"
  shows "call_ok (g\<lparr>heap := h\<rparr>) cs (pending g)"
proof -
  obtain s where s: "promises g ! j = Some s" using r by (auto simp: Promise_SetValue_def Check_def split: option.splits)
  then have mem: "Some s \<in> set (promises g)" using j by (metis nth_mem)
  show ?thesis
  proof (cases "is_void (states (heap g) ! s)")
    case True
    then have e: "(h, cs) = SetValue_void (heap g) s" using r s by (simp add: Promise_SetValue_def Check_def)
    show ?thesis
    proof (cases "is_set (heap g) s")
      case True
      then show ?thesis using e unchanged_ok [OF g] by (simp add: SetValue_void_def is_set_def)
    next
      case False
      then show ?thesis using e complete_ok [OF g mem, of "\<lambda>fs. fs\<lparr>state := Ready\<rparr>"]
        by (simp add: SetValue_void_def is_set_def)
    qed
  next
    case False
    then have "SetValue (heap g) s v = Inr (h, cs)" using r s by (simp add: Promise_SetValue_def Check_def)
    then show ?thesis using complete_ok [OF g mem, of "\<lambda>fs. fs\<lparr>stored := v, state := Ready\<rparr>"]
      by (auto simp: SetValue_cases split: if_splits)
  qed
qed

lemma SetException_ok:
  assumes g: "sys_inv g" and j: "j < length (promises g)"
    and r: "Promise_SetException (heap g) (promises g ! j) e = Inr (h, cs)"
  shows "call_ok (g\<lparr>heap := h\<rparr>) cs (pending g)"
proof -
  obtain s where s: "promises g ! j = Some s"
    using r by (auto simp: Promise_SetException_def Check_def split: option.splits)
  then have mem: "Some s \<in> set (promises g)" using j by (metis nth_mem)
  show ?thesis
    using r s complete_ok [OF g mem, of "\<lambda>fs. fs\<lparr>error := Some e, state := Exception\<rparr>"]
    by (auto simp: Promise_SetException_def Check_def SetException_def)
qed

lemma NewPromise_ok:
  assumes g: "sys_inv g" and r: "client_call g (NewPromise void) = (g', cs, e)"
  shows "call_ok g' cs (pending g)"
proof -
  let ?role = "(maker g)(length (states (heap g)) := ByPromise)" and ?h = "fst (make_state void (heap g))"
  have g': "heap g' = ?h" "maker g' = ?role" "promises g' = promises g @ [Some (length (states (heap g)))]"
    "cs = []"
    using r by (auto simp: Promise_ctor_def split_beta Let_def)
  have i: "inv (maker g) (heap g) (pending g)" and k: "children_ok (maker g) (heap g) (pending g)"
    and p: "promises_ok g" using g by (simp_all add: sys_inv_def)
  have "inv ?role ?h (pending g)" by (rule inv_make_state [OF i]) simp_all
  moreover have "children_ok ?role ?h (pending g)" by (rule children_make_state [OF i k]) simp
  moreover have "promises_ok g'" using p by (force simp: promises_ok_def g')
  ultimately show ?thesis by (simp add: call_ok_def g')
qed

lemma When_ok:
  assumes g: "sys_inv g" and fs: "list_all (known g) fs"
  shows "client_call g (CallWhenAll fs) = (g', cs, e) \<Longrightarrow> call_ok g' cs (pending g)"
    and "client_call g (CallWhenAny fs) = (g', cs, e) \<Longrightarrow> call_ok g' cs (pending g)"
proof -
  let ?h = "fst (make_state True (heap g))" and ?w = "length (states (heap g))"
  let ?ss = "map the (takeWhile Future_Valid fs)"
  have i: "inv (maker g) (heap g) (pending g)" and k: "children_ok (maker g) (heap g) (pending g)"
    and p: "promises_ok g" using g by (simp_all add: sys_inv_def)
  have fs: "s < ?w" if "Some s \<in> set fs" for s using fs that by (auto simp: list_all_iff known_def)
  have grow: "promises_ok g'" if "promises g' = promises g" "states (heap g') = states ?h"
    "maker g' = (maker g)(?w := r)" for g' :: "('a, 'b) system" and r
    by (rule promises_ok_grow [OF p]) (use that in auto)
  { assume r: "client_call g (CallWhenAll fs) = (g', cs, e)"
    let ?r = "ByAll (length (activators (heap g)))"
    have g': "heap g' = fst (WhenAll (heap g) fs)" "cs = fst (snd (WhenAll (heap g) fs))"
      "maker g' = (maker g)(?w := ?r)" "promises g' = promises g"
      using r by (auto simp: split_beta)
    have 1: "inv (maker g') (heap g') (mset cs + pending g)"
      using inv_WhenAll [OF i fs] g' by simp
    obtain x where x: "heap g' = add_activator x ?h"
      by (auto simp: g' WhenAll_def split_beta Let_def add_activator_def)
    have "children_ok (maker g') (heap g') (pending g)"
      using children_make_state [OF i k, of ?r] by (simp add: x g')
    then have 2: "children_ok (maker g') (heap g') (mset cs + pending g)" by (rule children_subset) simp
    have 3: "agenda_ok cs"
      by (simp add: g' WhenAll_def split_beta Let_def fold_Then_map agenda_ok_all del: map_map)
    show "call_ok g' cs (pending g)"
      using 1 2 3 grow [of g'] x g' by (simp add: call_ok_def) }
  { assume r: "client_call g (CallWhenAny fs) = (g', cs, e)"
    have g': "heap g' = ?h" "cs = fst (snd (WhenAny (heap g) fs))"
      "maker g' = (maker g)(?w := ByAny ?ss)" "promises g' = promises g"
      using r by (auto simp: split_beta WhenAny_def Let_def)
    have "heap g' = fst (WhenAny (heap g) fs)" by (simp add: g' WhenAny_def split_beta Let_def)
    then have 1: "inv (maker g') (heap g') (mset cs + pending g)"
      using inv_WhenAny [OF i fs] g'(2,3) by simp
    have "children_ok (maker g') (heap g') (pending g)"
      using children_make_state [OF i k, of "ByAny ?ss"] by (simp add: g')
    then have 2: "children_ok (maker g') (heap g') (mset cs + pending g)" by (rule children_subset) simp
    have 3: "agenda_ok cs"
      by (simp add: g' WhenAny_def split_beta Let_def fold_Then_map agenda_ok_any del: map_map)
    show "call_ok g' cs (pending g)"
      using 1 2 3 grow [of g'] g' by (simp add: call_ok_def) }
qed

lemma client_call_ok:
  assumes g: "sys_inv g" and o: "op_ok g x" and r: "client_call g x = (g', cs, e)"
  shows "call_ok g' cs (pending g)"
proof -
  have i: "inv (maker g) (heap g) (pending g)" and k: "children_ok (maker g) (heap g) (pending g)"
    and p: "promises_ok g" using g by (simp_all add: sys_inv_def)
  show ?thesis
  proof (cases x)
    case (NewPromise void)
    then show ?thesis using r NewPromise_ok [OF g] by blast
  next
    case (PromiseSetValue j v)
    then show ?thesis
      using r o SetValue_ok [OF g, of j v] unchanged_ok [OF g] by (auto split: sum.splits)
  next
    case (PromiseSetException j v)
    then show ?thesis
      using r o SetException_ok [OF g, of j v] unchanged_ok [OF g] by (auto split: sum.splits)
  next
    case (DestroyPromise j)
    have "promises_ok (g\<lparr>promises := (promises g)[j := None]\<rparr>)"
      using p by (auto simp: promises_ok_def dest!: set_update_subset_insert [THEN subsetD])
    moreover have "inv (maker g) (heap g) (mset (Promise_dtor (promises g ! j)) + pending g)"
    proof (cases "promises g ! j")
      case (Some s)
      then have "s < length (states (heap g))" "maker g s = ByPromise"
        using p o DestroyPromise by (auto simp: promises_ok_def) (metis nth_mem)+
      then show ?thesis using i Some by (auto simp: Promise_dtor_def intro: inv_add)
    qed (simp add: i Promise_dtor_def)
    moreover have "children_ok (maker g) (heap g) (mset (Promise_dtor (promises g ! j)) + pending g)"
      using k by (rule children_subset) simp
    moreover have "agenda_ok (Promise_dtor (promises g ! j))"
      by (rule agenda_ok_simple) (auto simp: Promise_dtor_def split: option.splits)
    ultimately show ?thesis using r DestroyPromise by (auto simp: call_ok_def)
  next
    case (MovePromise a b)
    have "Some s \<in> set (promises g)" if "Some s \<in> set (Promise_move_assign (promises g) a b)" for s
      using that o MovePromise
      by (auto simp: Promise_move_assign_def split: if_splits
          dest!: set_update_subset_insert [THEN subsetD]) 
    then have "promises_ok (g\<lparr>promises := Promise_move_assign (promises g) a b\<rparr>)"
      using p by (auto simp: promises_ok_def)
    then show ?thesis using r MovePromise i k by (auto simp: call_ok_def)
  next
    case (CallFutureThen f c v)
    show ?thesis
    proof (cases f)
      case (Some s)
      have "inv (maker g) (heap g) (add_mset (CallThen s (UserCallable c) v) (pending g))"
        using i o CallFutureThen Some by (intro inv_add) (auto simp: known_def)
      moreover have "children_ok (maker g) (heap g) (add_mset (CallThen s (UserCallable c) v) (pending g))"
        using k by (rule children_subset) simp
      ultimately show ?thesis using r CallFutureThen Some p by (auto simp: call_ok_def Check_def)
    qed (use r CallFutureThen unchanged_ok [OF g] in \<open>simp add: Check_def\<close>)
  next
    case (CallWhenAll fs)
    then show ?thesis using When_ok(1) [OF g, of fs] r o by (simp del: client_call.simps)
  next
    case (CallWhenAny fs)
    then show ?thesis using When_ok(2) [OF g, of fs] r o by (simp del: client_call.simps)
  qed
qed

lemma client_call_agendas: "client_call g x = (g', cs, e) \<Longrightarrow> agendas g' = agendas g"
  by (cases x) (auto simp: split_beta Let_def split: sum.splits)

lemma client_step_inv:
  assumes "client_step g g'" "sys_inv g"
  shows "sys_inv g'"
  using assms(1)
proof cases
  case (client_stepI i x g1 cs e)
  have c: "call_ok g1 cs (pending g)" using client_call_ok [OF assms(2)] client_stepI by blast
  have "pending g' = mset cs + pending g"
    using pending_call client_stepI by (simp add: pending_def)
  moreover have "agenda_ok (cs @ agendas g ! i)"
    using c assms(2) nth_mem [OF client_stepI(2)] by (intro agenda_ok_nested) (auto simp: call_ok_def sys_inv_def)
  then have "\<forall>x \<in> set (agendas g'). agenda_ok x"
    using assms(2) client_stepI(1) by (auto simp: sys_inv_def dest!: set_update_subset_insert [THEN subsetD])
  ultimately show ?thesis
    using c client_stepI by (auto simp: sys_inv_def call_ok_def promises_ok_def)
qed

lemma start_inv: "sys_inv (start n)"
  by (simp add: sys_inv_def start_def pending_def empty_store_def inv_def inv_defs children_ok_def
      promises_ok_def)

lemma reachable_inv: "reachable n g \<Longrightarrow> sys_inv g"
  unfolding reachable_def
  by (induction rule: rtranclp_induct)
    (auto simp: start_inv sys_step_def intro: run_step_inv client_step_inv)

end
