(* ===== verification/Future_Theorems.thy ===== *)
theory Future_Theorems
  imports Future_System
begin

text \<open>
  The properties of futures and promises, for every program over them and every interleaving of
  its threads, and the behaviour of single calls.
\<close>

section \<open>The commands run out\<close>

lemma run_step_weight:
  assumes "run_step g g'" "sys_inv g"
  shows "(weight (heap g') (pending g'), weight (heap g) (pending g)) \<in> weight_less"
  using assms(1)
proof cases
  case (run_stepI i c cs h new)
  let ?Q = "mset (concat ((agendas g)[i := cs]))"
  have P: "pending g = add_mset c ?Q" "pending g' = mset new + ?Q"
    using pending_run [OF run_stepI(2,3)] run_stepI(1) by (simp_all add: pending_def)
  have "h = fst (step (heap g) c)" "new = snd (step (heap g) c)" using run_stepI(4) by simp_all
  moreover have "inv (maker g) (heap g) (add_mset c ?Q)" using assms(2) P by (simp add: sys_inv_def)
  ultimately show ?thesis using weight_step run_stepI(1) P by fastforce
qed

lemma not_quiescent_runs:
  assumes "\<not> quiescent g"
  shows "\<exists>g'. run_step g g'"
proof -
  obtain i where i: "i < length (agendas g)" "agendas g ! i \<noteq> []"
    using assms by (auto simp: quiescent_def)
  then obtain c cs where "agendas g ! i = c # cs" by (cases "agendas g ! i") auto
  then show ?thesis using run_stepI [OF i(1)] by (cases "step (heap g) c") blast
qed

lemma runs_to_quiescence:
  assumes "sys_inv g"
  shows "\<exists>g'. run_step\<^sup>*\<^sup>* g g' \<and> quiescent g' \<and> sys_inv g'"
  using assms
proof (induction "weight (heap g) (pending g)" arbitrary: g rule: wf_induct_rule [OF wf_weight_less])
  case 1
  show ?case
  proof (cases "quiescent g")
    case True
    then show ?thesis using 1(2) by blast
  next
    case False
    then obtain g1 where s: "run_step g g1" using not_quiescent_runs by blast
    then have "sys_inv g1" using run_step_inv 1(2) by blast
    then obtain g' where "run_step\<^sup>*\<^sup>* g1 g'" "quiescent g'" "sys_inv g'"
      using 1(1) run_step_weight [OF s 1(2)] by blast
    then show ?thesis using s by (meson converse_rtranclp_into_rtranclp)
  qed
qed

lemma exec_returns:
  assumes "inv role h (mset cs + Q)" "agenda_ok cs"
  shows "\<exists>h' role'. exec h cs = Some h' \<and> inv role' h' Q"
  using assms
proof (induction "weight h (mset cs + Q)" arbitrary: role h cs rule: wf_induct_rule [OF wf_weight_less])
  case 1
  show ?case
  proof (cases cs)
    case Nil
    then show ?thesis using 1(2) by auto
  next
    case (Cons c cs')
    let ?h = "fst (step h c)" and ?new = "snd (step h c)"
    have i: "inv role h (add_mset c (mset cs' + Q))" using 1(2) Cons by simp
    have d: "DropActivator a \<in># mset cs' + Q" if "c = CallThen s (ResetActivator (Some a)) v" for s a v
      using 1(3) Cons that by simp
    have "inv (next_role h role c) ?h (mset (?new @ cs') + Q)"
      using inv_step [OF i d] by (simp add: ac_simps)
    moreover have "agenda_ok (?new @ cs')"
      using 1(3) Cons new_not_call [OF i] by (intro agenda_ok_append) auto
    moreover have "(weight ?h (mset (?new @ cs') + Q), weight h (mset cs + Q)) \<in> weight_less"
      using weight_step [OF i] Cons by (simp add: ac_simps)
    ultimately obtain h' role' where "exec ?h (?new @ cs') = Some h'" "inv role' h' Q"
      using 1(1) by blast
    then show ?thesis using Cons by (auto simp: exec_Cons split_beta)
  qed
qed

section \<open>WhenAll\<close>

lemma agenda_guard:
  "\<lbrakk>CallThen s (ResetActivator (Some a)) v \<in> set cs; agenda_ok cs\<rbrakk> \<Longrightarrow> DropActivator a \<in> set cs"
  by (induction cs) auto

lemma use_count_0:
  assumes g: "sys_inv g" and a: "a < length (activators (heap g))"
    and z: "use_count (activators (heap g) ! a) = 0" and s: "s \<in> set (inputs (activators (heap g) ! a))"
  shows "is_set (heap g) s"
proof (rule ccontr)
  assume u: "\<not> is_set (heap g) s"
  have i: "inv (maker g) (heap g) (pending g)" using g by (simp add: sys_inv_def)
  have refs: "store_refs a (heap g) = 0" "cmd_refs a (pending g) = 0"
    using i a z by (auto simp: inv_def refs_ok_def)
  have "s < length (states (heap g))" using i a s by (auto simp: inv_def inputs_ok_def)
  moreover have "(\<exists>k \<in> set (continuations (states (heap g) ! s)). callable k = ResetActivator (Some a)) \<or>
      (\<exists>v. CallThen s (ResetActivator (Some a)) v \<in># pending g)"
    using i a s u by (auto simp: inv_def inputs_ok_def is_set_def)
  ultimately obtain v where "CallThen s (ResetActivator (Some a)) v \<in># pending g"
    using store_refs_member [of s "heap g" _ a] refs(1) by auto
  then obtain cs where cs: "cs \<in> set (agendas g)" "CallThen s (ResetActivator (Some a)) v \<in> set cs"
    by (auto simp: pending_def)
  moreover have "agenda_ok cs" using g cs(1) by (simp add: sys_inv_def)
  ultimately have "DropActivator a \<in> set cs" using agenda_guard by blast
  then have "DropActivator a \<in># pending g" using cs(1) by (auto simp: pending_def)
  then obtain P where "pending g = add_mset (DropActivator a) P" by (metis insert_DiffM)
  then show False using refs(2) by simp
qed

lemma drained_count:
  assumes g: "sys_inv g" and q: "pending g = {#}" and a: "a < length (activators (heap g))"
    and s: "\<forall>s \<in> set (inputs (activators (heap g) ! a)). is_set (heap g) s"
  shows "use_count (activators (heap g) ! a) = 0"
proof (rule ccontr)
  have i: "inv (maker g) (heap g) {#}" using g q by (simp add: sys_inv_def)
  assume "use_count (activators (heap g) ! a) \<noteq> 0"
  then have "0 < store_refs a (heap g)" using i a by (auto simp: inv_def refs_ok_def)
  then obtain s k where k: "s < length (states (heap g))" "k \<in> set (continuations (states (heap g) ! s))"
    "callable k = ResetActivator (Some a)" using store_refs_pos by blast
  then have "cont_ok (maker g) (heap g) s k" using i by (auto simp: inv_def conts_ok_def)
  then have "is_set (heap g) s" using k(3) s by (simp add: cont_ok_def)
  moreover obtain j where "j < length (continuations (states (heap g) ! s))"
    "continuations (states (heap g) ! s) ! j = k" using k(2) by (auto simp: in_set_conv_nth)
  ultimately show False using i k by (auto simp: inv_def drained_def is_set_def)
qed

lemma quiescent_pending: "quiescent g \<Longrightarrow> pending g = {#}"
  by (auto simp: quiescent_def pending_def in_set_conv_nth)

lemma WhenAll_when_quiescent:
  assumes "sys_inv g" "quiescent g" "a < length (activators (heap g))"
  shows "state (states (heap g) ! act_target (heap g) a) =
    (if \<forall>s \<in> set (inputs (activators (heap g) ! a)). is_set (heap g) s then Ready else Undefined)"
proof -
  have q: "pending g = {#}" using quiescent_pending [OF assms(2)] .
  have t: "targets_ok (heap g) {#}" using assms(1) q by (simp add: sys_inv_def inv_def)
  show ?thesis
  proof (cases "use_count (activators (heap g) ! a) = 0")
    case True
    then show ?thesis using t assms(3) use_count_0 [OF assms(1,3)] by (auto simp: targets_ok_def)
  next
    case False
    then show ?thesis using t assms(3) drained_count [OF assms(1) q assms(3)] by (auto simp: targets_ok_def)
  qed
qed

lemma WhenAll_ready:
  assumes "sys_inv g" "a < length (activators (heap g))" "is_set (heap g) (act_target (heap g) a)"
  shows "state (states (heap g) ! act_target (heap g) a) = Ready \<and>
    (\<forall>s \<in> set (inputs (activators (heap g) ! a)). is_set (heap g) s)"
proof -
  have t: "targets_ok (heap g) (pending g)" using assms(1) by (simp add: sys_inv_def inv_def)
  then have "use_count (activators (heap g) ! a) = 0"
    using assms(2,3) by (auto simp: targets_ok_def is_set_def)
  then show ?thesis
    using t assms use_count_0 [OF assms(1,2)] by (auto simp: targets_ok_def is_set_def)
qed

section \<open>Chained futures and WhenAny\<close>

lemma chained_iff:
  assumes "sys_inv g" "quiescent g" "t < length (states (heap g))" "maker g t = ByThen s"
  shows "is_set (heap g) t \<longleftrightarrow> is_set (heap g) s"
proof
  have i: "inv (maker g) (heap g) {#}" "children_ok (maker g) (heap g) {#}"
    using assms(1) quiescent_pending [OF assms(2)] by (simp_all add: sys_inv_def)
  assume "is_set (heap g) t"
  then have "may_set (heap g) (maker g t)" using i assms(3) by (simp add: inv_def order_ok_def)
  then show "is_set (heap g) s" using assms(4) by simp
next
  have k: "children_ok (maker g) (heap g) {#}"
    using assms(1) quiescent_pending [OF assms(2)] by (simp add: sys_inv_def)
  assume s: "is_set (heap g) s"
  show "is_set (heap g) t"
  proof (rule ccontr)
    assume "\<not> is_set (heap g) t"
    then have "waiting (heap g) {#} s t" using k assms(3,4) by (simp add: children_ok_def)
    then show False using s by (simp add: waiting_def)
  qed
qed

section \<open>A promise that is overwritten\<close>

text \<open>The state \<open>s\<close> of a promise that no promise object and no pending destructor refers to.\<close>

definition abandoned :: "('v, 'e) system \<Rightarrow> nat \<Rightarrow> bool" where
  "abandoned g s \<longleftrightarrow>
     s < length (states (heap g)) \<and> maker g s = ByPromise \<and> Some s \<notin> set (promises g) \<and>
     DropPromise s \<notin># pending g \<and> \<not> is_set (heap g) s"

lemma set_by:
  assumes "is_set (fst (step h c)) s" "\<not> is_set h s" "\<not> is_call c"
  shows "(\<exists>r. c = Resolve s r) \<or> c = VoidSetValue s \<or> c = DropPromise s"
proof (cases c)
  case (Resolve p r)
  then show ?thesis
    using assms by (cases rule: resolve_cases [of h p r]; cases "p = s") (auto simp: is_set_def)
next
  case (RunContinuation t j)
  then show ?thesis
    using assms
    by (cases "j < length (continuations (states h ! t))")
      (auto simp: is_set_def run_continuation_def Let_def split_beta state_set_continuations)
next
  case (VoidSetValue p)
  then show ?thesis
    using assms by (cases "p = s") (auto simp: is_set_def SetValue_void_def split: if_splits)
next
  case (DropPromise p)
  then show ?thesis
    using assms by (cases "p = s") (auto simp: is_set_def AboutToDestroyPromise_def split: if_splits)
next
  case (ClearContinuations p)
  then show ?thesis
    using assms by (auto simp: is_set_def clear_continuations_def state_set_continuations)
qed (use assms in \<open>auto simp: is_set_def\<close>)

lemma set_by_call:
  assumes "s < length (states h)" "p < length (states h)"
  shows "is_set (fst (Then_call h p c v)) s = is_set h s"
  using assms
  by (cases "is_set h p") (auto simp: Then_call_set Then_call_undefined is_set_def nth_append nth_list_update)

lemma drop_callable_no_promise [simp]: "DropPromise s \<notin> set (drop_callable c)"
  by (cases c rule: drop_callable.cases) auto

lemma new_DropPromise:
  assumes i: "inv role h (add_mset c Q)" and d: "DropPromise s \<in> set (snd (step h c))"
    and s: "s < length (states h)"
  shows "role s \<noteq> ByPromise"
proof (cases c)
  case (RunContinuation t j)
  then show ?thesis
    using d by (auto simp: run_continuation_def call_continuation_def Let_def split_beta
        split: if_splits callable.splits)
next
  case (RunTemporary k)
  then show ?thesis
    using d by (auto simp: call_continuation_def split: callable.splits)
next
  case (Resolve p r)
  then show ?thesis
    using d by (cases rule: resolve_cases [of h p r]) (auto simp: run_continuations_def)
next
  case (ClearContinuations p)
  then obtain k where k: "k \<in> set (continuations (states h ! p))" "DropPromise s \<in> set (destroy_continuation k)"
    using d by (auto simp: clear_continuations_def)
  have "p < length (states h)" using i ClearContinuations by (auto simp: inv_def)
  then have "cont_ok role h p k" using i k(1) by (auto simp: inv_def conts_ok_def)
  then show ?thesis
    using k(2) by (auto simp: cont_ok_def destroy_continuation_def)
next
  case (CallThen p k v)
  then have "p < length (states h)" using i by (auto simp: inv_def)
  then show ?thesis
    using d s CallThen by (cases "is_set h p") (auto simp: Then_call_set Then_call_undefined)
qed (use d in \<open>auto simp: SetValue_void_def AboutToDestroyPromise_def run_continuations_def
      drop_activator_def Let_def split: if_splits\<close>)

lemma run_step_abandoned:
  assumes "run_step g g'" "sys_inv g" "abandoned g s"
  shows "abandoned g' s"
  using assms(1)
proof cases
  case (run_stepI i c cs h new)
  let ?Q = "mset (concat ((agendas g)[i := cs]))"
  have P: "pending g = add_mset c ?Q" "pending g' = mset new + ?Q"
    using pending_run [OF run_stepI(2,3)] run_stepI(1) by (simp_all add: pending_def)
  have hn: "h = fst (step (heap g) c)" "new = snd (step (heap g) c)" using run_stepI(4) by simp_all
  have i: "inv (maker g) (heap g) (add_mset c ?Q)" using assms(2) P by (simp add: sys_inv_def)
  have s: "s < length (states (heap g))" "maker g s = ByPromise" "\<not> is_set (heap g) s"
    "DropPromise s \<notin># add_mset c ?Q" using assms(3) P by (auto simp: abandoned_def)
  have "DropPromise s \<notin> set new" using new_DropPromise [OF i _ s(1)] s(2) hn by auto
  moreover have "next_role (heap g) (maker g) c s = ByPromise" using s by (cases c) auto
  moreover have "\<not> is_set h s"
  proof (cases "is_call c")
    case True
    then obtain p k v where "c = CallThen p k v" by (cases c) auto
    then show ?thesis using i s hn set_by_call [of s "heap g" p k v] by (auto simp: inv_def)
  next
    case False
    have "cmd_ok (maker g) (heap g) c" using i by (auto simp: inv_def)
    then show ?thesis using set_by [of "heap g" c s] False s hn by auto
  qed
  moreover have "s < length (states h)" using s(1) hn length_states_mono [of "heap g" c] by simp
  ultimately show ?thesis
    using assms(3) run_stepI(1) P s by (auto simp: abandoned_def)
qed

lemma client_call_abandoned:
  assumes g: "sys_inv g" and a: "abandoned g s" and o: "op_ok g x" and r: "client_call g x = (g', cs, e)"
  shows "s < length (states (heap g')) \<and> maker g' s = ByPromise \<and> Some s \<notin> set (promises g') \<and>
    DropPromise s \<notin> set cs \<and> \<not> is_set (heap g') s"
proof -
  have s: "s < length (states (heap g))" "maker g s = ByPromise" "\<not> is_set (heap g) s"
    "Some s \<notin> set (promises g)" using a by (auto simp: abandoned_def)
  have other: "p \<noteq> s" if "j < length (promises g)" "promises g ! j = Some p" for j p
    using that s(4) by (metis nth_mem)
  show ?thesis
  proof (cases x)
    case (NewPromise void)
    then show ?thesis using r s by (auto simp: Promise_ctor_def split_beta Let_def)
  next
    case (PromiseSetValue j v)
    then show ?thesis
      using r s o other [of j]
      by (auto simp: Promise_SetValue_def Check_def SetValue_void_def SetValue_def run_continuations_def
          is_set_def split: sum.splits option.splits if_splits)
  next
    case (PromiseSetException j v)
    then show ?thesis
      using r s o other [of j]
      by (auto simp: Promise_SetException_def Check_def SetException_def run_continuations_def
          is_set_def split: sum.splits option.splits)
  next
    case (DestroyPromise j)
    then show ?thesis
      using r s o other [of j]
      by (auto simp: Promise_dtor_def split: option.splits dest!: set_update_subset_insert [THEN subsetD])
  next
    case (MovePromise i j)
    have "Some s \<notin> set (Promise_move_assign (promises g) i j)"
      using s(4) o MovePromise nth_mem [of j "promises g"]
      by (auto simp: Promise_move_assign_def split: if_splits
          dest!: set_update_subset_insert [THEN subsetD])
    then show ?thesis using r s MovePromise by auto
  next
    case (CallFutureThen f c v)
    then show ?thesis using r s by (auto split: sum.splits)
  next
    case (CallWhenAll fs)
    then show ?thesis using r s
      by (auto simp: WhenAll_def split_beta Let_def fold_Then_def is_set_def nth_append)
  next
    case (CallWhenAny fs)
    then show ?thesis using r s
      by (auto simp: WhenAny_def split_beta Let_def fold_Then_def is_set_def nth_append)
  qed
qed

lemma sys_step_abandoned:
  assumes "sys_step g g'" "sys_inv g" "abandoned g s"
  shows "abandoned g' s"
  using assms(1) unfolding sys_step_def
proof
  assume "client_step g g'"
  then show ?thesis
  proof cases
    case (client_stepI i x g1 cs e)
    have "pending g' = mset cs + pending g"
      using pending_call client_stepI by (simp add: pending_def)
    then show ?thesis
      using client_call_abandoned [OF assms(2,3) client_stepI(3,4)] client_stepI(1) assms(3)
      by (auto simp: abandoned_def)
  qed
qed (use assms run_step_abandoned in blast)

lemma abandoned_forever:
  assumes "sys_step\<^sup>*\<^sup>* g g'" "sys_inv g" "abandoned g s"
  shows "sys_inv g' \<and> abandoned g' s"
  using assms
proof (induction rule: rtranclp_induct)
  case (step g1 g2)
  then have "sys_inv g1" "abandoned g1 s" by blast+
  then show ?case
    using step(2) sys_step_abandoned run_step_inv client_step_inv unfolding sys_step_def by metis
qed simp

end
