(* ===== verification/Future_Calls.thy ===== *)
theory Future_Calls
  imports Future_Theorems
begin

text \<open>
  What single calls do, on every input: the delivery of a result to the continuations, the
  destruction of a promise, and \<open>WhenAny\<close>; and schedules, which make concrete runs of the system
  computable.
\<close>

section \<open>Delivering a result\<close>

text \<open>The effect of \<open>resolve\<close> on the state of the promise.\<close>

definition resolved :: "('v, 'e) future_state \<Rightarrow> 'e exn + 'v option \<Rightarrow> ('v, 'e) future_state" where
  "resolved fs x =
     (case x of
        Inl e \<Rightarrow> fs\<lparr>error := Some e, state := Exception\<rparr>
      | Inr v \<Rightarrow>
          if state fs = Undefined
          then (if is_void fs then fs\<lparr>state := Ready\<rparr> else fs\<lparr>stored := v, state := Ready\<rparr>)
          else (if is_void fs then fs
                else fs\<lparr>error := Some (FutureError EC_FutureAlreadySet), state := Exception\<rparr>))"

lemma resolve_resolved:
  assumes "continuations (states h ! t) = []"
  shows "resolve h t x = (upd_state t (\<lambda>fs. resolved fs x) h, [])"
  using assms
  by (auto simp: resolve_def resolved_def SetException_def SetValue_def SetValue_void_def
      run_continuations_def upd_state_def split: sum.split)

text \<open>
  The user's continuations \<open>ps\<close>, each with the state of its future, get the result \<open>r\<close> one after
  the other.
\<close>

type_synonym ('v, 'e) user_continuation = "(('v, 'e) get_result \<Rightarrow> 'e exn + 'v option) \<times> nat"

fun deliver ::
  "('v, 'e) store \<Rightarrow> ('v, 'e) get_result \<Rightarrow> ('v, 'e) user_continuation list \<Rightarrow> ('v, 'e) store"
where
  "deliver h r [] = h"
| "deliver h r ((f, t) # ps) =
     deliver (upd_state t (\<lambda>fs. resolved fs (f r)) (h\<lparr>invoked := invoked h @ [t]\<rparr>)) r ps"

lemma invoked_upd_state [simp]: "invoked (upd_state s f h) = invoked h"
  by (simp add: upd_state_def)

lemma invoked_deliver: "invoked (deliver h r ps) = invoked h @ map snd ps"
  by (induction h r ps rule: deliver.induct) auto

lemma deliver_other: "u \<notin> snd ` set ps \<Longrightarrow> states (deliver h r ps) ! u = states h ! u"
  by (induction h r ps rule: deliver.induct) auto

lemma length_deliver [simp]: "length (states (deliver h r ps)) = length (states h)"
  by (induction h r ps rule: deliver.induct) auto

lemma deliver_promise:
  assumes "(f, t) \<in> set ps" "distinct (map snd ps)" "t < length (states h)"
  shows "states (deliver h r ps) ! t = resolved (states h ! t) (f r)"
  using assms
proof (induction h r ps rule: deliver.induct)
  case (2 h r f' t' ps)
  show ?case
  proof (cases "t = t'")
    case True
    then have "f = f'" using 2(2,3) by force
    moreover have "t \<notin> snd ` set ps" using 2(3) True by auto
    ultimately show ?thesis using True 2(4) deliver_other [of t ps] by simp
  next
    case False
    then show ?thesis using 2 by auto
  qed
qed simp

text \<open>The continuations stored in the state \<open>s\<close> are those of the user, and their futures have none.\<close>

definition user_continuations ::
  "('v, 'e) store \<Rightarrow> nat \<Rightarrow> ('v, 'e) user_continuation list \<Rightarrow> bool"
where
  "user_continuations h s ps \<longleftrightarrow>
     s < length (states h) \<and>
     continuations (states h ! s) = map (\<lambda>(f, t). then_continuation (UserCallable f) s t) ps \<and>
     distinct (map snd ps) \<and>
     (\<forall>t \<in> snd ` set ps. t \<noteq> s \<and> t < length (states h) \<and> continuations (states h ! t) = [])"

lemma exec_run_user:
  assumes "s < length (states h)" "j < length (continuations (states h ! s))"
    "continuations (states h ! s) ! j = then_continuation (UserCallable f) s t"
    "continuations (states h ! t) = []"
  shows "exec h (RunContinuation s j # cs) =
    exec (upd_state t (\<lambda>fs. resolved fs (f (Get h s))) (h\<lparr>invoked := invoked h @ [t]\<rparr>)) cs"
proof -
  let ?k = "then_continuation (UserCallable f) s t"
  let ?ks = "continuations (states h ! s)"
  have c: "call_continuation h ?k = (h\<lparr>invoked := invoked h @ [t]\<rparr>, [Resolve t (f (Get h s))])"
    by (simp add: call_continuation_def then_continuation_def)
  have "?k\<lparr>callable := after_call (callable ?k)\<rparr> = ?k" by (simp add: then_continuation_def)
  then have ks: "?ks[j := ?k\<lparr>callable := after_call (callable ?k)\<rparr>] = ?ks"
    using assms(3) by (metis list_update_id)
  have "upd_state s (\<lambda>fs. fs\<lparr>continuations := ?ks\<rparr>) (h\<lparr>invoked := invoked h @ [t]\<rparr>) =
      h\<lparr>invoked := invoked h @ [t]\<rparr>"
    by (rule upd_state_same) (use assms(1) in simp_all)
  then have "run_continuation h s j = (h\<lparr>invoked := invoked h @ [t]\<rparr>, [Resolve t (f (Get h s))])"
    using assms(2,3) c ks by (simp add: run_continuation_def)
  then show ?thesis using assms(4) by (simp add: exec_Cons resolve_resolved)
qed

lemma continuations_resolved [simp]: "continuations (resolved fs x) = continuations fs"
  by (simp add: resolved_def split: sum.split)

lemma exec_deliver_from:
  assumes "user_continuations h0 s ps" "i \<le> length ps"
    "length (states h) = length (states h0)" "states h ! s = states h0 ! s"
    "\<And>u. continuations (states h ! u) = continuations (states h0 ! u)"
  shows "exec h (map (RunContinuation s) [i..<length ps] @ cs) = exec (deliver h (Get h0 s) (drop i ps)) cs"
  using assms(2-5)
proof (induction "length ps - i" arbitrary: h i)
  case (Suc n)
  then have i: "i < length ps" by simp
  obtain f t where ft: "ps ! i = (f, t)" by (cases "ps ! i")
  have mem: "(f, t) \<in> set ps" using ft i by (metis nth_mem)
  let ?h = "upd_state t (\<lambda>fs. resolved fs (f (Get h0 s))) (h\<lparr>invoked := invoked h @ [t]\<rparr>)"
  have c: "continuations (states h ! s) = map (\<lambda>(f, t). then_continuation (UserCallable f) s t) ps"
    using assms(1) Suc(6) by (simp add: user_continuations_def)
  have t: "t \<noteq> s" "continuations (states h ! t) = []"
    using assms(1) mem Suc(6) by (force simp: user_continuations_def)+
  have "Get h s = Get h0 s" using Suc(5) by (simp add: Get_def)
  moreover have "s < length (states h)" using assms(1) Suc(4) by (simp add: user_continuations_def)
  ultimately have "exec h (RunContinuation s i # map (RunContinuation s) [Suc i..<length ps] @ cs) =
      exec ?h (map (RunContinuation s) [Suc i..<length ps] @ cs)"
    using exec_run_user [of s h i f t] c t(2) i ft by simp
  also have "\<dots> = exec (deliver ?h (Get h0 s) (drop (Suc i) ps)) cs"
  proof (rule Suc(1))
    show "continuations (states ?h ! u) = continuations (states h0 ! u)" for u
      using Suc(6)
      by (simp add: nth_update_keeps [where F = continuations and u = "\<lambda>fs. resolved fs (f (Get h0 s))"])
  qed (use Suc(2,4,5) t(1) i in simp_all)
  finally show ?case
    using i ft by (simp add: upt_rec [of i] flip: Cons_nth_drop_Suc)
qed simp

lemma exec_deliver:
  assumes "user_continuations h s ps"
  shows "exec h (run_continuations h s @ cs) = exec (deliver h (Get h s) ps) cs"
proof -
  have "length (continuations (states h ! s)) = length ps" using assms by (simp add: user_continuations_def)
  then show ?thesis
    using exec_deliver_from [OF assms le0, of h cs] by (simp add: run_continuations_def)
qed

lemma user_continuations_upd:
  assumes "user_continuations h s ps" "\<And>fs. continuations (f fs) = continuations fs"
  shows "user_continuations (upd_state u f h) s ps"
  using assms by (simp add: user_continuations_def nth_update_keeps [where F = continuations])

section \<open>Breaking a promise\<close>

text \<open>Destroying the stored continuations of the user breaks the promises of their futures.\<close>

fun break_all :: "('v, 'e) store \<Rightarrow> nat list \<Rightarrow> ('v, 'e) store" where
  "break_all h [] = h"
| "break_all h (t # ts) =
     break_all (upd_state t (\<lambda>fs. fs\<lparr>state := if state fs = Undefined then BrokenPromise else state fs,
                                  continuations := []\<rparr>) h) ts"

text \<open>Callables that hold no activator: those of the user and of \<open>WhenAny\<close>.\<close>

definition plain :: "('v, 'e) callable \<Rightarrow> bool" where
  "plain c \<longleftrightarrow> drop_callable c = []"

lemma exec_drop_childless:
  assumes "continuations (states h ! t) = []"
  shows "exec h (DropPromise t # cs) = exec (break_all h [t]) cs"
proof (cases "t < length (states h)")
  case True
  then show ?thesis
    using assms
    by (cases "state (states h ! t) = Undefined")
      (auto simp: exec_Cons AboutToDestroyPromise_def clear_continuations_def upd_state_def)
next
  case False
  then show ?thesis
    using assms
    by (auto simp: exec_Cons AboutToDestroyPromise_def clear_continuations_def upd_state_def
        list_update_beyond)
qed

lemma break_all_other: "u \<notin> set ts \<Longrightarrow> states (break_all h ts) ! u = states h ! u"
  by (induction h ts rule: break_all.induct) auto

lemma break_all_length [simp]: "length (states (break_all h ts)) = length (states h)"
  by (induction h ts rule: break_all.induct) auto

lemma break_all_invoked [simp]: "invoked (break_all h ts) = invoked h"
  by (induction h ts rule: break_all.induct) auto

lemma break_all_childless:
  "continuations (states h ! u) = [] \<Longrightarrow> continuations (states (break_all h ts) ! u) = []"
proof (induction h ts rule: break_all.induct)
  case (2 h t ts)
  then show ?case
    by (cases "t < length (states h)"; cases "t = u") (auto simp: list_update_beyond not_less)
qed simp

lemma break_all_broken:
  assumes "t \<in> set ts" "distinct ts" "t < length (states h)" "state (states h ! t) = Undefined"
  shows "state (states (break_all h ts) ! t) = BrokenPromise"
  using assms
proof (induction h ts rule: break_all.induct)
  case (2 h u ts)
  then show ?case by (cases "t = u") (auto simp: break_all_other)
qed simp

lemma exec_drop_all:
  assumes "\<forall>t \<in> set ts. continuations (states h ! t) = []"
  shows "exec h (map DropPromise ts @ cs) = exec (break_all h ts) cs"
  using assms
proof (induction ts arbitrary: h)
  case (Cons t ts)
  have "\<forall>u \<in> set ts. continuations (states (break_all h [t]) ! u) = []"
    using Cons.prems break_all_childless [of h _ "[t]"] by auto
  then show ?case using Cons exec_drop_childless [of h t] by simp
qed simp

lemma exec_break:
  assumes "\<forall>k \<in> set (continuations (states h ! s)). plain (callable k) \<and> promise k \<noteq> s \<and>
      continuations (states h ! promise k) = []"
    and "s < length (states h)"
  shows "exec h (DropPromise s # cs) =
    exec (break_all h (s # map promise (continuations (states h ! s)))) cs"
proof -
  let ?ks = "continuations (states h ! s)"
  have d: "concat (map destroy_continuation ks) = map DropPromise (map promise ks)"
    if "\<forall>k \<in> set ks. plain (callable k)" for ks :: "('a, 'b) continuation list"
    using that by (induction ks) (auto simp: destroy_continuation_def plain_def)
  have "exec h (DropPromise s # cs) =
      exec (break_all h [s]) (concat (map destroy_continuation ?ks) @ cs)"
    using assms(2)
    by (cases "state (states h ! s) = Undefined")
      (auto simp: exec_Cons AboutToDestroyPromise_def clear_continuations_def upd_state_def)
  also have "\<dots> = exec (break_all h [s]) (map DropPromise (map promise ?ks) @ cs)"
    using assms(1) by (subst d) auto
  also have "\<dots> = exec (break_all (break_all h [s]) (map promise ?ks)) cs"
    by (rule exec_drop_all) (use assms(1) break_all_childless [of h _ "[s]"] in auto)
  finally show ?thesis by simp
qed

end
