(* ===== verification/Future_Properties.thy ===== *)
theory Future_Properties
  imports Future_Calls
begin

text \<open>
  The properties of futures and promises. Those on \<open>reachable\<close> systems hold for any number of
  threads, any calls and any interleaving; the others are about one call on any store.
\<close>

section \<open>Schedules\<close>

text \<open>A concrete run: calls and commands of chosen threads; a move that is not enabled is skipped.\<close>

datatype ('v, 'e) move = Call nat "('v, 'e) client_op" | Run nat

fun play_move :: "('v, 'e) system \<Rightarrow> ('v, 'e) move \<Rightarrow> ('v, 'e) system" where
  "play_move g (Run i) =
     (if i < length (agendas g)
      then (case agendas g ! i of
              [] \<Rightarrow> g
            | c # cs \<Rightarrow>
                (case step (heap g) c of (h, new) \<Rightarrow>
                   g\<lparr>heap := h, agendas := (agendas g)[i := new @ cs],
                     maker := next_role (heap g) (maker g) c\<rparr>))
      else g)"
| "play_move g (Call i x) =
     (if i < length (agendas g) \<and> op_ok g x
      then (case client_call g x of (g', cs, e) \<Rightarrow> g'\<lparr>agendas := (agendas g)[i := cs @ agendas g ! i]\<rparr>)
      else g)"

fun play :: "('v, 'e) system \<Rightarrow> ('v, 'e) move list \<Rightarrow> ('v, 'e) system" where
  "play g [] = g"
| "play g (m # ms) = play (play_move g m) ms"

lemma play_move_steps: "play_move g m = g \<or> sys_step g (play_move g m)"
proof (cases m)
  case (Run i)
  then show ?thesis
    using run_stepI [of i g] by (auto simp: sys_step_def split: list.split prod.split)
next
  case (Call i x)
  then show ?thesis
    using client_stepI [of i g x] by (auto simp: sys_step_def split: list.split prod.split)
qed

lemma play_steps: "sys_step\<^sup>*\<^sup>* g (play g ms)"
proof (induction g ms rule: play.induct)
  case (2 g m ms)
  then show ?case using play_move_steps [of g m] by (auto intro: converse_rtranclp_into_rtranclp)
qed simp

lemma play_reachable: "reachable n (play (start n) ms)"
  by (simp add: reachable_def play_steps)

lemma quiescent_code [code]:
  "quiescent g = list_all (\<lambda>cs. case cs of [] \<Rightarrow> True | _ \<Rightarrow> False) (agendas g)"
proof -
  have "(case cs of [] \<Rightarrow> True | _ \<Rightarrow> False) = (cs = [])" for cs :: "('a, 'b) command list"
    by (cases cs) auto
  then show ?thesis by (auto simp: quiescent_def list_all_length)
qed

section \<open>WhenAll\<close>

text \<open>
  C1. When no thread has work left, the future of every call of \<open>WhenAll\<close> is ready if and only if
  all futures it was called with are set (to a value, an exception or a broken promise); otherwise
  it is undefined. This holds for every interleaving.
\<close>

theorem WhenAll_ready_iff_all_set:
  assumes "reachable n g" "quiescent g" "a < length (activators (heap g))"
  shows "state (states (heap g) ! act_target (heap g) a) =
    (if \<forall>s \<in> set (inputs (activators (heap g) ! a)). is_set (heap g) s then Ready else Undefined)"
  using WhenAll_when_quiescent [OF reachable_inv [OF assms(1)] assms(2,3)] .

text \<open>Two threads; the first future gets a value, the promise of the second is destroyed.\<close>

definition two_threads :: "(nat, nat) system" where
  "two_threads = play (start 2)
     [Call 0 (NewPromise False), Call 0 (NewPromise False), Call 1 (CallWhenAll [Some 0, Some 1]),
      Run 1, Call 0 (PromiseSetValue 0 (Some 5)), Run 1, Run 0, Run 1, Run 0, Run 1, Run 0,
      Call 0 (DestroyPromise 1), Run 0, Run 0, Run 0, Run 0, Run 0, Run 0]"

lemma two_threads_reachable: "reachable 2 two_threads"
  unfolding two_threads_def by (rule play_reachable)

theorem WhenAll_ready_iff_all_set_witness:
  "act_target (heap two_threads) 0 = 2 \<and> state (states (heap two_threads) ! 2) = Ready"
proof -
  have q: "quiescent two_threads" by code_simp
  have a: "0 < length (activators (heap two_threads))" by code_simp
  have t: "act_target (heap two_threads) 0 = 2" by code_simp
  have "\<forall>s \<in> set (inputs (activators (heap two_threads) ! 0)). is_set (heap two_threads) s" by code_simp
  then show ?thesis
    using WhenAll_ready_iff_all_set [OF two_threads_reachable q a] t by simp
qed

text \<open>
  C25. At no moment of any run is the future of \<open>WhenAll\<close> set before all futures it was called
  with are; and it is only ever set to ready, never to an exception or a broken promise.
\<close>

theorem WhenAll_never_early:
  assumes "reachable n g" "a < length (activators (heap g))" "is_set (heap g) (act_target (heap g) a)"
  shows "state (states (heap g) ! act_target (heap g) a) = Ready \<and>
    (\<forall>s \<in> set (inputs (activators (heap g) ! a)). is_set (heap g) s)"
  using WhenAll_ready [OF reachable_inv [OF assms(1)] assms(2,3)] .

text \<open>The moment at which the future of \<open>WhenAll\<close> is set, with commands still pending.\<close>

definition just_ready :: "(nat, nat) system" where
  "just_ready = play (start 1)
     [Call 0 (NewPromise True), Call 0 (CallWhenAll [Some 0]), Run 0, Run 0, Run 0,
      Call 0 (PromiseSetValue 0 None), Run 0, Run 0, Run 0]"

lemma just_ready_reachable: "reachable 1 just_ready"
  unfolding just_ready_def by (rule play_reachable)

theorem WhenAll_never_early_witness:
  "\<not> quiescent just_ready \<and> state (states (heap just_ready) ! act_target (heap just_ready) 0) = Ready"
proof -
  have "0 < length (activators (heap just_ready))" by code_simp
  moreover have "is_set (heap just_ready) (act_target (heap just_ready) 0)" by code_simp
  moreover have "\<not> quiescent just_ready" by code_simp
  ultimately show ?thesis using WhenAll_never_early [OF just_ready_reachable] by blast
qed

section \<open>Chained futures\<close>

text \<open>
  C3. When no thread has work left, a future that \<open>Then\<close> returned is set if and only if the
  future it was called on is: no continuation is lost, whether it was stored before the result
  came or called when the result was there, and whether the promise was kept or broken.
\<close>

theorem Then_set_iff_antecedent_set:
  assumes "reachable n g" "quiescent g" "t < length (states (heap g))" "maker g t = ByThen s"
  shows "is_set (heap g) t \<longleftrightarrow> is_set (heap g) s"
  using chained_iff [OF reachable_inv [OF assms(1)] assms(2-4)] .

theorem Then_set_iff_antecedent_set_witness:
  "maker two_threads 4 = ByThen 1 \<and> is_set (heap two_threads) 4 = is_set (heap two_threads) 1"
proof -
  have q: "quiescent two_threads" by code_simp
  have l: "4 < length (states (heap two_threads))" by code_simp
  have m: "maker two_threads 4 = ByThen 1" by code_simp
  show ?thesis using Then_set_iff_antecedent_set [OF two_threads_reachable q l m] m by blast
qed

section \<open>WhenAny\<close>

text \<open>
  At no moment of any run is the future of \<open>WhenAny\<close> set unless one of the futures it was
  called with is.
\<close>

theorem WhenAny_never_early:
  assumes "reachable n g" "w < length (states (heap g))" "maker g w = ByAny ss" "is_set (heap g) w"
  shows "\<exists>s \<in> set ss. is_set (heap g) s"
proof -
  have "order_ok (maker g) (heap g)" using reachable_inv [OF assms(1)] by (simp add: sys_inv_def inv_def)
  then show ?thesis using assms(2-4) by (auto simp: order_ok_def)
qed

definition any_run :: "(nat, nat) system" where
  "any_run = play (start 1)
     [Call 0 (NewPromise False), Call 0 (NewPromise False), Call 0 (CallWhenAny [Some 0, Some 1]),
      Run 0, Run 0, Call 0 (PromiseSetValue 1 (Some 7)), Run 0, Run 0, Run 0]"

lemma any_run_reachable: "reachable 1 any_run"
  unfolding any_run_def by (rule play_reachable)

theorem WhenAny_never_early_witness:
  "is_set (heap any_run) 2 \<and> (\<exists>s \<in> set [0, 1]. is_set (heap any_run) s)"
proof -
  have l: "2 < length (states (heap any_run))" by code_simp
  have m: "maker any_run 2 = ByAny [0, 1]" by code_simp
  have s: "is_set (heap any_run) 2" by code_simp
  show ?thesis using WhenAny_never_early [OF any_run_reachable l m s] s by blast
qed

section \<open>Termination\<close>

text \<open>
  C18. The work that calls leave behind runs out: without new calls, no run of the threads goes on
  for ever, whatever thread runs next.
\<close>

theorem no_infinite_run:
  assumes "reachable n (f 0)"
  shows "\<exists>k. \<not> run_step (f k) (f (Suc k))"
proof (rule ccontr)
  assume "\<nexists>k. \<not> run_step (f k) (f (Suc k))"
  then have s: "run_step (f k) (f (Suc k))" for k by blast
  have i: "sys_inv (f k)" for k
    by (induction k) (use reachable_inv [OF assms] s run_step_inv in blast)+
  have "(weight (heap (f (Suc k))) (pending (f (Suc k))), weight (heap (f k)) (pending (f k))) \<in> weight_less" for k
    using run_step_weight [OF s i] .
  then show False
    using wf_no_infinite_down_chainE [OF wf_weight_less, of "\<lambda>k. weight (heap (f k)) (pending (f k))"]
    by blast
qed

theorem no_infinite_run_witness:
  "\<exists>k. \<not> run_step ((\<lambda>_. just_ready) k) ((\<lambda>_. just_ready) (Suc k))"
  using no_infinite_run [of 1 "\<lambda>_. just_ready"] just_ready_reachable by blast

text \<open>
  Every call returns: a thread that makes a call while no other thread has work left comes to
  the end of the work it leaves.
\<close>

theorem every_call_returns:
  assumes "reachable n g" "quiescent g" "op_ok g x" "client_call g x = (g', cs, e)"
  shows "\<exists>h'. exec (heap g') cs = Some h'"
proof -
  have "call_ok g' cs (pending g)" using client_call_ok [OF reachable_inv [OF assms(1)] assms(3,4)] .
  then show ?thesis using exec_returns by (force simp: call_ok_def)
qed

theorem every_call_returns_witness:
  "\<exists>h'. exec (heap any_run) [DropPromise 0] = Some h'"
proof -
  have q: "quiescent any_run" by code_simp
  have o: "op_ok any_run (DestroyPromise 0)" by code_simp
  have "promises any_run ! 0 = Some 0" by code_simp
  then have c: "Promise_dtor (promises any_run ! 0) = [DropPromise 0]" by (simp add: Promise_dtor_def)
  show ?thesis
    using every_call_returns [OF any_run_reachable q o, of
        "any_run\<lparr>promises := (promises any_run)[0 := None]\<rparr>" "[DropPromise 0]" None] c by simp
qed

section \<open>Single calls\<close>







text \<open>
  C38. \<open>SetException\<close> does not look whether the state is set. On a future that already has a
  result it replaces the result by the exception, calls every continuation of the user once more,
  and turns every chained value future whose callable now returns into an exception
  \<open>FutureAlreadySet\<close>.
\<close>

theorem SetException_overwrites:
  assumes "user_continuations h s ps" "is_set h s"
    "\<forall>(f, t) \<in> set ps. is_set h t \<and> \<not> is_void (states h ! t)"
  shows "\<exists>h1 cs h2. SetException h s ex = (h1, cs) \<and> exec h1 cs = Some h2 \<and>
    Get h2 s = Throws ex \<and> invoked h2 = invoked h @ map snd ps \<and>
    (\<forall>(f, t) \<in> set ps. Get h2 t =
       (case f (Throws ex) of Inl e \<Rightarrow> Throws e | Inr r \<Rightarrow> Throws (FutureError EC_FutureAlreadySet)))"
proof -
  let ?h1 = "upd_state s (\<lambda>fs. fs\<lparr>error := Some ex, state := Exception\<rparr>) h"
  let ?h2 = "deliver ?h1 (Throws ex) ps"
  have s: "s < length (states h)" "s \<notin> snd ` set ps" "distinct (map snd ps)"
    using assms(1) by (auto simp: user_continuations_def)
  have u: "user_continuations ?h1 s ps" using assms(1) by (rule user_continuations_upd) simp
  have g: "Get ?h1 s = Throws ex" using s(1) by (simp add: Get_def)
  have "run_continuations h s = run_continuations ?h1 s"
    using s(1) by (simp add: run_continuations_def)
  then have e: "exec ?h1 (run_continuations h s) = Some ?h2"
    using exec_deliver [OF u, of "[]"] g by simp
  have "Get ?h2 s = Throws ex" using deliver_other [OF s(2)] s(1) by (simp add: Get_def)
  moreover have "Get ?h2 t =
      (case f (Throws ex) of Inl e \<Rightarrow> Throws e | Inr r \<Rightarrow> Throws (FutureError EC_FutureAlreadySet))"
    if "(f, t) \<in> set ps" for f t
  proof -
    have t: "t < length (states h)" "t \<noteq> s"
      using assms(1) that by (force simp: user_continuations_def)+
    have "states ?h2 ! t = resolved (states h ! t) (f (Throws ex))"
      using deliver_promise [OF that s(3), of ?h1] t by simp
    moreover have "state (states h ! t) \<noteq> Undefined" "\<not> is_void (states h ! t)"
      using assms(3) that by (auto simp: is_set_def)
    ultimately show ?thesis by (auto simp: Get_def resolved_def split: sum.split)
  qed
  ultimately show ?thesis using e by (auto simp: SetException_def invoked_deliver)
qed

definition already_set :: "(nat, nat) store" where
  "already_set =
     \<lparr>states = [\<lparr>is_void = False, state = Ready, stored = Some 4, error = None,
                 continuations = [then_continuation (UserCallable (\<lambda>r. Inr (Some 1))) 0 1]\<rparr>,
                \<lparr>is_void = False, state = Ready, stored = Some 1, error = None, continuations = []\<rparr>],
      activators = [], invoked = [1]\<rparr>"

theorem SetException_overwrites_witness:
  "\<exists>h1 cs h2. SetException already_set 0 (UserException 3) = (h1, cs) \<and> exec h1 cs = Some h2 \<and>
     Get h2 0 = Throws (UserException 3) \<and> invoked h2 = [1, 1] \<and>
     Get h2 1 = Throws (FutureError EC_FutureAlreadySet)"
  using SetException_overwrites [of already_set 0 "[(\<lambda>r. Inr (Some 1), 1)]" "UserException 3"]
  by (simp add: already_set_def user_continuations_def is_set_def)



text \<open>
  Moving a promise into another promise object that was not kept releases its state without
  breaking it: in every continuation of the program, the future of the overwritten promise is
  never set, so a \<open>Get\<close> on it blocks for ever.
\<close>

theorem move_assignment_abandons_promise:
  assumes "reachable n g" "op_ok g (MovePromise i j)" "i \<noteq> j"
    "promises g ! i = Some s" "\<not> is_set (heap g) s"
    "\<forall>k < length (promises g). promises g ! k = Some s \<longrightarrow> k = i" "DropPromise s \<notin># pending g"
    "client_call g (MovePromise i j) = (g1, cs, e)" "sys_step\<^sup>*\<^sup>* g1 g2"
  shows "Get (heap g2) s = Blocks"
proof -
  have g1: "g1 = g\<lparr>promises := (promises g)[i := promises g ! j, j := None]\<rparr>"
    using assms(3,8) by (simp add: Promise_move_assign_def)
  have inv: "sys_inv g" using reachable_inv [OF assms(1)] .
  have l: "i < length (promises g)" "j < length (promises g)" using assms(2) by simp_all
  then have "Some s \<in> set (promises g)" using assms(4) by (metis nth_mem)
  then have s: "s < length (states (heap g))" "maker g s = ByPromise"
    using inv by (auto simp: sys_inv_def promises_ok_def)
  have "call_ok g1 cs (pending g)" using client_call_ok [OF inv assms(2,8)] .
  moreover have "cs = []" using assms(8) by simp
  ultimately have "sys_inv g1" using inv by (simp add: call_ok_def sys_inv_def g1 pending_def promises_ok_def)
  moreover have "Some s \<notin> set ((promises g)[i := promises g ! j, j := None])"
    using assms(3,6) l by (auto simp: in_set_conv_nth nth_list_update split: if_splits)
  then have "abandoned g1 s" using s assms(5,7) by (simp add: abandoned_def g1 pending_def)
  ultimately have "abandoned g2 s" using abandoned_forever [OF assms(9)] by blast
  then show ?thesis by (simp add: abandoned_def is_set_def Get_def)
qed

definition two_promises :: "(nat, nat) system" where
  "two_promises = play (start 1) [Call 0 (NewPromise False), Call 0 (NewPromise False)]"

lemma two_promises_reachable: "reachable 1 two_promises"
  unfolding two_promises_def by (rule play_reachable)

theorem move_assignment_abandons_promise_witness:
  "Get (heap (play (fst (client_call two_promises (MovePromise 0 1)))
      [Call 0 (PromiseSetValue 0 (Some 8)), Call 0 (DestroyPromise 0), Run 0, Run 0])) 0 = Blocks"
proof -
  have o: "op_ok two_promises (MovePromise 0 1)" by code_simp
  have p: "promises two_promises = [Some 0, Some 1]" by code_simp
  have u: "\<not> is_set (heap two_promises) 0" by code_simp
  have "agendas two_promises = [[]]"
    by (simp add: two_promises_def start_def Promise_ctor_def make_state_def empty_store_def)
  then have d: "DropPromise 0 \<notin># pending two_promises" by (simp add: pending_def)
  have k: "\<forall>k < length (promises two_promises). promises two_promises ! k = Some 0 \<longrightarrow> k = 0"
    by (auto simp: p less_Suc_eq)
  show ?thesis
    by (rule move_assignment_abandons_promise [OF two_promises_reachable o _ _ u k d _ play_steps])
      (simp_all add: p)
qed

section \<open>WhenAny and broken promises\<close>

text \<open>The calls of \<open>Then\<close> that \<open>WhenAny\<close> makes on futures that are not set.\<close>

fun attach :: "('v, 'e) store \<Rightarrow> ('v, 'e) callable \<Rightarrow> nat list \<Rightarrow> ('v, 'e) store" where
  "attach h c [] = h"
| "attach h c (s # ss) = attach (fst (Then_call h s c True)) c ss"

text \<open>
  A future \<open>s\<close> that is not set and has only continuations of \<open>WhenAny\<close>, whose futures were made
  at or after \<open>l\<close> and have no continuations; and a future without continuations.
\<close>

definition watched :: "('v, 'e) store \<Rightarrow> nat \<Rightarrow> nat \<Rightarrow> bool" where
  "watched h l s \<longleftrightarrow>
     s < l \<and> l \<le> length (states h) \<and> \<not> is_set h s \<and>
     (\<forall>k \<in> set (continuations (states h ! s)).
        plain (callable k) \<and> l \<le> promise k \<and> promise k < length (states h) \<and>
        continuations (states h ! promise k) = [])"

lemma Then_plain:
  assumes "s < length (states h)" "\<not> is_set h s" "plain c"
  shows "Then_call h s c v =
    (upd_state s (\<lambda>fs. fs\<lparr>continuations := continuations fs @ [then_continuation c s (length (states h))]\<rparr>)
       (fst (make_state v h)), [])"
proof -
  have "acquire c x = x" for x :: "('a, 'b) store"
    using assms(3) by (cases c rule: drop_callable.cases) (auto simp: plain_def)
  then show ?thesis using Then_call_undefined [OF assms(1,2)] by simp
qed

lemma attach_spec:
  assumes "distinct ss" "\<forall>s \<in> set ss. s < l \<and> \<not> is_set h s \<and> continuations (states h ! s) = []"
    "\<forall>s \<in> set us. watched h l s" "l \<le> length (states h)" "plain c" "set us \<inter> set ss = {}"
    "w < length (states h)" "w \<notin> set ss"
  shows "exec h (map (\<lambda>s. CallThen s c True) ss @ cs) = exec (attach h c ss) cs \<and>
    (\<forall>s \<in> set us \<union> set ss. watched (attach h c ss) l s) \<and>
    states (attach h c ss) ! w = states h ! w"
  using assms
proof (induction ss arbitrary: h us)
  case (Cons s ss)
  have s: "s < length (states h)" "s < l" "\<not> is_set h s" "continuations (states h ! s) = []"
    using Cons.prems by auto
  let ?k = "then_continuation c s (length (states h))"
  let ?h = "fst (Then_call h s c True)"
  have call: "Then_call h s c True = (?h, [])" and
    h: "states ?h = (states h @ [FutureState_new True])[s := (states h ! s)\<lparr>continuations := [?k]\<rparr>]"
    using Then_plain [OF s(1,3) Cons.prems(5)] s by (simp_all add: nth_append)
  have old: "states ?h ! u = states h ! u" if "u \<noteq> s" "u < length (states h)" for u
    using that by (simp add: h nth_append)
  have at_s: "states ?h ! s = (states h ! s)\<lparr>continuations := [?k]\<rparr>"
    using s(1) by (simp add: h)
  have new: "continuations (states ?h ! length (states h)) = []"
    using s(1) by (simp add: h nth_append FutureState_new_def)
  have keep: "continuations (states ?h ! u) = []" if "continuations (states h ! u) = []" "l \<le> u" "u < length (states h)" for u
    using that s(2) old [of u] by simp
  have "watched ?h l s"
    using s(2,3) at_s new Cons.prems(4,5) h
    by (auto simp: watched_def is_set_def then_continuation_def)
  moreover have "watched ?h l u" if u: "u \<in> set us" for u
  proof -
    have wu: "watched h l u" "u \<noteq> s" using u Cons.prems by auto
    then have eq: "states ?h ! u = states h ! u" using old Cons.prems(4) by (auto simp: watched_def)
    have "continuations (states ?h ! promise k) = []" if "k \<in> set (continuations (states h ! u))" for k
    proof -
      have "continuations (states h ! promise k) = []" "l \<le> promise k" "promise k < length (states h)"
        using wu(1) that by (auto simp: watched_def)
      then show ?thesis by (rule keep)
    qed
    then show ?thesis using wu(1) eq h by (auto simp: watched_def is_set_def less_SucI)
  qed
  ultimately have us: "\<forall>u \<in> set (s # us). watched ?h l u" by auto
  have rest: "\<forall>u \<in> set ss. u < l \<and> \<not> is_set ?h u \<and> continuations (states ?h ! u) = []"
    using Cons.prems old by (fastforce simp: is_set_def)
  have "exec ?h (map (\<lambda>s. CallThen s c True) ss @ cs) = exec (attach ?h c ss) cs \<and>
      (\<forall>u \<in> set (s # us) \<union> set ss. watched (attach ?h c ss) l u) \<and>
      states (attach ?h c ss) ! w = states ?h ! w"
    by (rule Cons.IH) (use Cons.prems us rest h in auto)
  moreover have "snd (Then_call h s c True) = []" by (subst call) simp
  ultimately show ?case using old [of w] Cons.prems(7,8) by (auto simp: exec_Cons split_beta)
qed simp

lemma break_all_set: "is_set h u \<Longrightarrow> is_set (break_all h ts) u"
proof (induction h ts rule: break_all.induct)
  case (2 h t ts)
  have "is_set (upd_state t (\<lambda>fs. fs\<lparr>state := if state fs = Undefined then BrokenPromise else state fs,
      continuations := []\<rparr>) h) u"
    by (rule is_set_upd_state [OF 2(2)]) (simp add: is_set_def)
  then show ?case using 2(1) by simp
qed simp

lemma drop_watched:
  assumes "distinct ss" "\<forall>s \<in> set ss. watched h l s" "w \<notin> set ss"
    "\<forall>s \<in> set ss. w \<notin> promise ` set (continuations (states h ! s))"
  shows "\<exists>h'. exec h (map DropPromise ss) = Some h' \<and> states h' ! w = states h ! w \<and>
    (\<forall>u < l. u \<notin> set ss \<longrightarrow> states h' ! u = states h ! u) \<and>
    (\<forall>s \<in> set ss. state (states h' ! s) = BrokenPromise)"
  using assms
proof (induction ss arbitrary: h)
  case (Cons s ss)
  let ?ks = "continuations (states h ! s)"
  let ?h = "break_all h (s # map promise ?ks)"
  have ws: "watched h l s" using Cons.prems(2) by simp
  then have s: "s < l" "l \<le> length (states h)" "\<not> is_set h s" and
    k: "\<forall>k \<in> set ?ks. plain (callable k) \<and> l \<le> promise k \<and> promise k < length (states h) \<and>
      continuations (states h ! promise k) = []"
    by (auto simp: watched_def)
  have e: "exec h (map DropPromise (s # ss)) = exec ?h (map DropPromise ss)"
    using exec_break [of h s "map DropPromise ss"] k s by force
  have old: "states ?h ! u = states h ! u" if "u < l" "u \<noteq> s" for u
    using that k by (intro break_all_other) force
  have low: "states ?h ! u = states h ! u" if "u \<notin> promise ` set ?ks" "u \<noteq> s" for u
    using that by (intro break_all_other) auto
  have wat: "watched ?h l u" if "u \<in> set ss" for u
  proof -
    have u: "watched h l u" "u \<noteq> s" "u < l" using that Cons.prems by (auto simp: watched_def)
    have "continuations (states ?h ! promise k) = []" if "k \<in> set (continuations (states h ! u))" for k
      using u(1) that by (intro break_all_childless) (simp add: watched_def)
    then show ?thesis
      using u old [of u] by (simp add: watched_def is_set_def del: break_all.simps)
  qed
  have eq: "states ?h ! u = states h ! u" if "u \<in> set ss" for u
    using that Cons.prems(1,2) by (intro old) (auto simp: watched_def)
  have "w \<notin> promise ` set (continuations (states ?h ! u))" if "u \<in> set ss" for u
    using Cons.prems(4) that eq [OF that] by simp
  then have nw: "\<forall>u \<in> set ss. w \<notin> promise ` set (continuations (states ?h ! u))" by blast
  have "distinct ss" "w \<notin> set ss" using Cons.prems by simp_all
  from Cons.IH [OF this(1) _ this(2) nw] wat obtain h' where h': "exec ?h (map DropPromise ss) = Some h'" "states h' ! w = states ?h ! w"
    "\<forall>u < l. u \<notin> set ss \<longrightarrow> states h' ! u = states ?h ! u"
    "\<forall>s \<in> set ss. state (states h' ! s) = BrokenPromise"
    by blast
  have "state (states ?h ! s) = BrokenPromise"
  proof -
    let ?h1 = "break_all h [s]"
    have "states (break_all ?h1 (map promise ?ks)) ! s = states ?h1 ! s"
      using k s(1) by (intro break_all_other) force
    then show ?thesis using s by (simp add: is_set_def)
  qed
  then have "state (states h' ! s) = BrokenPromise"
    using h'(3) s(1) Cons.prems(1) by (simp del: break_all.simps)
  moreover have "states ?h ! w = states h ! w" using Cons.prems(3,4) by (intro low) auto
  moreover have "states h' ! u = states h ! u" if "u < l" "u \<notin> set (s # ss)" for u
    using h'(3) old that by (simp del: break_all.simps)
  ultimately show ?case using e h'(1,2,4) by (intro exI [of _ h']) (simp del: break_all.simps)
qed simp

text \<open>
  \<open>WhenAny\<close> on any number of futures without a result: when all their promises are
  destroyed unkept, all the futures are broken, but the future of \<open>WhenAny\<close> is neither set nor
  broken. Nothing refers to its state any more, so a \<open>Get\<close> on it blocks for ever. The same holds
  for \<open>WhenAny\<close> on no futures.
\<close>

theorem WhenAny_hangs_when_all_break:
  assumes "distinct ss"
    "\<forall>s \<in> set ss. s < length (states h) \<and> \<not> is_set h s \<and> NumberOfContinuations h s = 0"
  shows "\<exists>h1 cs w h2. WhenAny h (map Some ss) = (h1, cs, Inr (Some w)) \<and>
    exec h1 (cs @ map DropPromise ss) = Some h2 \<and> Get h2 w = Blocks \<and>
    (\<forall>s \<in> set ss. Get h2 s = Throws (FutureError EC_BrokenPromise))"
proof -
  let ?w = "length (states h)" and ?h1 = "fst (make_state True h)"
  let ?cs = "map (\<lambda>s. CallThen s (SetShared ?w) True) ss" and ?h2 = "attach ?h1 (SetShared ?w) ss"
  have f: "takeWhile Future_Valid (map Some ss) = map Some ss" "list_all Future_Valid (map Some ss)"
    by (auto simp: takeWhile_eq_all_conv list_all_iff Future_Valid_def)
  have w: "WhenAny h (map Some ss) = (?h1, ?cs, Inr (Some ?w))"
    by (simp add: WhenAny_def split_beta Let_def fold_Then_def fold_result_def f comp_def)
  have a: "exec ?h1 (?cs @ map DropPromise ss) = exec ?h2 (map DropPromise ss) \<and>
      (\<forall>s \<in> set [] \<union> set ss. watched ?h2 (Suc ?w) s) \<and> states ?h2 ! ?w = states ?h1 ! ?w"
    by (rule attach_spec)
      (use assms in \<open>auto simp: is_set_def nth_append plain_def NumberOfContinuations_def less_SucI\<close>)
  moreover have "?w \<notin> set ss" using assms(2) by auto
  moreover have "\<forall>s \<in> set ss. ?w \<notin> promise ` set (continuations (states ?h2 ! s))"
    using a by (force simp: watched_def)
  ultimately obtain h2 where h2: "exec ?h2 (map DropPromise ss) = Some h2"
    "states h2 ! ?w = states ?h2 ! ?w" "\<forall>s \<in> set ss. state (states h2 ! s) = BrokenPromise"
    using drop_watched [OF assms(1), of ?h2 "Suc ?w" ?w] by auto
  have "Get h2 ?w = Blocks" using a h2(2) by (simp add: Get_def FutureState_new_def)
  moreover have "\<forall>s \<in> set ss. Get h2 s = Throws (FutureError EC_BrokenPromise)"
    using h2(3) by (simp add: Get_def)
  ultimately show ?thesis using w a h2(1) by auto
qed

theorem WhenAny_hangs_when_all_break_witness:
  "\<exists>h1 cs w h2. WhenAny (heap two_promises) [Some 0, Some 1] = (h1, cs, Inr (Some w)) \<and>
     exec h1 (cs @ [DropPromise 0, DropPromise 1]) = Some h2 \<and> Get h2 w = Blocks \<and>
     Get h2 1 = Throws (FutureError EC_BrokenPromise)"
proof -
  have "distinct [0 :: nat, 1]" by simp
  moreover have "\<forall>s \<in> set [0, 1]. s < length (states (heap two_promises)) \<and>
      \<not> is_set (heap two_promises) s \<and> NumberOfContinuations (heap two_promises) s = 0"
    by code_simp
  ultimately show ?thesis
    using WhenAny_hangs_when_all_break [of "[0, 1]" "heap two_promises"] by auto
qed

text \<open>
  On a future that is set before the call, also one whose promise is broken, \<open>WhenAny\<close> is
  ready at once, and every further set future changes nothing.
\<close>

theorem WhenAny_ready_at_once:
  assumes "s < length (states h)" "is_set h s"
  shows "\<exists>h1 cs w h2. WhenAny h [Some s] = (h1, cs, Inr (Some w)) \<and> exec h1 cs = Some h2 \<and>
    Get h2 w = Returns None \<and> Get h2 s = Get h s \<and> invoked h2 = invoked h"
proof -
  let ?w = "length (states h)" and ?h1 = "fst (make_state True h)"
  have w: "WhenAny h [Some s] = (?h1, [CallThen s (SetShared ?w) True], Inr (Some ?w))"
    by (simp add: WhenAny_def split_beta Let_def fold_Then_def fold_result_def Future_Valid_def)
  have i: "s < length (states ?h1)" "is_set ?h1 s" using assms by (auto simp: is_set_def nth_append)
  have "Then_call ?h1 s (SetShared ?w) True =
      (fst (make_state True ?h1), [RunTemporary (then_continuation (SetShared ?w) s (Suc ?w)), DropPromise (Suc ?w)])"
    using Then_call_set [OF i] by simp
  then have "\<exists>h2. exec ?h1 [CallThen s (SetShared ?w) True] = Some h2 \<and> Get h2 ?w = Returns None \<and>
      Get h2 s = Get h s \<and> invoked h2 = invoked h"
    using assms
    by (simp add: exec_Cons call_continuation_def then_continuation_def SetValue_void_def make_state_def
        FutureState_new_def nth_append run_continuations_def resolve_def upd_state_def
        AboutToDestroyPromise_def clear_continuations_def Get_def is_set_def nth_list_update
        list_update_append split: nat.splits)
  then show ?thesis using w by auto
qed

theorem WhenAny_ready_at_once_witness:
  "\<exists>h1 cs w h2. WhenAny (heap two_threads) [Some 1] = (h1, cs, Inr (Some w)) \<and>
     exec h1 cs = Some h2 \<and> Get h2 w = Returns None"
proof -
  have "1 < length (states (heap two_threads))" "is_set (heap two_threads) 1" by code_simp+
  from WhenAny_ready_at_once [OF this] show ?thesis by auto
qed

end
