(* ===== verification/Task.thy ===== *)
theory Task
  imports Future_Calls
begin

text \<open>
  \<open>include/azul/async/Task.hpp\<close>: a task holds a function, the promise of its result and the future
  it depends on. The function is the user's: \<open>task_func\<close> is what calling it gives, a result or an
  exception. The promise is an object of the system of futures, named by its index. \<open>task_id\<close> and
  \<open>awaits\<close> are not read by the code: they name the task and the futures it was submitted with.

  The second part collects what never changes in a system of futures, which the thread pool
  relies on.
\<close>

section \<open>Tasks\<close>

record ('v, 'e) task =
  dependency :: handle
  task_func :: "'e exn + 'v option"
  task_promise :: nat
  task_id :: nat
  awaits :: "nat list"

text \<open>\<open>!(_dependency.Valid() && !_dependency.IsReady())\<close>\<close>

definition TaskBase_IsReady :: "('v, 'e) store \<Rightarrow> ('v, 'e) task \<Rightarrow> bool" where
  "TaskBase_IsReady h t =
     (\<not> (Future_Valid (dependency t) \<and>
         \<not> (case Future_IsReady h (dependency t) of Inr b \<Rightarrow> b | Inl e \<Rightarrow> True)))"

text \<open>
  The call of a client function by the thread \<open>i\<close>, possibly nested in another: the first critical
  section and the rest.
\<close>

definition call_by ::
  "('v, 'e) system \<Rightarrow> nat \<Rightarrow> ('v, 'e) client_op \<Rightarrow> ('v, 'e) system \<times> 'e exn option"
where
  "call_by g i x = (case client_call g x of (g', cs, e) \<Rightarrow> (g'\<lparr>agendas := (agendas g)[i := cs @ agendas g ! i]\<rparr>, e))"

text \<open>
  \<open>operator()\<close> on the thread \<open>i\<close>: the result goes to the promise; what the function or \<open>SetValue\<close>
  throws goes to \<open>SetException\<close>.
\<close>

definition Task_call :: "('v, 'e) system \<Rightarrow> nat \<Rightarrow> ('v, 'e) task \<Rightarrow> ('v, 'e) system" where
  "Task_call g i t =
     (case task_func t of
        Inl ex \<Rightarrow> fst (call_by g i (PromiseSetException (task_promise t) ex))
      | Inr v \<Rightarrow>
          (case call_by g i (PromiseSetValue (task_promise t) v) of
             (g', None) \<Rightarrow> g'
           | (g', Some ex) \<Rightarrow> fst (call_by g i (PromiseSetException (task_promise t) ex))))"

definition Task_NumberOfContinuations :: "('v, 'e) system \<Rightarrow> ('v, 'e) task \<Rightarrow> nat" where
  "Task_NumberOfContinuations g t =
     (case Handle_NumberOfContinuations (heap g) (promises g ! task_promise t) of
        Inl e \<Rightarrow> 0
      | Inr n \<Rightarrow> n)"

lemma TaskBase_IsReady_iff:
  "TaskBase_IsReady h t = (case dependency t of None \<Rightarrow> True | Some w \<Rightarrow> is_set h w)"
  by (simp add: TaskBase_IsReady_def Future_Valid_def Future_IsReady_def Check_def IsReady_def is_set_def
      split: option.split)

lemma call_by_step:
  assumes "i < length (agendas g)" "op_ok g x"
  shows "client_step g (fst (call_by g i x))"
proof -
  obtain g' cs e where c: "client_call g x = (g', cs, e)" by (cases "client_call g x")
  show ?thesis using client_stepI [OF assms c] c by (simp add: call_by_def)
qed

lemma Task_call_step:
  assumes "i < length (agendas g)" "task_promise t < length (promises g)"
  shows "client_step g (Task_call g i t)"
  using assms by (auto simp: Task_call_def split: sum.split option.split prod.split
      intro: call_by_step) (metis call_by_step assms fst_conv op_ok.simps(2))

section \<open>What a system of futures keeps\<close>

text \<open>
  A later system has at least the states, activators and objects of an earlier one; set states
  stay set; an activator keeps its inputs and its target.
\<close>

definition extends :: "('v, 'e) system \<Rightarrow> ('v, 'e) system \<Rightarrow> bool" where
  "extends g g' \<longleftrightarrow>
     length (states (heap g)) \<le> length (states (heap g')) \<and>
     length (activators (heap g)) \<le> length (activators (heap g')) \<and>
     length (promises g) \<le> length (promises g') \<and> length (agendas g) = length (agendas g') \<and>
     (\<forall>s < length (states (heap g)). is_set (heap g) s \<longrightarrow> is_set (heap g') s) \<and>
     (\<forall>a < length (activators (heap g)). act_target (heap g') a = act_target (heap g) a \<and>
        inputs (activators (heap g') ! a) = inputs (activators (heap g) ! a))"

lemma extends_refl [simp]: "extends g g"
  by (simp add: extends_def)

lemma extends_trans:
  assumes "extends g1 g2" "extends g2 g3"
  shows "extends g1 g3"
  unfolding extends_def
proof (intro conjI allI impI)
  fix s assume "s < length (states (heap g1))" "is_set (heap g1) s"
  moreover from this(1) have "s < length (states (heap g2))" using assms(1) by (simp add: extends_def)
  ultimately show "is_set (heap g3) s" using assms by (simp add: extends_def)
next
  fix a assume a: "a < length (activators (heap g1))"
  then have "a < length (activators (heap g2))" using assms(1) by (simp add: extends_def)
  with a show "act_target (heap g3) a = act_target (heap g1) a"
    "inputs (activators (heap g3) ! a) = inputs (activators (heap g1) ! a)"
    using assms by (simp_all add: extends_def)
qed (use assms in \<open>simp_all add: extends_def\<close>)

lemma activators_step:
  assumes "\<not> is_call c"
  shows "length (activators (fst (step h c))) = length (activators h)"
    "inputs (activators (fst (step h c)) ! a) = inputs (activators h ! a)"
proof -
  have "length (activators (fst (step h c))) = length (activators h) \<and>
      inputs (activators (fst (step h c)) ! a) = inputs (activators h ! a)"
  proof (cases c)
    case (Resolve p r)
    then show ?thesis by (cases rule: resolve_cases [of h p r]) simp_all
  next
    case (DropActivator b)
    then show ?thesis
      by (simp add: drop_activator_def Let_def nth_update_keeps [where F = inputs])
  qed (use assms in \<open>auto simp: run_continuation_def SetValue_void_def AboutToDestroyPromise_def
        clear_continuations_def Let_def split_beta\<close>)
  then show "length (activators (fst (step h c))) = length (activators h)"
    "inputs (activators (fst (step h c)) ! a) = inputs (activators h ! a)" by blast+
qed

lemma activators_Then_call:
  assumes "s < length (states h)"
  shows "length (activators (fst (Then_call h s c v))) = length (activators h)"
    "inputs (activators (fst (Then_call h s c v)) ! a) = inputs (activators h ! a)"
    "act_target (fst (Then_call h s c v)) a = act_target h a"
  using assms by (cases "is_set h s"; simp add: Then_call_set Then_call_undefined)+

lemma run_step_extends:
  assumes "run_step g g'" "sys_inv g"
  shows "extends g g'"
  using assms(1)
proof cases
  case (run_stepI i c cs h new)
  have h: "h = fst (step (heap g) c)" using run_stepI(4) by simp
  have ok: "cmd_ok (maker g) (heap g) c"
  proof -
    have "c # cs \<in> set (agendas g)" using run_stepI(2,3) by (metis nth_mem)
    then have "c \<in># pending g" by (auto simp: pending_def intro!: bexI [of _ "c # cs"])
    then show ?thesis using assms(2) by (simp add: sys_inv_def inv_def)
  qed
  have "length (states (heap g)) \<le> length (states h)" unfolding h by (rule length_states_mono)
  moreover have "length (activators h) = length (activators (heap g)) \<and>
      (\<forall>s < length (states (heap g)). is_set (heap g) s \<longrightarrow> is_set h s) \<and>
      (\<forall>a. act_target h a = act_target (heap g) a \<and>
         inputs (activators h ! a) = inputs (activators (heap g) ! a))"
  proof (cases "is_call c")
    case True
    then obtain s k v where c: "c = CallThen s k v" by (cases c) auto
    then have s: "s < length (states (heap g))" using ok by simp
    show ?thesis using s c h activators_Then_call [OF s] set_by_call [OF _ s] by auto
  next
    case False
    then show ?thesis using h activators_step [OF False] act_target_step [OF False] is_set_step [OF _ False] by auto
  qed
  ultimately show ?thesis using run_stepI(1) by (simp add: extends_def)
qed

lemma is_set_SetException: "is_set h u \<Longrightarrow> is_set (fst (SetException h s e)) u"
  by (auto simp: SetException_def intro: is_set_upd_state)

lemma is_set_SetValue_void: "is_set h u \<Longrightarrow> is_set (fst (SetValue_void h s)) u"
  by (auto simp: SetValue_void_def intro: is_set_upd_state)

lemma client_call_extends:
  assumes "client_call g x = (g', cs, e)"
  shows "extends g g'"
proof (cases x)
  case (NewPromise void)
  then show ?thesis using assms
    by (auto simp: extends_def Promise_ctor_def split_beta Let_def)
next
  case (PromiseSetValue j v)
  show ?thesis
  proof (cases "Promise_SetValue (heap g) (promises g ! j) v")
    case (Inr hc)
    then obtain h where h: "hc = (h, cs)" "g' = g\<lparr>heap := h\<rparr>" using assms PromiseSetValue by (cases hc) auto
    obtain s where s: "promises g ! j = Some s"
      using Inr by (auto simp: Promise_SetValue_def Check_def split: option.splits)
    have "activators h = activators (heap g)" "length (states h) = length (states (heap g))"
      "is_set (heap g) u \<Longrightarrow> is_set h u" for u
      using Inr s h is_set_SetValue_void [of "heap g" u s]
      by (auto simp: Promise_SetValue_def Check_def SetValue_void_def SetValue_cases
          intro: is_set_upd_state split: if_splits)
    then show ?thesis using h(2) by (simp add: extends_def act_target_def)
  qed (use assms PromiseSetValue in simp)
next
  case (PromiseSetException j v)
  show ?thesis
  proof (cases "Promise_SetException (heap g) (promises g ! j) v")
    case (Inr hc)
    then obtain h where h: "hc = (h, cs)" "g' = g\<lparr>heap := h\<rparr>" using assms PromiseSetException by (cases hc) auto
    obtain s where s: "promises g ! j = Some s"
      using Inr by (auto simp: Promise_SetException_def Check_def split: option.splits)
    have "activators h = activators (heap g)" "length (states h) = length (states (heap g))"
      "is_set (heap g) u \<Longrightarrow> is_set h u" for u
      using Inr s h is_set_SetException [of "heap g" u s]
      by (auto simp: Promise_SetException_def Check_def SetException_def intro: is_set_upd_state)
    then show ?thesis using h(2) by (simp add: extends_def act_target_def)
  qed (use assms PromiseSetException in simp)
next
  case (CallWhenAll fs)
  then show ?thesis using assms
    by (auto simp: extends_def WhenAll_def split_beta Let_def act_target_def nth_append is_set_def)
next
  case (CallWhenAny fs)
  then show ?thesis using assms
    by (auto simp: extends_def WhenAny_def split_beta Let_def act_target_def nth_append is_set_def)
qed (use assms in \<open>auto simp: Promise_move_assign_def extends_def split: sum.splits\<close>)

lemma client_step_extends:
  assumes "client_step g g'"
  shows "extends g g'"
  using assms
proof cases
  case (client_stepI i x g1 cs e)
  then show ?thesis using client_call_extends [OF client_stepI(4)] by (simp add: extends_def)
qed

end
