(* ===== verification/Thread_Pool.thy ===== *)
theory Thread_Pool
  imports Task
begin

text \<open>
  \<open>include/azul/async/StaticThreadPool.hpp\<close>: the worker threads, the list of tasks and the mutex.
  The futures that the pool works on are a system of futures in which the first threads are the
  workers of the pool and the others are threads of the program; work on futures runs as in the
  theory \<open>Future_System\<close>. A step of the pool is one critical section of its mutex, or one piece
  of work outside of it.
\<close>

section \<open>State\<close>

text \<open>
  Where a worker is in \<open>ThreadLoop\<close>: before the test of the loop, in the function of a task, after
  it and before \<open>lock.lock()\<close>, at the end of the loop body where the task is destroyed while the
  mutex is held, in \<open>wait_for\<close>, or after the loop.
\<close>

datatype ('v, 'e) worker =
    AtLoop
  | Running "('v, 'e) task"
  | Finishing "('v, 'e) task"
  | Retiring
  | Waiting
  | Exited

text \<open>A call of \<open>Execute\<close> in progress: the dependency, the function, its result type, the futures.\<close>

type_synonym ('v, 'e) pending_task = "handle \<times> ('e exn + 'v option) \<times> bool \<times> nat list"

text \<open>
  \<open>lock\<close> is the thread that holds \<open>_mutex\<close> across steps. \<open>submitted\<close>, \<open>started\<close> and \<open>discarded\<close>
  are not read by the code: they count the tasks and record which were called and destroyed.
\<close>

record ('v, 'e) pool =
  futures :: "('v, 'e) system"
  tasks :: "('v, 'e) task list"
  workers :: "('v, 'e) worker list"
  lock :: "nat option"
  shutdownInitiated :: bool
  submission :: "('v, 'e) pending_task option"
  submitted :: nat
  started :: "nat list"
  discarded :: "nat list"

text \<open>A pool of \<open>n\<close> workers in a program with \<open>m\<close> further threads.\<close>

definition StaticThreadPool_ctor :: "nat \<Rightarrow> nat \<Rightarrow> ('v, 'e) pool" where
  "StaticThreadPool_ctor n m =
     \<lparr>futures = start (n + m), tasks = [], workers = replicate n AtLoop, lock = None,
      shutdownInitiated = False, submission = None, submitted = 0, started = [], discarded = []\<rparr>"

definition ThreadCount :: "('v, 'e) pool \<Rightarrow> nat" where
  "ThreadCount p = length (workers p)"

section \<open>Operations\<close>

text \<open>\<open>NextTask\<close>: the first ready task, and the list without it.\<close>

fun NextTask ::
  "('v, 'e) store \<Rightarrow> ('v, 'e) task list \<Rightarrow> (('v, 'e) task \<times> ('v, 'e) task list) option"
where
  "NextTask h [] = None"
| "NextTask h (t # ts) =
     (if TaskBase_IsReady h t then Some (t, ts)
      else (case NextTask h ts of None \<Rightarrow> None | Some (x, rest) \<Rightarrow> Some (x, t # rest)))"

text \<open>
  \<open>Execute\<close> by the thread \<open>i\<close> takes the mutex, calls \<open>WhenAll\<close> on the dependencies, makes the task
  with its promise, appends it and releases the mutex. When \<open>WhenAll\<close> throws, the mutex is
  released and no task is made.
\<close>

definition Execute_begin ::
  "('v, 'e) pool \<Rightarrow> nat \<Rightarrow> ('e exn + 'v option) \<Rightarrow> bool \<Rightarrow> handle list \<Rightarrow> ('v, 'e) pool"
where
  "Execute_begin p i f void deps =
     (case call_by (futures p) i (CallWhenAll deps) of (g, e) \<Rightarrow>
        p\<lparr>futures := g, lock := Some i,
          submission := (case e of
              None \<Rightarrow> Some (Some (length (states (heap (futures p)))), f, void, map the deps)
            | Some _ \<Rightarrow> None)\<rparr>)"

definition Execute_end :: "('v, 'e) pool \<Rightarrow> nat \<Rightarrow> ('v, 'e) pool" where
  "Execute_end p i =
     (case submission p of
        None \<Rightarrow> p\<lparr>lock := None\<rparr>
      | Some (w, f, void, ds) \<Rightarrow>
          p\<lparr>futures := fst (call_by (futures p) i (NewPromise void)),
            tasks := tasks p @ [\<lparr>dependency = w, task_func = f, task_promise = length (promises (futures p)),
                                 task_id = submitted p, awaits = ds\<rparr>],
            lock := None, submission := None, submitted := Suc (submitted p)\<rparr>)"

text \<open>The test of the loop and the body up to the call of the task, or to the wait.\<close>

definition loop_head :: "('v, 'e) pool \<Rightarrow> nat \<Rightarrow> ('v, 'e) pool" where
  "loop_head p i =
     (if shutdownInitiated p then p\<lparr>workers := (workers p)[i := Exited]\<rparr>
      else (case NextTask (heap (futures p)) (tasks p) of
              Some (t, ts) \<Rightarrow>
                p\<lparr>tasks := ts, started := started p @ [task_id t], workers := (workers p)[i := Running t]\<rparr>
            | None \<Rightarrow> p\<lparr>workers := (workers p)[i := Waiting]\<rparr>))"

definition run_task :: "('v, 'e) pool \<Rightarrow> nat \<Rightarrow> ('v, 'e) task \<Rightarrow> ('v, 'e) pool" where
  "run_task p i t =
     p\<lparr>futures := Task_call (futures p) i t, workers := (workers p)[i := Finishing t]\<rparr>"

text \<open>
  \<open>notify_one\<close>, \<open>n\<close> times: some of the waiting workers, at most \<open>n\<close>, are woken, and all of them
  when there are no more than \<open>n\<close>.
\<close>

definition is_waiting :: "('v, 'e) worker \<Rightarrow> bool" where
  "is_waiting w = (case w of Waiting \<Rightarrow> True | _ \<Rightarrow> False)"

definition woken :: "nat \<Rightarrow> ('v, 'e) worker list \<Rightarrow> ('v, 'e) worker list \<Rightarrow> bool" where
  "woken n ws ws' \<longleftrightarrow>
     list_all2 (\<lambda>a b. b = a \<or> is_waiting a \<and> b = AtLoop) ws ws' \<and>
     length (filter is_waiting ws') = length (filter is_waiting ws) - n"

definition wake_all :: "('v, 'e) worker list \<Rightarrow> ('v, 'e) worker list" where
  "wake_all ws = map (\<lambda>w. if is_waiting w then AtLoop else w) ws"

text \<open>How many notifications follow the call of a task.\<close>

definition notifications :: "('v, 'e) pool \<Rightarrow> ('v, 'e) task \<Rightarrow> nat" where
  "notifications p t = min (Task_NumberOfContinuations (futures p) t) (length (workers p))"

text \<open>The end of the loop body: the last pointer to the task is released, and with it its promise.\<close>

definition retire_task :: "('v, 'e) pool \<Rightarrow> nat \<Rightarrow> ('v, 'e) task \<Rightarrow> ('v, 'e) pool" where
  "retire_task p i t =
     p\<lparr>futures := fst (call_by (futures p) i (DestroyPromise (task_promise t))), lock := Some i,
       workers := (workers p)[i := Retiring]\<rparr>"

definition ShutdownNotifyThreads :: "('v, 'e) pool \<Rightarrow> ('v, 'e) pool" where
  "ShutdownNotifyThreads p = p\<lparr>shutdownInitiated := True, workers := wake_all (workers p)\<rparr>"

text \<open>\<open>ShutdownDestroyRemainingTasks\<close>: \<open>_tasks.clear()\<close> destroys one task after the other.\<close>

definition destroy_front :: "('v, 'e) pool \<Rightarrow> nat \<Rightarrow> ('v, 'e) pool" where
  "destroy_front p i =
     (case tasks p of
        [] \<Rightarrow> p
      | t # ts \<Rightarrow>
          p\<lparr>futures := fst (call_by (futures p) i (DestroyPromise (task_promise t))), tasks := ts,
            discarded := discarded p @ [task_id t]\<rparr>)"

section \<open>Steps\<close>

text \<open>\<open>idle p i\<close>: the thread \<open>i\<close> has no work on futures left.\<close>

definition idle :: "('v, 'e) pool \<Rightarrow> nat \<Rightarrow> bool" where
  "idle p i = (i < length (agendas (futures p)) \<and> (case agendas (futures p) ! i of [] \<Rightarrow> True | _ \<Rightarrow> False))"

text \<open>The task that a worker holds.\<close>

fun held_task :: "('v, 'e) worker \<Rightarrow> ('v, 'e) task list" where
  "held_task (Running t) = [t]"
| "held_task (Finishing t) = [t]"
| "held_task _ = []"

text \<open>
  The work of the pool: what its threads do without a further call from the program. A timeout of
  one second ends every wait.
\<close>

inductive pool_work :: "('v, 'e) pool \<Rightarrow> ('v, 'e) pool \<Rightarrow> bool" where
  run_futures: "run_step (futures p) g \<Longrightarrow> pool_work p (p\<lparr>futures := g\<rparr>)"
| finish_execute: "\<lbrakk>lock p = Some i; length (workers p) \<le> i; idle p i; Execute_end p i = p';
    woken (case submission p of None \<Rightarrow> 0 | Some x \<Rightarrow> 1) (workers p') ws\<rbrakk> \<Longrightarrow> pool_work p (p'\<lparr>workers := ws\<rparr>)"
| loop: "\<lbrakk>i < length (workers p); workers p ! i = AtLoop; lock p = None; idle p i\<rbrakk> \<Longrightarrow>
    pool_work p (loop_head p i)"
| call_task: "\<lbrakk>i < length (workers p); workers p ! i = Running t; idle p i\<rbrakk> \<Longrightarrow>
    pool_work p (run_task p i t)"
| finish_task: "\<lbrakk>i < length (workers p); workers p ! i = Finishing t; lock p = None; idle p i;
    woken (notifications p t) (workers p) ws\<rbrakk> \<Longrightarrow> pool_work p (retire_task (p\<lparr>workers := ws\<rparr>) i t)"
| unlock: "\<lbrakk>i < length (workers p); workers p ! i = Retiring; lock p = Some i; idle p i\<rbrakk> \<Longrightarrow>
    pool_work p (p\<lparr>lock := None, workers := (workers p)[i := AtLoop]\<rparr>)"
| timeout: "\<lbrakk>i < length (workers p); workers p ! i = Waiting\<rbrakk> \<Longrightarrow>
    pool_work p (p\<lparr>workers := (workers p)[i := AtLoop]\<rparr>)"

text \<open>
  Where the user's code runs: on a thread of its own, in the function of a task, and in the callables
  and destructors that are called from the work on futures. Not within \<open>Execute\<close>, nor under the mutex.
\<close>

definition in_user_code :: "('v, 'e) pool \<Rightarrow> nat \<Rightarrow> bool" where
  "in_user_code p i \<longleftrightarrow> i < length (agendas (futures p)) \<and> lock p \<noteq> Some i \<and>
     (length (workers p) \<le> i \<or> \<not> idle p i \<or>
      (case workers p ! i of Running t \<Rightarrow> True | _ \<Rightarrow> False))"

text \<open>What the program does: calls on futures, \<open>Execute\<close>, and the destruction of the pool.\<close>

inductive pool_use :: "('v, 'e) pool \<Rightarrow> ('v, 'e) pool \<Rightarrow> bool" where
  use_futures: "\<lbrakk>in_user_code p i; op_ok (futures p) x\<rbrakk> \<Longrightarrow>
    pool_use p (p\<lparr>futures := fst (call_by (futures p) i x)\<rparr>)"
| execute: "\<lbrakk>length (workers p) \<le> i; idle p i; lock p = None; \<not> shutdownInitiated p;
    op_ok (futures p) (CallWhenAll deps)\<rbrakk> \<Longrightarrow> pool_use p (Execute_begin p i f void deps)"
| shut_down: "lock p = None \<Longrightarrow> pool_use p (ShutdownNotifyThreads p)"
| destroy: "\<lbrakk>length (workers p) \<le> i; idle p i; shutdownInitiated p; lock p = None;
    list_all (\<lambda>w. w = Exited) (workers p)\<rbrakk> \<Longrightarrow> pool_use p (destroy_front p i)"

definition pool_step :: "('v, 'e) pool \<Rightarrow> ('v, 'e) pool \<Rightarrow> bool" where
  "pool_step p p' \<longleftrightarrow> pool_work p p' \<or> pool_use p p'"

definition pool_reachable :: "nat \<Rightarrow> nat \<Rightarrow> ('v, 'e) pool \<Rightarrow> bool" where
  "pool_reachable n m p \<longleftrightarrow> pool_step\<^sup>*\<^sup>* (StaticThreadPool_ctor n m) p"

section \<open>The invariant\<close>

text \<open>
  The dependency of a task is the future of a call of \<open>WhenAll\<close> on the futures it awaits, and its
  promise exists.
\<close>

definition waits_for :: "('v, 'e) system \<Rightarrow> handle \<Rightarrow> nat list \<Rightarrow> bool" where
  "waits_for g w ds \<longleftrightarrow>
     (\<exists>a < length (activators (heap g)). w = Some (act_target (heap g) a) \<and>
        inputs (activators (heap g) ! a) = ds)"

definition task_ok :: "('v, 'e) system \<Rightarrow> ('v, 'e) task \<Rightarrow> bool" where
  "task_ok g t \<longleftrightarrow> waits_for g (dependency t) (awaits t) \<and> task_promise t < length (promises g)"

definition worker_ok :: "('v, 'e) system \<Rightarrow> ('v, 'e) worker \<Rightarrow> bool" where
  "worker_ok g w \<longleftrightarrow>
     (\<forall>t \<in> set (held_task w). task_ok g t \<and>
        (\<forall>s \<in> set (awaits t). s < length (states (heap g)) \<and> is_set (heap g) s))"

definition pool_inv :: "('v, 'e) pool \<Rightarrow> bool" where
  "pool_inv p \<longleftrightarrow>
     sys_inv (futures p) \<and> length (workers p) \<le> length (agendas (futures p)) \<and>
     (\<forall>t \<in> set (tasks p). task_ok (futures p) t) \<and>
     (\<forall>w \<in> set (workers p). worker_ok (futures p) w) \<and>
     (\<forall>w f v ds. submission p = Some (w, f, v, ds) \<longrightarrow> waits_for (futures p) w ds) \<and>
     (\<forall>i. lock p = Some i \<longrightarrow> i < length (agendas (futures p))) \<and>
     (\<forall>i < length (workers p). workers p ! i = Retiring \<longleftrightarrow> lock p = Some i) \<and>
     mset (map task_id (tasks p)) + mset (started p) + mset (discarded p) = mset [0..<submitted p]"

lemma waits_for_extends:
  assumes "extends g g'" "waits_for g w ds"
  shows "waits_for g' w ds"
proof -
  obtain a where "a < length (activators (heap g))" "w = Some (act_target (heap g) a)"
    "inputs (activators (heap g) ! a) = ds" using assms(2) by (auto simp: waits_for_def)
  then show ?thesis
    using assms(1) unfolding waits_for_def by (intro exI [of _ a]) (simp add: extends_def)
qed

lemma task_ok_extends:
  assumes "extends g g'" "task_ok g t"
  shows "task_ok g' t"
  using assms waits_for_extends [OF assms(1)] by (auto simp: task_ok_def extends_def)

lemma worker_ok_extends:
  assumes "extends g g'" "worker_ok g w"
  shows "worker_ok g' w"
  unfolding worker_ok_def
proof (intro ballI conjI)
  fix t assume t: "t \<in> set (held_task w)"
  then have "task_ok g t" using assms(2) by (simp add: worker_ok_def)
  with assms(1) show "task_ok g' t" by (rule task_ok_extends)
  fix s assume "s \<in> set (awaits t)"
  then have "s < length (states (heap g))" "is_set (heap g) s" using assms(2) t by (auto simp: worker_ok_def)
  then show "s < length (states (heap g'))" "is_set (heap g') s" using assms(1) by (auto simp: extends_def)
qed

lemma idle_empty: "idle p i \<Longrightarrow> i < length (agendas (futures p)) \<and> agendas (futures p) ! i = []"
  by (auto simp: idle_def split: list.splits)

text \<open>The part of the invariant that speaks about the futures survives every step of theirs.\<close>

lemma pool_inv_futures:
  assumes i: "pool_inv p" and e: "extends (futures p) g" and s: "sys_inv g"
  shows "pool_inv (p\<lparr>futures := g\<rparr>)"
proof -
  have "length (agendas (futures p)) = length (agendas g)" using e by (simp add: extends_def)
  then show ?thesis
    using i s task_ok_extends [OF e] worker_ok_extends [OF e] waits_for_extends [OF e]
    by (auto simp: pool_inv_def)
qed

lemma call_by_ok:
  assumes "pool_inv p" "idle p i \<or> in_user_code p i" "op_ok (futures p) x"
  shows "extends (futures p) (fst (call_by (futures p) i x))" "sys_inv (fst (call_by (futures p) i x))"
proof -
  have c: "client_step (futures p) (fst (call_by (futures p) i x))"
    using assms(2,3) idle_empty [of p i] by (intro call_by_step) (auto simp: in_user_code_def)
  show "extends (futures p) (fst (call_by (futures p) i x))" using c by (rule client_step_extends)
  show "sys_inv (fst (call_by (futures p) i x))" using c client_step_inv assms(1) by (auto simp: pool_inv_def)
qed

text \<open>Changing the phase of a worker that holds no lock.\<close>

lemma pool_inv_worker:
  assumes i: "pool_inv p" and w: "worker_ok (futures p) w" "w \<noteq> Retiring" and l: "lock p \<noteq> Some i"
  shows "pool_inv (p\<lparr>workers := (workers p)[i := w]\<rparr>)"
proof -
  have "\<forall>x \<in> set ((workers p)[i := w]). worker_ok (futures p) x"
    using i w(1) by (auto simp: pool_inv_def dest!: set_update_subset_insert [THEN subsetD])
  moreover have "(workers p)[i := w] ! j = Retiring \<longleftrightarrow> lock p = Some j"
    if "j < length (workers p)" for j
    using i w(2) l that by (cases "j = i") (auto simp: pool_inv_def)
  ultimately show ?thesis using i by (simp add: pool_inv_def)
qed

lemma is_waiting_iff: "is_waiting w \<longleftrightarrow> w = Waiting"
  by (simp add: is_waiting_def split: worker.split)

lemma woken_length: "woken n ws ws' \<Longrightarrow> length ws' = length ws"
  by (auto simp: woken_def dest: list_all2_lengthD)

lemma woken_nth:
  "\<lbrakk>woken n ws ws'; j < length ws\<rbrakk> \<Longrightarrow> ws' ! j = ws ! j \<or> ws ! j = Waiting \<and> ws' ! j = AtLoop"
  by (auto simp: woken_def list_all2_conv_all_nth is_waiting_iff)

lemma pool_inv_woken:
  assumes i: "pool_inv p" and w: "woken n (workers p) ws"
  shows "pool_inv (p\<lparr>workers := ws\<rparr>)"
proof -
  have l: "length ws = length (workers p)" using w by (auto simp: woken_def dest: list_all2_lengthD)
  have c: "ws ! j = workers p ! j \<or> is_waiting (workers p ! j) \<and> ws ! j = AtLoop"
    if "j < length (workers p)" for j
    using w that l by (simp add: woken_def list_all2_conv_all_nth)
  have "worker_ok (futures p) x" if x: "x \<in> set ws" for x
  proof -
    obtain j where j: "j < length (workers p)" "x = ws ! j" using x l by (auto simp: in_set_conv_nth)
    then have "worker_ok (futures p) (workers p ! j)" using i by (simp add: pool_inv_def)
    then show ?thesis using c [OF j(1)] j(2) by (auto simp: worker_ok_def)
  qed
  moreover have "ws ! j = Retiring \<longleftrightarrow> workers p ! j = Retiring" if "j < length (workers p)" for j
    using c [OF that] by (auto simp: is_waiting_def split: worker.splits)
  ultimately show ?thesis using i l by (simp add: pool_inv_def)
qed

lemma woken_refl [simp]: "woken 0 ws ws"
  by (simp add: woken_def list_all2_refl)

lemma woken_wake_all: "woken (length ws) ws (wake_all ws)"
proof -
  have "filter is_waiting (wake_all ws) = []"
    by (auto simp: wake_all_def filter_empty_conv is_waiting_def)
  moreover have "length (filter is_waiting ws) \<le> length ws" by simp
  ultimately show ?thesis
    by (simp add: woken_def) (simp add: wake_all_def list_all2_conv_all_nth)
qed

lemma NextTask_Some:
  "NextTask h ts = Some (t, rest) \<longleftrightarrow>
     (\<exists>xs ys. ts = xs @ t # ys \<and> rest = xs @ ys \<and> TaskBase_IsReady h t \<and>
        (\<forall>x \<in> set xs. \<not> TaskBase_IsReady h x))"
proof (induction ts arbitrary: rest)
  case (Cons x ts)
  show ?case
  proof (cases "TaskBase_IsReady h x")
    case True
    then show ?thesis by (auto simp: Cons_eq_append_conv intro: exI [of _ "[]"])
  next
    case False
    show ?thesis
    proof
      assume "NextTask h (x # ts) = Some (t, rest)"
      then obtain rest' where r: "NextTask h ts = Some (t, rest')" "rest = x # rest'"
        using False by (auto split: option.splits)
      then obtain xs ys where "ts = xs @ t # ys" "rest' = xs @ ys" "TaskBase_IsReady h t"
        "\<forall>x \<in> set xs. \<not> TaskBase_IsReady h x" using Cons by blast
      then show "\<exists>xs ys. x # ts = xs @ t # ys \<and> rest = xs @ ys \<and> TaskBase_IsReady h t \<and>
          (\<forall>x \<in> set xs. \<not> TaskBase_IsReady h x)"
        using False r(2) by (intro exI [of _ "x # xs"] exI [of _ ys]) simp
    next
      assume "\<exists>xs ys. x # ts = xs @ t # ys \<and> rest = xs @ ys \<and> TaskBase_IsReady h t \<and>
          (\<forall>x \<in> set xs. \<not> TaskBase_IsReady h x)"
      then obtain xs ys where e: "x # ts = xs @ t # ys" "rest = xs @ ys" "TaskBase_IsReady h t"
          "\<forall>x \<in> set xs. \<not> TaskBase_IsReady h x" by blast
      then obtain xs' where "xs = x # xs'" using False by (cases xs) auto
      then have "NextTask h ts = Some (t, xs' @ ys)" using Cons [of "xs' @ ys"] e by auto
      then show "NextTask h (x # ts) = Some (t, rest)" using False e \<open>xs = _\<close> by simp
    qed
  qed
qed simp

lemma NextTask_None: "NextTask h ts = None \<longleftrightarrow> (\<forall>t \<in> set ts. \<not> TaskBase_IsReady h t)"
  by (induction ts) (auto split: option.splits)

lemma ready_awaits:
  assumes "sys_inv g" "task_ok g t" "TaskBase_IsReady (heap g) t"
  shows "\<forall>s \<in> set (awaits t). s < length (states (heap g)) \<and> is_set (heap g) s"
proof -
  obtain a where a: "a < length (activators (heap g))" "dependency t = Some (act_target (heap g) a)"
    "inputs (activators (heap g) ! a) = awaits t"
    using assms(2) by (auto simp: task_ok_def waits_for_def)
  then have "is_set (heap g) (act_target (heap g) a)" using assms(3) by (simp add: TaskBase_IsReady_iff)
  then have "\<forall>s \<in> set (awaits t). is_set (heap g) s" using WhenAll_ready [OF assms(1) a(1)] a(3) by simp
  moreover have "\<forall>s \<in> set (awaits t). s < length (states (heap g))"
    using assms(1) a by (auto simp: sys_inv_def inv_def inputs_ok_def)
  ultimately show ?thesis by blast
qed

lemma loop_head_inv:
  assumes i: "pool_inv p" and l: "lock p = None"
  shows "pool_inv (loop_head p i)"
proof (cases "shutdownInitiated p \<or> NextTask (heap (futures p)) (tasks p) = None")
  case True
  then show ?thesis
    using pool_inv_worker [OF i, of Exited i] pool_inv_worker [OF i, of Waiting i] l
    by (auto simp: loop_head_def worker_ok_def)
next
  case False
  then obtain t ts where n: "NextTask (heap (futures p)) (tasks p) = Some (t, ts)" by auto
  then obtain xs ys where x: "tasks p = xs @ t # ys" "ts = xs @ ys" "TaskBase_IsReady (heap (futures p)) t"
    using NextTask_Some by blast
  let ?p = "p\<lparr>tasks := ts, started := started p @ [task_id t]\<rparr>"
  have t: "task_ok (futures p) t" using i x(1) by (simp add: pool_inv_def)
  moreover have "sys_inv (futures p)" using i by (simp add: pool_inv_def)
  ultimately have w: "worker_ok (futures ?p) (Running t)"
    using ready_awaits x(3) by (auto simp: worker_ok_def)
  have p: "pool_inv ?p" using i x by (auto simp: pool_inv_def)
  have "pool_inv (?p\<lparr>workers := (workers ?p)[i := Running t]\<rparr>)"
    by (rule pool_inv_worker [OF p w]) (simp_all add: l)
  then show ?thesis using False n by (simp add: loop_head_def)
qed

lemma Execute_begin_inv:
  assumes i: "pool_inv p" and t: "idle p i" "length (workers p) \<le> i" "lock p = None"
    and o: "op_ok (futures p) (CallWhenAll deps)"
  shows "pool_inv (Execute_begin p i f void deps)"
proof -
  obtain g e where c: "call_by (futures p) i (CallWhenAll deps) = (g, e)"
    by (cases "call_by (futures p) i (CallWhenAll deps)")
  have p: "pool_inv (p\<lparr>futures := g\<rparr>)"
    using pool_inv_futures [OF i] call_by_ok [OF i disjI1 [OF t(1)] o] c by simp
  have w: "waits_for g (Some (length (states (heap (futures p))))) (map the deps)" if "e = None"
  proof -
    have "list_all Future_Valid deps"
      using c that by (auto simp: call_by_def WhenAll_def Let_def split_beta fold_result_def split: if_splits)
    then have "takeWhile Future_Valid deps = deps" by (auto simp: takeWhile_eq_all_conv list_all_iff)
    with that show ?thesis
      using c unfolding waits_for_def
      by (intro exI [of _ "length (activators (heap (futures p)))"])
        (auto simp: call_by_def WhenAll_def Let_def split_beta act_target_def Disposer_ctor_def
          simp del: takeWhile_eq_all_conv)
  qed
  have "i < length (agendas g)" using idle_empty [OF t(1)] call_by_ok(1) [OF i disjI1 [OF t(1)] o] c by (simp add: extends_def)
  then show ?thesis
    using p w t(2,3) c by (auto simp: Execute_begin_def pool_inv_def split: option.splits)
qed

lemma Execute_end_inv:
  assumes i: "pool_inv p" and t: "idle p i" "length (workers p) \<le> i" "lock p = Some i"
  shows "pool_inv (Execute_end p i)"
proof (cases "submission p")
  case None
  then show ?thesis using i t by (auto simp: Execute_end_def pool_inv_def)
next
  case (Some x)
  obtain w f v ds where x: "x = (w, f, v, ds)" by (cases x)
  let ?g = "fst (call_by (futures p) i (NewPromise v))"
  have e: "extends (futures p) ?g" and s: "sys_inv ?g" using call_by_ok [OF i disjI1 [OF t(1)]] by simp_all
  have p: "pool_inv (p\<lparr>futures := ?g\<rparr>)" using pool_inv_futures [OF i e s] .
  have "length (promises (futures p)) < length (promises ?g)"
    by (simp add: call_by_def Promise_ctor_def split_beta Let_def)
  moreover have "waits_for ?g w ds" using i Some x waits_for_extends [OF e] by (auto simp: pool_inv_def)
  ultimately show ?thesis
    using p t(2,3) Some x by (auto simp: Execute_end_def pool_inv_def task_ok_def)
qed

lemma workers_Execute_end [simp]: "workers (Execute_end p i) = workers p"
  by (simp add: Execute_end_def split: option.split prod.split)

lemma pool_work_inv:
  assumes "pool_work p p'" "pool_inv p"
  shows "pool_inv p'"
  using assms(1)
proof cases
  case (run_futures g)
  have "sys_inv (futures p)" using assms(2) by (simp add: pool_inv_def)
  then show ?thesis
    using run_futures pool_inv_futures [OF assms(2)] run_step_extends run_step_inv by blast
next
  case (finish_execute i p1 ws)
  then show ?thesis using Execute_end_inv [OF assms(2), of i] pool_inv_woken by blast
next
  case (loop i)
  then show ?thesis using loop_head_inv [OF assms(2)] by simp
next
  case (call_task i t)
  have h: "worker_ok (futures p) (Running t)" using assms(2) call_task(2,3) by (auto simp: pool_inv_def) (metis nth_mem)
  then have "task_promise t < length (promises (futures p))" by (simp add: worker_ok_def task_ok_def)
  then have c: "client_step (futures p) (Task_call (futures p) i t)"
    using idle_empty [OF call_task(4)] by (intro Task_call_step) auto
  then have e: "extends (futures p) (Task_call (futures p) i t)" by (rule client_step_extends)
  have p: "pool_inv (p\<lparr>futures := Task_call (futures p) i t\<rparr>)"
    using pool_inv_futures [OF assms(2) e] client_step_inv [OF c] assms(2) by (simp add: pool_inv_def)
  have "worker_ok (Task_call (futures p) i t) (Finishing t)"
    using worker_ok_extends [OF e h] by (simp add: worker_ok_def)
  moreover have "lock p \<noteq> Some i" using assms(2) call_task(2,3) by (auto simp: pool_inv_def)
  ultimately show ?thesis
    using pool_inv_worker [OF p, of "Finishing t" i] call_task(1) by (simp add: run_task_def)
next
  case (finish_task i t ws)
  have "worker_ok (futures p) (Finishing t)"
    using assms(2) finish_task(2,3) by (auto simp: pool_inv_def) (metis nth_mem)
  then have o: "op_ok (futures p) (DestroyPromise (task_promise t))" by (simp add: worker_ok_def task_ok_def)
  let ?p = "p\<lparr>workers := ws\<rparr>"
  have l: "length ws = length (workers p)" using finish_task(6) by (auto simp: woken_def dest: list_all2_lengthD)
  have p: "pool_inv ?p" using pool_inv_woken [OF assms(2) finish_task(6)] .
  let ?g = "fst (call_by (futures p) i (DestroyPromise (task_promise t)))"
  have c: "extends (futures p) ?g" "sys_inv ?g" using call_by_ok [OF assms(2) disjI1 [OF finish_task(5)] o] by simp_all
  have q: "pool_inv (?p\<lparr>futures := ?g\<rparr>)" using pool_inv_futures [OF p] c by simp
  have "i < length (agendas ?g)"
    using idle_empty [OF finish_task(5)] c(1) by (simp add: extends_def)
  moreover have "(ws[i := Retiring] ! j = Retiring) = (j = i)" if "j < length ws" for j
    using q finish_task(4) that l by (cases "j = i") (auto simp: pool_inv_def)
  moreover have "worker_ok ?g x" if "x \<in> set (ws[i := Retiring])" for x
    using q that by (auto simp: pool_inv_def worker_ok_def dest!: set_update_subset_insert [THEN subsetD])
  ultimately show ?thesis
    using q finish_task(1) by (auto simp: retire_task_def pool_inv_def)
next
  case (unlock i)
  have "worker_ok (futures p) AtLoop" by (simp add: worker_ok_def)
  then have "\<forall>x \<in> set ((workers p)[i := AtLoop]). worker_ok (futures p) x"
    using assms(2) by (auto simp: pool_inv_def dest!: set_update_subset_insert [THEN subsetD])
  moreover have "(workers p)[i := AtLoop] ! j \<noteq> Retiring" if "j < length (workers p)" for j
    using assms(2) unlock that by (cases "j = i") (auto simp: pool_inv_def)
  ultimately show ?thesis using assms(2) unlock by (auto simp: pool_inv_def)
next
  case (timeout i)
  have "lock p \<noteq> Some i" using assms(2) timeout(2,3) by (auto simp: pool_inv_def)
  then show ?thesis
    using timeout pool_inv_worker [OF assms(2), of AtLoop i] by (simp add: worker_ok_def)
qed

lemma destroy_front_inv:
  assumes i: "pool_inv p" and t: "idle p i"
  shows "pool_inv (destroy_front p i)"
proof (cases "tasks p")
  case (Cons x ts)
  have o: "op_ok (futures p) (DestroyPromise (task_promise x))"
    using i Cons by (simp add: pool_inv_def task_ok_def)
  note c = call_by_ok [OF i disjI1 [OF t] o]
  show ?thesis
    using pool_inv_futures [OF i c] Cons by (auto simp: destroy_front_def pool_inv_def)
qed (use i in \<open>simp add: destroy_front_def\<close>)

lemma pool_use_inv:
  assumes "pool_use p p'" "pool_inv p"
  shows "pool_inv p'"
  using assms(1)
proof cases
  case (use_futures i x)
  then show ?thesis
    using pool_inv_futures [OF assms(2) call_by_ok [OF assms(2) disjI2 [OF use_futures(2)] use_futures(3)]] by simp
next
  case (execute i deps f void)
  then show ?thesis using Execute_begin_inv [OF assms(2)] by simp
next
  case shut_down
  then show ?thesis
    using pool_inv_woken [OF assms(2) woken_wake_all]
    by (simp add: ShutdownNotifyThreads_def pool_inv_def)
next
  case (destroy i)
  then show ?thesis using destroy_front_inv [OF assms(2)] by simp
qed

lemma ctor_inv: "pool_inv (StaticThreadPool_ctor n m)"
  by (auto simp: StaticThreadPool_ctor_def pool_inv_def start_inv worker_ok_def) (simp add: start_def)

lemma pool_reachable_inv: "pool_reachable n m p \<Longrightarrow> pool_inv p"
  unfolding pool_reachable_def
  by (induction rule: rtranclp_induct)
    (auto simp: ctor_inv pool_step_def intro: pool_work_inv pool_use_inv)

text \<open>A worker leaves the loop only after the shutdown has begun.\<close>

definition exits_ok :: "('v, 'e) pool \<Rightarrow> bool" where
  "exits_ok p \<longleftrightarrow> (\<not> shutdownInitiated p \<longrightarrow> Exited \<notin> set (workers p))"

lemma woken_exited: "woken n ws ws' \<Longrightarrow> Exited \<in> set ws' \<longleftrightarrow> Exited \<in> set ws"
proof -
  assume w: "woken n ws ws'"
  then have "length ws' = length ws" by (rule woken_length)
  moreover have "ws' ! j = Exited \<longleftrightarrow> ws ! j = Exited" if "j < length ws" for j
    using woken_nth [OF w that] by auto
  ultimately show ?thesis by (metis in_set_conv_nth)
qed

lemma pool_step_exits:
  assumes "pool_step p p'" "exits_ok p"
  shows "exits_ok p'"
proof -
  have "pool_work p p' \<Longrightarrow> exits_ok p'"
  proof (erule pool_work.cases, goal_cases)
    case (2 p1 i p2 ws)
    then show ?case
      using assms(2) woken_exited [of _ "workers p2" ws] by (auto simp: exits_ok_def Execute_end_def split: option.splits)
  next
    case (5 i p1 t ws)
    then show ?case
      using assms(2) woken_exited [of _ "workers p1" ws]
      by (auto simp: exits_ok_def retire_task_def dest!: set_update_subset_insert [THEN subsetD])
  qed (use assms(2) in \<open>auto simp: exits_ok_def loop_head_def run_task_def split: option.splits
        dest!: set_update_subset_insert [THEN subsetD]\<close>)
  moreover have "pool_use p p' \<Longrightarrow> exits_ok p'"
    by (erule pool_use.cases)
      (use assms(2) in \<open>auto simp: exits_ok_def Execute_begin_def ShutdownNotifyThreads_def destroy_front_def
        split: list.splits prod.splits\<close>)
  ultimately show ?thesis using assms(1) by (auto simp: pool_step_def)
qed

lemma ctor_exits: "exits_ok (StaticThreadPool_ctor n m)"
  by (auto simp: exits_ok_def StaticThreadPool_ctor_def)

lemma pool_reachable_exits: "pool_reachable n m p \<Longrightarrow> exits_ok p"
  unfolding pool_reachable_def
  by (induction rule: rtranclp_induct)
    (auto intro: pool_step_exits ctor_exits)

section \<open>Progress\<close>

text \<open>What the pool's own work keeps: no new task is started, nothing is removed.\<close>

definition later :: "('v, 'e) pool \<Rightarrow> ('v, 'e) pool \<Rightarrow> bool" where
  "later p p' \<longleftrightarrow>
     extends (futures p) (futures p') \<and> (\<exists>more. tasks p' = tasks p @ more) \<and>
     started p' = started p \<and> shutdownInitiated p' = shutdownInitiated p \<and>
     length (workers p') = length (workers p)"

lemma later_refl [simp]: "later p p"
  by (simp add: later_def)

lemma later_trans: "later p q \<Longrightarrow> later q r \<Longrightarrow> later p r"
  by (auto simp: later_def intro: extends_trans)

definition phase :: "('v, 'e) worker \<Rightarrow> nat" where
  "phase w = (case w of Running t \<Rightarrow> 3 | Finishing t \<Rightarrow> 2 | _ \<Rightarrow> 0)"

definition busy :: "('v, 'e) pool \<Rightarrow> nat" where
  "busy p = sum_list (map phase (workers p)) + (if lock p = None then 0 else 1)"

lemma runs_extend:
  assumes "run_step\<^sup>*\<^sup>* g g'" "sys_inv g"
  shows "extends g g' \<and> sys_inv g'"
  using assms
  by (induction rule: rtranclp_induct) (auto intro: extends_trans run_step_extends run_step_inv)

lemma quiesce:
  assumes "pool_inv p"
  shows "\<exists>p'. pool_work\<^sup>*\<^sup>* p p' \<and> pool_inv p' \<and> later p p' \<and> workers p' = workers p \<and>
    lock p' = lock p \<and> (\<forall>i < length (agendas (futures p')). idle p' i)"
proof -
  have "sys_inv (futures p)" using assms by (simp add: pool_inv_def)
  then obtain g where g: "run_step\<^sup>*\<^sup>* (futures p) g" "quiescent g" using runs_to_quiescence by blast
  have "pool_work\<^sup>*\<^sup>* p (p\<lparr>futures := g\<rparr>)"
    using g(1)
  proof (induction rule: rtranclp_induct)
    case (step g1 g2)
    have "pool_work (p\<lparr>futures := g1\<rparr>) (p\<lparr>futures := g2\<rparr>)"
      using run_futures [of "p\<lparr>futures := g1\<rparr>" g2] step(2) by simp
    then show ?case using step(3) by simp
  qed simp
  moreover have e: "extends (futures p) g" "sys_inv g"
    using runs_extend [OF g(1) \<open>sys_inv (futures p)\<close>] by simp_all
  ultimately show ?thesis
    using pool_inv_futures [OF assms e] g(2)
    by (intro exI [of _ "p\<lparr>futures := g\<rparr>"]) (auto simp: later_def quiescent_def idle_def)
qed

lemma sum_phase_update:
  "i < length ws \<Longrightarrow> sum_list (map phase (ws[i := w])) + phase (ws ! i) = sum_list (map phase ws) + phase w"
  by (rule sum_list_map_update)

lemma woken_phase: "woken n ws ws' \<Longrightarrow> map phase ws' = map phase ws"
proof -
  assume w: "woken n ws ws'"
  then have "length ws' = length ws" by (rule woken_length)
  then show ?thesis
    using woken_nth [OF w] by (intro nth_equalityI) (fastforce simp: phase_def)+
qed

text \<open>Some of the waiting workers can always be chosen for the notifications.\<close>

lemma woken_exists: "\<exists>ws'. woken n ws ws'"
proof (induction ws arbitrary: n)
  case (Cons w ws)
  show ?case
  proof (cases "is_waiting w \<and> 0 < n")
    case True
    obtain ws' where "woken (n - 1) ws ws'" using Cons by blast
    then have "woken n (w # ws) (AtLoop # ws')"
      using True by (auto simp: woken_def) (simp add: is_waiting_def)
    then show ?thesis by blast
  next
    case False
    obtain ws' where "woken n ws ws'" using Cons by blast
    then have "woken n (w # ws) (w # ws')" if "\<not> is_waiting w"
      using that by (auto simp: woken_def)
    moreover have "woken n (w # ws) (w # ws)" if "n = 0" using that by simp
    ultimately show ?thesis using False by blast
  qed
next
  case Nil
  have "woken n [] []" by (simp add: woken_def)
  then show ?case by blast
qed

lemma busy_worker:
  assumes "i < length (workers p)"
  shows "busy (p\<lparr>workers := (workers p)[i := w]\<rparr>) + phase (workers p ! i) = busy p + phase w"
  using sum_phase_update [OF assms, of w] by (simp add: busy_def)

text \<open>One action of a busy pool whose threads have no work on futures left.\<close>

lemma busy_step:
  assumes i: "pool_inv p" and b: "0 < busy p" and q: "\<forall>i < length (agendas (futures p)). idle p i"
  shows "\<exists>p'. pool_work p p' \<and> later p p' \<and> busy p' < busy p"
proof -
  consider (locked) j where "lock p = Some j"
    | (running) j t where "lock p = None" "j < length (workers p)" "workers p ! j = Running t"
    | (finishing) j t where "lock p = None" "j < length (workers p)" "workers p ! j = Finishing t"
  proof (cases "lock p")
    case None
    then have "0 < sum_list (map phase (workers p))" using b by (simp add: busy_def)
    then obtain w where w: "w \<in> set (workers p)" "0 < phase w" using sum_list_pos_member by blast
    from w(1) obtain j where j: "j < length (workers p)" "workers p ! j = w" by (auto simp: in_set_conv_nth)
    have "(\<exists>t. w = Running t) \<or> (\<exists>t. w = Finishing t)"
      using w(2) by (auto simp: phase_def split: worker.splits)
    then show ?thesis using None j that(2,3) by blast
  qed (use that(1) in blast)
  then show ?thesis
  proof cases
    case locked
    then have j: "idle p j" using i q by (simp add: pool_inv_def)
    show ?thesis
    proof (cases "j < length (workers p)")
      case True
      then have r: "workers p ! j = Retiring" using i locked by (simp add: pool_inv_def)
      let ?p = "p\<lparr>lock := None, workers := (workers p)[j := AtLoop]\<rparr>"
      have "busy ?p < busy p"
        using busy_worker [OF True, of AtLoop] r locked by (simp add: busy_def phase_def)
      then show ?thesis using unlock [OF True r locked j] by (intro exI [of _ ?p]) (simp add: later_def)
    next
      case False
      obtain ws where ws: "woken (case submission p of None \<Rightarrow> 0 | Some x \<Rightarrow> 1) (workers p) ws"
        using woken_exists by blast
      let ?p = "(Execute_end p j)\<lparr>workers := ws\<rparr>"
      have "pool_work p ?p" using finish_execute [OF locked _ j refl] ws False by simp
      moreover have "busy ?p < busy p"
        using woken_phase [OF ws] locked
        by (simp add: busy_def Execute_end_def split: option.split prod.split)
      moreover have "later p ?p"
        using woken_length [OF ws] call_by_ok(1) [OF i disjI1 [OF j]]
        by (auto simp: later_def Execute_end_def split: option.split)
      ultimately show ?thesis by blast
    qed
  next
    case running
    have j: "idle p j" using i q running(2) by (auto simp: pool_inv_def)
    let ?p = "run_task p j t"
    have "worker_ok (futures p) (Running t)" using i running(2,3) by (auto simp: pool_inv_def) (metis nth_mem)
    then have "task_promise t < length (promises (futures p))" by (simp add: worker_ok_def task_ok_def)
    then have "extends (futures p) (Task_call (futures p) j t)"
      using idle_empty [OF j] by (intro client_step_extends Task_call_step) auto
    moreover have "busy ?p < busy p"
      using busy_worker [OF running(2), of "Finishing t"] running(3)
      by (simp add: run_task_def busy_def phase_def)
    ultimately show ?thesis
      using call_task [OF running(2,3) j] by (intro exI [of _ ?p]) (simp add: later_def run_task_def)
  next
    case finishing
    have j: "idle p j" using i q finishing(2) by (auto simp: pool_inv_def)
    have "worker_ok (futures p) (Finishing t)" using i finishing(2,3) by (auto simp: pool_inv_def) (metis nth_mem)
    then have o: "op_ok (futures p) (DestroyPromise (task_promise t))" by (simp add: worker_ok_def task_ok_def)
    obtain ws where ws: "woken (notifications p t) (workers p) ws" using woken_exists by blast
    let ?p = "retire_task (p\<lparr>workers := ws\<rparr>) j t"
    have "pool_work p ?p" using finish_task [OF finishing(2,3,1) j ws] .
    moreover have "busy ?p < busy p"
    proof -
      have l: "j < length ws" using finishing(2) woken_length [OF ws] by simp
      have "phase (ws ! j) = phase (workers p ! j)"
        using woken_phase [OF ws] l finishing(2) woken_length [OF ws] by (metis nth_map)
      then have "sum_list (map phase (ws[j := Retiring])) + 2 = sum_list (map phase (workers p))"
        using sum_phase_update [OF l, of Retiring] woken_phase [OF ws] finishing(3) by (simp add: phase_def)
      then show ?thesis using finishing(1) by (simp add: busy_def retire_task_def)
    qed
    moreover have "later p ?p"
      using woken_length [OF ws] call_by_ok(1) [OF i disjI1 [OF j] o] by (simp add: later_def retire_task_def)
    ultimately show ?thesis by blast
  qed
qed

text \<open>The pool comes to rest: no lock, no work on futures, every worker before the loop test, waiting or gone.\<close>

lemma drain:
  assumes "pool_inv p"
  shows "\<exists>p'. pool_work\<^sup>*\<^sup>* p p' \<and> pool_inv p' \<and> later p p' \<and> busy p' = 0 \<and>
    (\<forall>i < length (agendas (futures p')). idle p' i)"
  using assms
proof (induction "busy p" arbitrary: p rule: less_induct)
  case less
  obtain q where q: "pool_work\<^sup>*\<^sup>* p q" "pool_inv q" "later p q" "workers q = workers p" "lock q = lock p"
    "\<forall>i < length (agendas (futures q)). idle q i" using quiesce [OF less(2)] by blast
  have b: "busy q = busy p" using q(4,5) by (simp add: busy_def)
  show ?case
  proof (cases "busy p = 0")
    case True
    then show ?thesis using q b by auto
  next
    case False
    then obtain r where r: "pool_work q r" "later q r" "busy r < busy q" using busy_step [OF q(2) _ q(6)] b by auto
    then obtain p' where "pool_work\<^sup>*\<^sup>* r p'" "pool_inv p'" "later r p'" "busy p' = 0"
      "\<forall>i < length (agendas (futures p')). idle p' i"
      using less(1) [of r] b pool_work_inv [OF r(1) q(2)] by auto
    then show ?thesis
      using q(1,3) r(1,2) later_trans by (meson rtranclp.rtrancl_into_rtrancl rtranclp_trans)
  qed
qed

end
