(* ===== verification/Pool_Properties.thy ===== *)
theory Pool_Properties
  imports Thread_Pool Future_Properties
begin

text \<open>
  The properties of tasks and of the thread pool: for any number of workers and other threads, any
  program that uses the pool and the futures, and any interleaving.
\<close>

section \<open>Phases of a pool at rest\<close>





section \<open>Schedules\<close>

datatype ('v, 'e) pool_move =
    Futures nat
  | EndExecute nat
  | LoopHead nat
  | CallTask nat
  | FinishTask nat
  | Unlock nat
  | Timeout nat
  | Use nat "('v, 'e) client_op"
  | Execute nat "'e exn + 'v option" bool "handle list"
  | Shutdown
  | Destroy nat

text \<open>The notifications of a schedule wake the first waiting workers.\<close>

fun wake_first :: "nat \<Rightarrow> ('v, 'e) worker list \<Rightarrow> ('v, 'e) worker list" where
  "wake_first n [] = []"
| "wake_first n (w # ws) =
     (if is_waiting w \<and> 0 < n then AtLoop # wake_first (n - 1) ws else w # wake_first n ws)"

lemma woken_wake_first: "woken n ws (wake_first n ws)"
proof (induction n ws rule: wake_first.induct)
  case (2 n w ws)
  show ?case
  proof (cases "is_waiting w \<and> 0 < n")
    case True
    then show ?thesis using 2 by (auto simp: woken_def) (simp add: is_waiting_def)
  next
    case False
    then show ?thesis using 2 by (cases n) (auto simp: woken_def list_all2_refl)
  qed
qed (simp add: woken_def)

fun move_pool :: "('v, 'e) pool \<Rightarrow> ('v, 'e) pool_move \<Rightarrow> ('v, 'e) pool" where
  "move_pool p (Futures i) = p\<lparr>futures := play_move (futures p) (Run i)\<rparr>"
| "move_pool p (EndExecute i) =
     (if lock p = Some i \<and> length (workers p) \<le> i \<and> idle p i
      then (Execute_end p i)\<lparr>workers :=
        wake_first (case submission p of None \<Rightarrow> 0 | Some x \<Rightarrow> 1) (workers (Execute_end p i))\<rparr> else p)"
| "move_pool p (LoopHead i) =
     (if i < length (workers p) \<and> lock p = None \<and> idle p i
      then (case workers p ! i of AtLoop \<Rightarrow> loop_head p i | _ \<Rightarrow> p) else p)"
| "move_pool p (CallTask i) =
     (if i < length (workers p) \<and> idle p i
      then (case workers p ! i of Running t \<Rightarrow> run_task p i t | _ \<Rightarrow> p) else p)"
| "move_pool p (FinishTask i) =
     (if i < length (workers p) \<and> lock p = None \<and> idle p i
      then (case workers p ! i of
              Finishing t \<Rightarrow> retire_task (p\<lparr>workers := wake_first (notifications p t) (workers p)\<rparr>) i t
            | _ \<Rightarrow> p) else p)"
| "move_pool p (Unlock i) =
     (if i < length (workers p) \<and> lock p = Some i \<and> idle p i
      then (case workers p ! i of
              Retiring \<Rightarrow> p\<lparr>lock := None, workers := (workers p)[i := AtLoop]\<rparr> | _ \<Rightarrow> p) else p)"
| "move_pool p (Timeout i) =
     (if i < length (workers p)
      then (case workers p ! i of Waiting \<Rightarrow> p\<lparr>workers := (workers p)[i := AtLoop]\<rparr> | _ \<Rightarrow> p) else p)"
| "move_pool p (Use i x) =
     (if in_user_code p i \<and> op_ok (futures p) x
      then p\<lparr>futures := fst (call_by (futures p) i x)\<rparr> else p)"
| "move_pool p (Execute i f void deps) =
     (if length (workers p) \<le> i \<and> idle p i \<and> lock p = None \<and> \<not> shutdownInitiated p \<and>
         op_ok (futures p) (CallWhenAll deps)
      then Execute_begin p i f void deps else p)"
| "move_pool p Shutdown = (if lock p = None then ShutdownNotifyThreads p else p)"
| "move_pool p (Destroy i) =
     (if length (workers p) \<le> i \<and> idle p i \<and> shutdownInitiated p \<and> lock p = None \<and>
         list_all (\<lambda>w. w = Exited) (workers p)
      then destroy_front p i else p)"

fun pool_play :: "('v, 'e) pool \<Rightarrow> ('v, 'e) pool_move list \<Rightarrow> ('v, 'e) pool" where
  "pool_play p [] = p"
| "pool_play p (x # xs) = pool_play (move_pool p x) xs"

lemma play_move_run: "play_move g (Run i) = g \<or> run_step g (play_move g (Run i))"
  using run_stepI [of i g] by (auto split: list.split prod.split)

lemma move_pool_steps: "move_pool p x = p \<or> pool_step p (move_pool p x)"
proof (cases x)
  case (Futures i)
  have "p\<lparr>futures := futures p\<rparr> = p" by simp
  then show ?thesis
    using Futures play_move_run [of "futures p" i] run_futures [of p]
    by (auto simp: pool_step_def simp del: play_move.simps)
next
  case (EndExecute i)
  then show ?thesis
    using finish_execute [of p i "Execute_end p i", OF _ _ _ refl woken_wake_first]
    by (auto simp: pool_step_def)
next
  case (LoopHead i)
  then show ?thesis using loop [of i p] by (auto simp: pool_step_def split: worker.split)
next
  case (CallTask i)
  then show ?thesis using call_task [of i p] by (auto simp: pool_step_def split: worker.split)
next
  case (FinishTask i)
  then show ?thesis
    using finish_task [of i p, OF _ _ _ _ woken_wake_first] by (auto simp: pool_step_def split: worker.split)
next
  case (Unlock i)
  then show ?thesis using unlock [of i p] by (auto simp: pool_step_def split: worker.split)
next
  case (Timeout i)
  then show ?thesis using timeout [of i p] by (auto simp: pool_step_def split: worker.split)
next
  case (Use i y)
  then show ?thesis using use_futures [of p i y] by (auto simp: pool_step_def)
next
  case (Execute i f v deps)
  then show ?thesis using execute [of p i deps f v] by (auto simp: pool_step_def)
next
  case Shutdown
  then show ?thesis using shut_down [of p] by (auto simp: pool_step_def)
next
  case (Destroy i)
  then show ?thesis using destroy [of p i] by (auto simp: pool_step_def)
qed

lemma pool_play_steps: "pool_step\<^sup>*\<^sup>* p (pool_play p xs)"
proof (induction p xs rule: pool_play.induct)
  case (2 p x xs)
  then show ?case using move_pool_steps [of p x] by (auto intro: converse_rtranclp_into_rtranclp)
qed simp

lemma pool_play_reachable: "pool_reachable n m (pool_play (StaticThreadPool_ctor n m) xs)"
  by (simp add: pool_reachable_def pool_play_steps)

section \<open>Properties\<close>

text \<open>
  Example runs with one worker (thread 0) and one further thread (thread 1): a task that awaits a
  promise is submitted and, when the promise is kept, taken by the worker; and a pool that is shut
  down before the promise is kept.
\<close>

definition submitted_run :: "(nat, nat) pool" where
  "submitted_run = pool_play (StaticThreadPool_ctor 1 1)
     [Use 1 (NewPromise False), Execute 1 (Inr (Some 7)) False [Some 0], Futures 1, Futures 1, Futures 1,
      EndExecute 1, LoopHead 0]"

definition ready_run :: "(nat, nat) pool" where
  "ready_run = pool_play submitted_run
     [Use 1 (PromiseSetValue 0 (Some 1)), Futures 1, Futures 1, Futures 1, Futures 1, Futures 1]"

definition running_run :: "(nat, nat) pool" where
  "running_run = pool_play ready_run [Timeout 0, LoopHead 0]"


lemma pool_play_append: "pool_play p (xs @ ys) = pool_play (pool_play p xs) ys"
  by (induction p xs rule: pool_play.induct) simp_all

lemma submitted_run_reachable: "pool_reachable 1 1 submitted_run"
  unfolding submitted_run_def by (rule pool_play_reachable)

lemma pool_reachable_play: "pool_reachable n m p \<Longrightarrow> pool_reachable n m (pool_play p xs)"
  unfolding pool_reachable_def using pool_play_steps by (metis rtranclp_trans)

lemma ready_run_reachable: "pool_reachable 1 1 ready_run"
  unfolding ready_run_def by (rule pool_reachable_play [OF submitted_run_reachable])

lemma running_run_reachable: "pool_reachable 1 1 running_run"
  unfolding running_run_def by (rule pool_reachable_play [OF ready_run_reachable])


definition example_task :: "(nat, nat) task" where
  "example_task = \<lparr>dependency = Some 1, task_func = Inr (Some 7), task_promise = 1, task_id = 0, awaits = [0]\<rparr>"

text \<open>
  C2. A worker only calls the function of a task when every future the task was submitted with is
  set, whatever happens to the futures meanwhile.
\<close>

theorem task_runs_after_its_dependencies:
  assumes "pool_reachable n m p" "i < length (workers p)" "workers p ! i = Running t" "s \<in> set (awaits t)"
  shows "is_set (heap (futures p)) s"
proof -
  have "worker_ok (futures p) (Running t)"
    using pool_reachable_inv [OF assms(1)] assms(2,3) by (auto simp: pool_inv_def) (metis nth_mem)
  then show ?thesis using assms(4) by (simp add: worker_ok_def)
qed

theorem task_runs_after_its_dependencies_witness:
  "workers running_run ! 0 = Running example_task \<and> is_set (heap (futures running_run)) 0"
proof -
  have w: "workers running_run ! 0 = Running example_task" by code_simp
  have l: "0 < length (workers running_run)" by code_simp
  have "0 \<in> set (awaits example_task)" by (simp add: example_task_def)
  then show ?thesis using task_runs_after_its_dependencies [OF running_run_reachable l w] w by blast
qed

text \<open>
  C9. Every submitted task is in exactly one place: in the list, started or destroyed unstarted. No
  task is started twice, and none is both started and destroyed unstarted.
\<close>

theorem every_task_at_most_once:
  assumes "pool_reachable n m p"
  shows "distinct (map task_id (tasks p) @ started p @ discarded p) \<and>
    set (map task_id (tasks p) @ started p @ discarded p) = {0..<submitted p}"
proof -
  have m: "mset (map task_id (tasks p) @ started p @ discarded p) = mset [0..<submitted p]"
    using pool_reachable_inv [OF assms] by (simp add: pool_inv_def ac_simps)
  then show ?thesis using mset_eq_imp_distinct_iff [OF m] mset_eq_setD [OF m] by simp
qed

theorem every_task_at_most_once_witness:
  "distinct (map task_id (tasks running_run) @ started running_run @ discarded running_run) \<and>
   started running_run = [0]"
proof -
  have "started running_run = [0]" by code_simp
  then show ?thesis using every_task_at_most_once [OF running_run_reachable] by simp
qed

text \<open>
  The pool takes the first ready task: every task before it in the list is not ready, the order
  of the others is kept; and it takes none only when none is ready.
\<close>

theorem NextTask_first_ready:
  "(NextTask h ts = Some (t, rest) \<longleftrightarrow>
     (\<exists>xs ys. ts = xs @ t # ys \<and> rest = xs @ ys \<and> TaskBase_IsReady h t \<and>
        (\<forall>x \<in> set xs. \<not> TaskBase_IsReady h x))) \<and>
   (NextTask h ts = None \<longleftrightarrow> (\<forall>x \<in> set ts. \<not> TaskBase_IsReady h x))"
  using NextTask_Some [of h ts t rest] NextTask_None [of h ts] by blast

theorem NextTask_first_ready_witness:
  "\<not> TaskBase_IsReady (heap (futures submitted_run)) example_task \<and>
   NextTask (heap (futures submitted_run)) [example_task, example_task\<lparr>dependency := None\<rparr>] =
     Some (example_task\<lparr>dependency := None\<rparr>, [example_task])"
proof -
  let ?h = "heap (futures submitted_run)"
  have n: "\<not> TaskBase_IsReady ?h example_task" by code_simp
  have r: "TaskBase_IsReady ?h (example_task\<lparr>dependency := None\<rparr>)" by code_simp
  have "[example_task, example_task\<lparr>dependency := None\<rparr>] = [example_task] @ example_task\<lparr>dependency := None\<rparr> # []"
    by simp
  then have "NextTask ?h [example_task, example_task\<lparr>dependency := None\<rparr>] =
      Some (example_task\<lparr>dependency := None\<rparr>, [example_task])"
    using n r by (subst NextTask_first_ready [THEN conjunct1])
      (rule exI [of _ "[example_task]"], rule exI [of _ "[]"], simp)
  then show ?thesis using n by blast
qed








text \<open>
  The call of a task: its future gets the result of the function, or the exception the
  function threw, and the worker goes on with the continuations of that future.
\<close>

theorem Task_call_sets_result:
  assumes "promises g ! task_promise t = Some s" "s < length (states (heap g))" "\<not> is_set (heap g) s"
    "i < length (agendas g)" "stored (states (heap g) ! s) = None"
  shows "Get (heap (Task_call g i t)) s =
      (case task_func t of
         Inl e \<Rightarrow> Throws e
       | Inr v \<Rightarrow> Returns (if is_void (states (heap g) ! s) then None else v)) \<and>
    agendas (Task_call g i t) ! i = run_continuations (heap g) s @ agendas g ! i"
  using assms
  by (cases "task_func t")
    (auto simp: Task_call_def call_by_def Promise_SetValue_def Promise_SetException_def Check_def
      SetValue_def SetValue_void_def SetException_def is_set_def Get_def)

theorem Task_call_sets_result_witness:
  "Get (heap (Task_call (futures running_run) 0 example_task)) 3 = Returns (Some 7)"
proof -
  let ?g = "futures running_run"
  have p: "promises ?g ! 1 = Some 3" by code_simp
  have l: "3 < length (states (heap ?g))" by code_simp
  have u: "\<not> is_set (heap ?g) 3" by code_simp
  have a: "0 < length (agendas ?g)" by code_simp
  have s: "stored (states (heap ?g) ! 3) = None" by code_simp
  have v: "\<not> is_void (states (heap ?g) ! 3)" by code_simp
  show ?thesis
    using Task_call_sets_result [of ?g example_task 3 0] p l u a s v by (simp add: example_task_def)
qed

end
