(* ===== verification/Cl_Vector.thy ===== *)
theory Cl_Vector
  imports Azul_Prelude
begin

text \<open>
  \<open>include/azul/compute/clcpp/OpenClVector.hpp\<close>: the vectors \<open>Vec2\<close> and \<open>Vec4\<close>, for the unsigned
  component types of at least 32 bits, such as those of \<open>uint2\<close> and \<open>uint4\<close>: a component is a word, whose
  sums and products wrap and whose division by zero is undefined. Theory \<open>Cl_Vector_Types\<close> has the other
  component types. The compound assignments take their factor by reference, and the reference
  may be to a component of the vector that is assigned to.
\<close>

section \<open>Vec2\<close>

record 'a Vec2 =
  x2 :: 'a
  y2 :: 'a

definition Vec2_default :: "'n::len word Vec2" where
  "Vec2_default = \<lparr>x2 = 0, y2 = 0\<rparr>"

definition Vec2_ctor :: "'n word \<Rightarrow> 'n word \<Rightarrow> 'n::len word Vec2" where
  "Vec2_ctor x y = \<lparr>x2 = x, y2 = y\<rparr>"

text \<open>A reference to a value: to an object elsewhere, or to a component of the vector itself.\<close>

datatype 'a ref2 = Elsewhere2 'a | RefX2 | RefY2

fun deref2 :: "'n::len word Vec2 \<Rightarrow> 'n word ref2 \<Rightarrow> 'n word" where
  "deref2 v (Elsewhere2 c) = c"
| "deref2 v RefX2 = x2 v"
| "deref2 v RefY2 = y2 v"

definition Vec2_add_assign :: "'n::len word Vec2 \<Rightarrow> 'n word Vec2 \<Rightarrow> 'n word Vec2" where
  "Vec2_add_assign v other = (let v = v\<lparr>x2 := x2 v + x2 other\<rparr> in v\<lparr>y2 := y2 v + y2 other\<rparr>)"

definition Vec2_add :: "'n::len word Vec2 \<Rightarrow> 'n word Vec2 \<Rightarrow> 'n word Vec2" where
  "Vec2_add v other = Vec2_ctor (x2 v + x2 other) (y2 v + y2 other)"

definition Vec2_sub_assign :: "'n::len word Vec2 \<Rightarrow> 'n word Vec2 \<Rightarrow> 'n word Vec2" where
  "Vec2_sub_assign v other = (let v = v\<lparr>x2 := x2 v - x2 other\<rparr> in v\<lparr>y2 := y2 v - y2 other\<rparr>)"

definition Vec2_sub :: "'n::len word Vec2 \<Rightarrow> 'n word Vec2 \<Rightarrow> 'n word Vec2" where
  "Vec2_sub v other = Vec2_ctor (x2 v - x2 other) (y2 v - y2 other)"

definition Vec2_mul_assign :: "'n::len word Vec2 \<Rightarrow> 'n word ref2 \<Rightarrow> 'n word Vec2" where
  "Vec2_mul_assign v factor =
     (let v = v\<lparr>x2 := x2 v * deref2 v factor\<rparr> in v\<lparr>y2 := y2 v * deref2 v factor\<rparr>)"

definition Vec2_mul :: "'n::len word Vec2 \<Rightarrow> 'n word ref2 \<Rightarrow> 'n word Vec2" where
  "Vec2_mul v factor = Vec2_ctor (x2 v * deref2 v factor) (y2 v * deref2 v factor)"

definition Vec2_div_assign :: "'n::len word Vec2 \<Rightarrow> 'n word ref2 \<Rightarrow> cpp_error + 'n word Vec2" where
  "Vec2_div_assign v factor =
     (case udiv (x2 v) (deref2 v factor) of
        Inl e \<Rightarrow> Inl e
      | Inr x \<Rightarrow>
          (let v = v\<lparr>x2 := x\<rparr> in
           case udiv (y2 v) (deref2 v factor) of Inl e \<Rightarrow> Inl e | Inr y \<Rightarrow> Inr (v\<lparr>y2 := y\<rparr>)))"

definition Vec2_div :: "'n::len word Vec2 \<Rightarrow> 'n word ref2 \<Rightarrow> cpp_error + 'n word Vec2" where
  "Vec2_div v factor =
     (case udiv (x2 v) (deref2 v factor) of
        Inl e \<Rightarrow> Inl e
      | Inr x \<Rightarrow> (case udiv (y2 v) (deref2 v factor) of Inl e \<Rightarrow> Inl e | Inr y \<Rightarrow> Inr (Vec2_ctor x y)))"

definition Vec2_eq :: "'n::len word Vec2 \<Rightarrow> 'n word Vec2 \<Rightarrow> bool" where
  "Vec2_eq v other = (x2 v = x2 other \<and> y2 v = y2 other)"

definition Vec2_neq :: "'n::len word Vec2 \<Rightarrow> 'n word Vec2 \<Rightarrow> bool" where
  "Vec2_neq v other = (\<not> Vec2_eq v other)"

section \<open>Vec4\<close>

record 'a Vec4 =
  x4 :: 'a
  y4 :: 'a
  z4 :: 'a
  w4 :: 'a

definition Vec4_default :: "'n::len word Vec4" where
  "Vec4_default = \<lparr>x4 = 0, y4 = 0, z4 = 0, w4 = 0\<rparr>"

definition Vec4_ctor :: "'n word \<Rightarrow> 'n word \<Rightarrow> 'n word \<Rightarrow> 'n word \<Rightarrow> 'n::len word Vec4" where
  "Vec4_ctor x y z w = \<lparr>x4 = x, y4 = y, z4 = z, w4 = w\<rparr>"

datatype 'a ref4 = Elsewhere4 'a | RefX4 | RefY4 | RefZ4 | RefW4

fun deref4 :: "'n::len word Vec4 \<Rightarrow> 'n word ref4 \<Rightarrow> 'n word" where
  "deref4 v (Elsewhere4 c) = c"
| "deref4 v RefX4 = x4 v"
| "deref4 v RefY4 = y4 v"
| "deref4 v RefZ4 = z4 v"
| "deref4 v RefW4 = w4 v"

definition Vec4_add_assign :: "'n::len word Vec4 \<Rightarrow> 'n word Vec4 \<Rightarrow> 'n word Vec4" where
  "Vec4_add_assign v other =
     (let v = v\<lparr>x4 := x4 v + x4 other\<rparr>; v = v\<lparr>y4 := y4 v + y4 other\<rparr>;
          v = v\<lparr>z4 := z4 v + z4 other\<rparr> in v\<lparr>w4 := w4 v + w4 other\<rparr>)"

definition Vec4_add :: "'n::len word Vec4 \<Rightarrow> 'n word Vec4 \<Rightarrow> 'n word Vec4" where
  "Vec4_add v other =
     Vec4_ctor (x4 v + x4 other) (y4 v + y4 other) (z4 v + z4 other) (w4 v + w4 other)"

definition Vec4_sub_assign :: "'n::len word Vec4 \<Rightarrow> 'n word Vec4 \<Rightarrow> 'n word Vec4" where
  "Vec4_sub_assign v other =
     (let v = v\<lparr>x4 := x4 v - x4 other\<rparr>; v = v\<lparr>y4 := y4 v - y4 other\<rparr>;
          v = v\<lparr>z4 := z4 v - z4 other\<rparr> in v\<lparr>w4 := w4 v - w4 other\<rparr>)"

definition Vec4_sub :: "'n::len word Vec4 \<Rightarrow> 'n word Vec4 \<Rightarrow> 'n word Vec4" where
  "Vec4_sub v other =
     Vec4_ctor (x4 v - x4 other) (y4 v - y4 other) (z4 v - z4 other) (w4 v - w4 other)"

definition Vec4_mul_assign :: "'n::len word Vec4 \<Rightarrow> 'n word ref4 \<Rightarrow> 'n word Vec4" where
  "Vec4_mul_assign v factor =
     (let v = v\<lparr>x4 := x4 v * deref4 v factor\<rparr>; v = v\<lparr>y4 := y4 v * deref4 v factor\<rparr>;
          v = v\<lparr>z4 := z4 v * deref4 v factor\<rparr> in v\<lparr>w4 := w4 v * deref4 v factor\<rparr>)"

definition Vec4_mul :: "'n::len word Vec4 \<Rightarrow> 'n word ref4 \<Rightarrow> 'n word Vec4" where
  "Vec4_mul v other =
     Vec4_ctor (x4 v * deref4 v other) (y4 v * deref4 v other) (z4 v * deref4 v other) (w4 v * deref4 v other)"

definition Vec4_div_assign :: "'n::len word Vec4 \<Rightarrow> 'n word ref4 \<Rightarrow> cpp_error + 'n word Vec4" where
  "Vec4_div_assign v factor =
     (case udiv (x4 v) (deref4 v factor) of Inl e \<Rightarrow> Inl e | Inr x \<Rightarrow>
       (let v = v\<lparr>x4 := x\<rparr> in
        case udiv (y4 v) (deref4 v factor) of Inl e \<Rightarrow> Inl e | Inr y \<Rightarrow>
         (let v = v\<lparr>y4 := y\<rparr> in
          case udiv (z4 v) (deref4 v factor) of Inl e \<Rightarrow> Inl e | Inr z \<Rightarrow>
           (let v = v\<lparr>z4 := z\<rparr> in
            case udiv (w4 v) (deref4 v factor) of Inl e \<Rightarrow> Inl e | Inr w \<Rightarrow> Inr (v\<lparr>w4 := w\<rparr>)))))"

definition Vec4_div :: "'n::len word Vec4 \<Rightarrow> 'n word ref4 \<Rightarrow> cpp_error + 'n word Vec4" where
  "Vec4_div v other =
     (case udiv (x4 v) (deref4 v other) of Inl e \<Rightarrow> Inl e | Inr x \<Rightarrow>
       (case udiv (y4 v) (deref4 v other) of Inl e \<Rightarrow> Inl e | Inr y \<Rightarrow>
         (case udiv (z4 v) (deref4 v other) of Inl e \<Rightarrow> Inl e | Inr z \<Rightarrow>
           (case udiv (w4 v) (deref4 v other) of Inl e \<Rightarrow> Inl e | Inr w \<Rightarrow> Inr (Vec4_ctor x y z w)))))"

definition Vec4_eq :: "'n::len word Vec4 \<Rightarrow> 'n word Vec4 \<Rightarrow> bool" where
  "Vec4_eq v other = (x4 v = x4 other \<and> y4 v = y4 other \<and> z4 v = z4 other \<and> w4 v = w4 other)"

definition Vec4_neq :: "'n::len word Vec4 \<Rightarrow> 'n word Vec4 \<Rightarrow> bool" where
  "Vec4_neq v other = (\<not> Vec4_eq v other)"

section \<open>Lemmas\<close>

lemmas Vec2_defs = Vec2_add_assign_def Vec2_add_def Vec2_sub_assign_def Vec2_sub_def
  Vec2_mul_assign_def Vec2_mul_def Vec2_div_assign_def Vec2_div_def Vec2_ctor_def Vec2_eq_def
  Vec2_neq_def Let_def

lemmas Vec4_defs = Vec4_add_assign_def Vec4_add_def Vec4_sub_assign_def Vec4_sub_def
  Vec4_mul_assign_def Vec4_mul_def Vec4_div_assign_def Vec4_div_def Vec4_ctor_def Vec4_eq_def
  Vec4_neq_def Let_def

lemma Vec2_eq_iff: "Vec2_eq v u \<longleftrightarrow> (v :: 'n::len word Vec2) = u"
  by (cases v; cases u) (simp add: Vec2_eq_def)

lemma Vec4_eq_iff: "Vec4_eq v u \<longleftrightarrow> (v :: 'n::len word Vec4) = u"
  by (cases v; cases u) (simp add: Vec4_eq_def)

lemma word_self_div: "(a :: 'n::len word) \<noteq> 0 \<Longrightarrow> a div a = 1"
  by (simp add: word_unat_eq_iff unat_div)

lemma word_div_one: "(a :: 'n::len word) div 1 = a"
  by (simp add: word_unat_eq_iff unat_div)

section \<open>Properties\<close>

text \<open>
  Every compound assignment gives the vector that the binary operator gives, also when the
  other operand is the vector itself, except for a factor that is a reference into the vector.
\<close>

theorem compound_assignment_agrees:
  fixes v u :: "'n::len word Vec2" and p q :: "'m::len word Vec4"
  shows "Vec2_add_assign v u = Vec2_add v u \<and> Vec2_sub_assign v u = Vec2_sub v u \<and>
    Vec2_mul_assign v (Elsewhere2 c) = Vec2_mul v (Elsewhere2 c) \<and>
    Vec2_div_assign v (Elsewhere2 c) = Vec2_div v (Elsewhere2 c) \<and>
    Vec4_add_assign p q = Vec4_add p q \<and> Vec4_sub_assign p q = Vec4_sub p q \<and>
    Vec4_mul_assign p (Elsewhere4 d) = Vec4_mul p (Elsewhere4 d) \<and>
    Vec4_div_assign p (Elsewhere4 d) = Vec4_div p (Elsewhere4 d)"
  by (cases v; cases u; cases p; cases q) (simp add: Vec2_defs Vec4_defs udiv_def)

text \<open>
  A factor that refers to the first component is read again after that component has changed:
  \<open>v *= v.x\<close> multiplies the other components by the square, and \<open>v /= v.x\<close> leaves them as they
  are.
\<close>

lemma aliased_factor:
  fixes v :: "'n::len word Vec2" and p :: "'m::len word Vec4"
  shows "Vec2_mul_assign v RefX2 = Vec2_ctor (x2 v * x2 v) (y2 v * (x2 v * x2 v)) \<and>
    Vec4_mul_assign p RefX4 =
      Vec4_ctor (x4 p * x4 p) (y4 p * (x4 p * x4 p)) (z4 p * (x4 p * x4 p)) (w4 p * (x4 p * x4 p)) \<and>
    (if x2 v = 0 then Vec2_div_assign v RefX2 = Inl undefined_behaviour
     else Vec2_div_assign v RefX2 = Inr (Vec2_ctor 1 (y2 v)))"
  by (cases v; cases p; cases "x2 v = 0") (simp_all add: Vec2_defs Vec4_defs udiv_def word_self_div word_div_one)

text \<open>Subtraction undoes addition, although the components wrap.\<close>

lemma sub_undoes_add:
  fixes v u :: "'n::len word Vec2" and p q :: "'m::len word Vec4"
  shows "Vec2_eq (Vec2_sub_assign (Vec2_add_assign v u) u) v \<and> \<not> Vec2_neq (Vec2_sub (Vec2_add v u) u) v \<and>
    Vec4_eq (Vec4_sub_assign (Vec4_add_assign p q) q) p \<and> \<not> Vec4_neq (Vec4_sub (Vec4_add p q) q) p"
  by (simp add: Vec2_defs Vec4_defs)

text \<open>
  A division is undefined exactly for the factor zero; otherwise multiplying the quotient by
  the factor never exceeds the component it came from.
\<close>

theorem division_bounds:
  fixes v :: "'n::len word Vec2" and p :: "'m::len word Vec4"
  shows "(if c = 0 then Vec2_div v (Elsewhere2 c) = Inl undefined_behaviour
     else \<exists>q. Vec2_div v (Elsewhere2 c) = Inr q \<and>
       unat (x2 q) * unat c \<le> unat (x2 v) \<and> unat (y2 q) * unat c \<le> unat (y2 v)) \<and>
    (if d = 0 then Vec4_div p (Elsewhere4 d) = Inl undefined_behaviour
     else \<exists>q. Vec4_div p (Elsewhere4 d) = Inr q \<and>
       unat (x4 q) * unat d \<le> unat (x4 p) \<and> unat (y4 q) * unat d \<le> unat (y4 p) \<and>
       unat (z4 q) * unat d \<le> unat (z4 p) \<and> unat (w4 q) * unat d \<le> unat (w4 p))"
  by (simp add: Vec2_defs Vec4_defs udiv_def unat_div)

end
