(* ===== verification/Cl_Vector_Types.thy ===== *)
theory Cl_Vector_Types
  imports Cl_Vector "HOL-Library.Signed_Division"
begin

text \<open>
  The vectors of \<open>include/azul/compute/clcpp/OpenClVector.hpp\<close> for every component type \<open>TValue\<close>. The
  operators of the component type are a parameter, \<open>component\<close>, so that the definitions cover the floating
  point types too, whose arithmetic is not modelled; for the integral types the operators are those of
  C++, with the promotion of narrow types to \<open>int\<close>, undefined signed overflow and the conversion of the
  result. Theory \<open>Cl_Vector\<close> is the case of the unsigned types of at least 32 bits.
\<close>

section \<open>Component types\<close>

record 'a component =
  c_zero :: 'a
  c_add :: "'a \<Rightarrow> 'a \<Rightarrow> cpp_error + 'a"
  c_sub :: "'a \<Rightarrow> 'a \<Rightarrow> cpp_error + 'a"
  c_mul :: "'a \<Rightarrow> 'a \<Rightarrow> cpp_error + 'a"
  c_div :: "'a \<Rightarrow> 'a \<Rightarrow> cpp_error + 'a"
  c_eq :: "'a \<Rightarrow> 'a \<Rightarrow> bool"

text \<open>One computation after the other; the first that is undefined ends it.\<close>

fun andThen :: "cpp_error + 'a \<Rightarrow> ('a \<Rightarrow> cpp_error + 'b) \<Rightarrow> cpp_error + 'b" where
  "andThen (Inl e) f = Inl e"
| "andThen (Inr x) f = f x"

text \<open>An integral type is its width and whether it is signed; a value is an integer in its range.\<close>

datatype int_type = Signed nat | Unsigned nat

fun in_range :: "int_type \<Rightarrow> int \<Rightarrow> bool" where
  "in_range (Signed w) x \<longleftrightarrow> - (2 ^ (w - 1)) \<le> x \<and> x < 2 ^ (w - 1)"
| "in_range (Unsigned w) x \<longleftrightarrow> 0 \<le> x \<and> x < 2 ^ w"

fun width :: "int_type \<Rightarrow> nat" where
  "width (Signed w) = w"
| "width (Unsigned w) = w"

text \<open>Types narrower than \<open>int\<close>, which has 32 bits, are promoted to \<open>int\<close>.\<close>

definition promoted :: "int_type \<Rightarrow> int_type" where
  "promoted T = (if width T < 32 then Signed 32 else T)"

text \<open>The conversion to a type: the value of the type that is equal modulo \<open>2\<^sup>w\<close>.\<close>

fun convert :: "int_type \<Rightarrow> int \<Rightarrow> int" where
  "convert (Signed w) x = (x + 2 ^ (w - 1)) mod 2 ^ w - 2 ^ (w - 1)"
| "convert (Unsigned w) x = x mod 2 ^ w"

text \<open>The exact result in the type of the operation: signed overflow is undefined, unsigned wraps.\<close>

fun arith_result :: "int_type \<Rightarrow> int \<Rightarrow> cpp_error + int" where
  "arith_result (Signed w) x = (if in_range (Signed w) x then Inr x else Inl undefined_behaviour)"
| "arith_result (Unsigned w) x = Inr (x mod 2 ^ w)"

definition int_op :: "int_type \<Rightarrow> (int \<Rightarrow> int \<Rightarrow> int) \<Rightarrow> int \<Rightarrow> int \<Rightarrow> cpp_error + int" where
  "int_op T f x y = andThen (arith_result (promoted T) (f x y)) (\<lambda>z. Inr (convert T z))"

definition int_component :: "int_type \<Rightarrow> int component" where
  "int_component T =
     \<lparr>c_zero = 0, c_add = int_op T (+), c_sub = int_op T (-), c_mul = int_op T (*),
      c_div = (\<lambda>x y. if y = 0 then Inl undefined_behaviour else int_op T (sdiv) x y), c_eq = (=)\<rparr>"

section \<open>The operators\<close>

text \<open>A reference read as the operand of a compound assignment.\<close>

fun read2 :: "'a Vec2 \<Rightarrow> 'a ref2 \<Rightarrow> 'a" where
  "read2 v (Elsewhere2 c) = c"
| "read2 v RefX2 = x2 v"
| "read2 v RefY2 = y2 v"

definition V2_default :: "'a component \<Rightarrow> 'a Vec2" where
  "V2_default T = \<lparr>x2 = c_zero T, y2 = c_zero T\<rparr>"

text \<open>The four compound assignments differ in the operator, and in an operand that changes or does not.\<close>

definition V2_assign :: "('a \<Rightarrow> 'a \<Rightarrow> cpp_error + 'a) \<Rightarrow> 'a Vec2 \<Rightarrow> 'a Vec2 \<Rightarrow> cpp_error + 'a Vec2" where
  "V2_assign f v other =
     andThen (f (x2 v) (x2 other)) (\<lambda>x. let v = v\<lparr>x2 := x\<rparr> in
     andThen (f (y2 v) (y2 other)) (\<lambda>y. Inr (v\<lparr>y2 := y\<rparr>)))"

definition V2_scale_assign :: "('a \<Rightarrow> 'a \<Rightarrow> cpp_error + 'a) \<Rightarrow> 'a Vec2 \<Rightarrow> 'a ref2 \<Rightarrow> cpp_error + 'a Vec2" where
  "V2_scale_assign f v factor =
     andThen (f (x2 v) (read2 v factor)) (\<lambda>x. let v = v\<lparr>x2 := x\<rparr> in
     andThen (f (y2 v) (read2 v factor)) (\<lambda>y. Inr (v\<lparr>y2 := y\<rparr>)))"

definition V2_make :: "cpp_error + 'a \<Rightarrow> cpp_error + 'a \<Rightarrow> cpp_error + 'a Vec2" where
  "V2_make rx ry = andThen rx (\<lambda>x. andThen ry (\<lambda>y. Inr \<lparr>x2 = x, y2 = y\<rparr>))"

definition V2_add_assign :: "'a component \<Rightarrow> 'a Vec2 \<Rightarrow> 'a Vec2 \<Rightarrow> cpp_error + 'a Vec2" where
  "V2_add_assign T v other = V2_assign (c_add T) v other"

definition V2_sub_assign :: "'a component \<Rightarrow> 'a Vec2 \<Rightarrow> 'a Vec2 \<Rightarrow> cpp_error + 'a Vec2" where
  "V2_sub_assign T v other = V2_assign (c_sub T) v other"

definition V2_mul_assign :: "'a component \<Rightarrow> 'a Vec2 \<Rightarrow> 'a ref2 \<Rightarrow> cpp_error + 'a Vec2" where
  "V2_mul_assign T v factor = V2_scale_assign (c_mul T) v factor"

definition V2_div_assign :: "'a component \<Rightarrow> 'a Vec2 \<Rightarrow> 'a ref2 \<Rightarrow> cpp_error + 'a Vec2" where
  "V2_div_assign T v factor = V2_scale_assign (c_div T) v factor"

definition V2_add :: "'a component \<Rightarrow> 'a Vec2 \<Rightarrow> 'a Vec2 \<Rightarrow> cpp_error + 'a Vec2" where
  "V2_add T v other = V2_make (c_add T (x2 v) (x2 other)) (c_add T (y2 v) (y2 other))"

definition V2_sub :: "'a component \<Rightarrow> 'a Vec2 \<Rightarrow> 'a Vec2 \<Rightarrow> cpp_error + 'a Vec2" where
  "V2_sub T v other = V2_make (c_sub T (x2 v) (x2 other)) (c_sub T (y2 v) (y2 other))"

definition V2_mul :: "'a component \<Rightarrow> 'a Vec2 \<Rightarrow> 'a \<Rightarrow> cpp_error + 'a Vec2" where
  "V2_mul T v factor = V2_make (c_mul T (x2 v) factor) (c_mul T (y2 v) factor)"

definition V2_div :: "'a component \<Rightarrow> 'a Vec2 \<Rightarrow> 'a \<Rightarrow> cpp_error + 'a Vec2" where
  "V2_div T v factor = V2_make (c_div T (x2 v) factor) (c_div T (y2 v) factor)"

definition V2_eq :: "'a component \<Rightarrow> 'a Vec2 \<Rightarrow> 'a Vec2 \<Rightarrow> bool" where
  "V2_eq T v other = (c_eq T (x2 v) (x2 other) \<and> c_eq T (y2 v) (y2 other))"

fun read4 :: "'a Vec4 \<Rightarrow> 'a ref4 \<Rightarrow> 'a" where
  "read4 v (Elsewhere4 c) = c"
| "read4 v RefX4 = x4 v"
| "read4 v RefY4 = y4 v"
| "read4 v RefZ4 = z4 v"
| "read4 v RefW4 = w4 v"

definition V4_default :: "'a component \<Rightarrow> 'a Vec4" where
  "V4_default T = \<lparr>x4 = c_zero T, y4 = c_zero T, z4 = c_zero T, w4 = c_zero T\<rparr>"

definition V4_assign :: "('a \<Rightarrow> 'a \<Rightarrow> cpp_error + 'a) \<Rightarrow> 'a Vec4 \<Rightarrow> 'a Vec4 \<Rightarrow> cpp_error + 'a Vec4" where
  "V4_assign f v other =
     andThen (f (x4 v) (x4 other)) (\<lambda>x. let v = v\<lparr>x4 := x\<rparr> in
     andThen (f (y4 v) (y4 other)) (\<lambda>y. let v = v\<lparr>y4 := y\<rparr> in
     andThen (f (z4 v) (z4 other)) (\<lambda>z. let v = v\<lparr>z4 := z\<rparr> in
     andThen (f (w4 v) (w4 other)) (\<lambda>w. Inr (v\<lparr>w4 := w\<rparr>)))))"

definition V4_scale_assign :: "('a \<Rightarrow> 'a \<Rightarrow> cpp_error + 'a) \<Rightarrow> 'a Vec4 \<Rightarrow> 'a ref4 \<Rightarrow> cpp_error + 'a Vec4" where
  "V4_scale_assign f v factor =
     andThen (f (x4 v) (read4 v factor)) (\<lambda>x. let v = v\<lparr>x4 := x\<rparr> in
     andThen (f (y4 v) (read4 v factor)) (\<lambda>y. let v = v\<lparr>y4 := y\<rparr> in
     andThen (f (z4 v) (read4 v factor)) (\<lambda>z. let v = v\<lparr>z4 := z\<rparr> in
     andThen (f (w4 v) (read4 v factor)) (\<lambda>w. Inr (v\<lparr>w4 := w\<rparr>)))))"

definition V4_make ::
  "cpp_error + 'a \<Rightarrow> cpp_error + 'a \<Rightarrow> cpp_error + 'a \<Rightarrow> cpp_error + 'a \<Rightarrow> cpp_error + 'a Vec4"
where
  "V4_make rx ry rz rw = andThen rx (\<lambda>x. andThen ry (\<lambda>y. andThen rz (\<lambda>z. andThen rw (\<lambda>w.
     Inr \<lparr>x4 = x, y4 = y, z4 = z, w4 = w\<rparr>))))"

definition V4_add_assign :: "'a component \<Rightarrow> 'a Vec4 \<Rightarrow> 'a Vec4 \<Rightarrow> cpp_error + 'a Vec4" where
  "V4_add_assign T v other = V4_assign (c_add T) v other"

definition V4_sub_assign :: "'a component \<Rightarrow> 'a Vec4 \<Rightarrow> 'a Vec4 \<Rightarrow> cpp_error + 'a Vec4" where
  "V4_sub_assign T v other = V4_assign (c_sub T) v other"

definition V4_mul_assign :: "'a component \<Rightarrow> 'a Vec4 \<Rightarrow> 'a ref4 \<Rightarrow> cpp_error + 'a Vec4" where
  "V4_mul_assign T v factor = V4_scale_assign (c_mul T) v factor"

definition V4_div_assign :: "'a component \<Rightarrow> 'a Vec4 \<Rightarrow> 'a ref4 \<Rightarrow> cpp_error + 'a Vec4" where
  "V4_div_assign T v factor = V4_scale_assign (c_div T) v factor"

definition V4_lift2 :: "('a \<Rightarrow> 'a \<Rightarrow> cpp_error + 'a) \<Rightarrow> 'a Vec4 \<Rightarrow> 'a Vec4 \<Rightarrow> cpp_error + 'a Vec4" where
  "V4_lift2 f v other =
     V4_make (f (x4 v) (x4 other)) (f (y4 v) (y4 other)) (f (z4 v) (z4 other)) (f (w4 v) (w4 other))"

definition V4_scale :: "('a \<Rightarrow> 'a \<Rightarrow> cpp_error + 'a) \<Rightarrow> 'a Vec4 \<Rightarrow> 'a \<Rightarrow> cpp_error + 'a Vec4" where
  "V4_scale f v factor = V4_make (f (x4 v) factor) (f (y4 v) factor) (f (z4 v) factor) (f (w4 v) factor)"

definition V4_add :: "'a component \<Rightarrow> 'a Vec4 \<Rightarrow> 'a Vec4 \<Rightarrow> cpp_error + 'a Vec4" where
  "V4_add T v other = V4_lift2 (c_add T) v other"

definition V4_sub :: "'a component \<Rightarrow> 'a Vec4 \<Rightarrow> 'a Vec4 \<Rightarrow> cpp_error + 'a Vec4" where
  "V4_sub T v other = V4_lift2 (c_sub T) v other"

definition V4_mul :: "'a component \<Rightarrow> 'a Vec4 \<Rightarrow> 'a \<Rightarrow> cpp_error + 'a Vec4" where
  "V4_mul T v other = V4_scale (c_mul T) v other"

definition V4_div :: "'a component \<Rightarrow> 'a Vec4 \<Rightarrow> 'a \<Rightarrow> cpp_error + 'a Vec4" where
  "V4_div T v other = V4_scale (c_div T) v other"


section \<open>Lemmas\<close>

lemma andThen_Inr: "andThen r f = Inr z \<longleftrightarrow> (\<exists>x. r = Inr x \<and> f x = Inr z)"
  by (cases r) auto

lemma convert_in_range: "0 < width T \<Longrightarrow> in_range T (convert T x)"
proof (cases T)
  case (Signed w)
  assume w: "0 < width T"
  have "2 ^ w = 2 * (2 :: int) ^ (w - 1)" using Signed w by (cases w) simp_all
  then show ?thesis using Signed pos_mod_bound [of "2 ^ w" "x + 2 ^ (w - 1)"] by simp
qed simp

lemma convert_cong: "convert T x mod 2 ^ width T = x mod 2 ^ width T"
  by (cases T) (simp_all add: mod_diff_left_eq)

lemma convert_exact:
  assumes "0 < width T" "in_range T x"
  shows "convert T x = x"
proof (cases T)
  case (Signed w)
  have "2 ^ w = 2 * (2 :: int) ^ (w - 1)" using Signed assms(1) by (cases w) simp_all
  then show ?thesis using Signed assms(2) by (simp add: mod_pos_pos_trivial)
qed (use assms in simp)

text \<open>An operation on integers: when it is defined, and what it gives.\<close>

lemma int_op_result:
  assumes "0 < width T" "int_op T f x y = Inr z"
  shows "in_range T z \<and> z mod 2 ^ width T = f x y mod 2 ^ width T"
proof -
  obtain r where r: "arith_result (promoted T) (f x y) = Inr r" "z = convert T r"
    using assms(2) by (auto simp: int_op_def andThen_Inr)
  have "r mod 2 ^ width T = f x y mod 2 ^ width T"
    using r(1) by (cases T) (auto simp: promoted_def split: if_splits)
  then show ?thesis using r(2) convert_in_range [OF assms(1)] convert_cong by simp
qed

lemma int_op_exact:
  assumes "0 < width T" "int_op T f x y = Inr z" "in_range T (f x y)"
  shows "z = f x y"
proof -
  obtain r where r: "arith_result (promoted T) (f x y) = Inr r" "z = convert T r"
    using assms(2) by (auto simp: int_op_def andThen_Inr)
  have "r = f x y" using r(1) assms(3) by (cases T) (auto simp: promoted_def split: if_splits)
  then show ?thesis using r(2) convert_exact [OF assms(1,3)] by simp
qed

lemma int_op_defined:
  "(\<exists>z. int_op T f x y = Inr z) \<longleftrightarrow> (case promoted T of Signed w \<Rightarrow> in_range (Signed w) (f x y) | Unsigned w \<Rightarrow> True)"
  by (cases "promoted T") (simp_all add: int_op_def)

text \<open>The signed types of at least 32 bits are not promoted: an operation is exact or undefined.\<close>

lemma int_op_signed:
  assumes "32 \<le> w"
  shows "int_op (Signed w) f x y = (if in_range (Signed w) (f x y) then Inr (f x y) else Inl undefined_behaviour)"
  using assms convert_exact [of "Signed w" "f x y"] by (simp add: int_op_def promoted_def del: convert.simps in_range.simps)


lemmas V2_defs = V2_add_assign_def V2_sub_assign_def V2_mul_assign_def V2_div_assign_def V2_assign_def
  V2_scale_assign_def V2_add_def V2_sub_def V2_mul_def V2_div_def V2_make_def Let_def

lemmas V4_defs = V4_add_assign_def V4_sub_assign_def V4_mul_assign_def V4_div_assign_def V4_assign_def
  V4_scale_assign_def V4_add_def V4_sub_def V4_mul_def V4_div_def V4_lift2_def V4_scale_def V4_make_def Let_def

text \<open>The components of a vector in order.\<close>

definition comps2 :: "'a Vec2 \<Rightarrow> 'a list" where
  "comps2 v = [x2 v, y2 v]"

definition comps4 :: "'a Vec4 \<Rightarrow> 'a list" where
  "comps4 v = [x4 v, y4 v, z4 v, w4 v]"

lemma V4_lift2_comps:
  "V4_lift2 f v u = Inr z \<longleftrightarrow> list_all2 (\<lambda>r x. r = Inr x) (map2 f (comps4 v) (comps4 u)) (comps4 z)"
  by (cases z) (auto simp: V4_lift2_def V4_make_def andThen_Inr comps4_def)

lemma V4_scale_comps:
  "V4_scale f v c = Inr z \<longleftrightarrow> list_all2 (\<lambda>r x. r = Inr x) (map (\<lambda>x. f x c) (comps4 v)) (comps4 z)"
  by (cases z) (auto simp: V4_scale_def V4_make_def andThen_Inr comps4_def)

section \<open>Properties\<close>

text \<open>
  For every component type, floating point or integral, each compound assignment is the binary
  operator followed by the assignment, undefined exactly when it is; provided that the factor is not a
  reference into the vector.
\<close>

theorem compound_assignment_agrees_for_all_types:
  "V2_add_assign T v u = V2_add T v u \<and> V2_sub_assign T v u = V2_sub T v u \<and>
   V2_mul_assign T v (Elsewhere2 c) = V2_mul T v c \<and> V2_div_assign T v (Elsewhere2 c) = V2_div T v c \<and>
   V4_add_assign T p q = V4_add T p q \<and> V4_sub_assign T p q = V4_sub T p q \<and>
   V4_mul_assign T p (Elsewhere4 c) = V4_mul T p c \<and> V4_div_assign T p (Elsewhere4 c) = V4_div T p c"
  by (cases v; cases p) (simp add: V2_defs V4_defs)

text \<open>
  The integral vectors stay in their type: whenever an operator is defined, every component of the
  result is a value of the component type and equals the exact result modulo the size of the type.
\<close>

theorem integral_results_stay_in_type:
  assumes "0 < width T"
  shows "(V4_add (int_component T) p q = Inr z \<longrightarrow> list_all (in_range T) (comps4 z) \<and>
      list_all2 (\<lambda>r x. x mod 2 ^ width T = r mod 2 ^ width T) (map2 (+) (comps4 p) (comps4 q)) (comps4 z)) \<and>
    (V4_sub (int_component T) p q = Inr z \<longrightarrow> list_all (in_range T) (comps4 z) \<and>
      list_all2 (\<lambda>r x. x mod 2 ^ width T = r mod 2 ^ width T) (map2 (-) (comps4 p) (comps4 q)) (comps4 z)) \<and>
    (V4_mul (int_component T) p c = Inr z \<longrightarrow> list_all (in_range T) (comps4 z) \<and>
      list_all2 (\<lambda>r x. x mod 2 ^ width T = r mod 2 ^ width T) (map (\<lambda>x. x * c) (comps4 p)) (comps4 z)) \<and>
    (V4_div (int_component T) p c = Inr z \<longrightarrow> c \<noteq> 0 \<and> list_all (in_range T) (comps4 z) \<and>
      list_all2 (\<lambda>r x. x mod 2 ^ width T = r mod 2 ^ width T) (map (\<lambda>x. x sdiv c) (comps4 p)) (comps4 z))"
  using int_op_result [OF assms]
  by (auto simp: V4_add_def V4_sub_def V4_mul_def V4_div_def V4_lift2_comps V4_scale_comps int_component_def
      comps4_def split: if_splits)

theorem integral_results_stay_in_type_witness:
  "V4_add (int_component (Signed 8)) \<lparr>x4 = 127, y4 = 0, z4 = 0, w4 = 0\<rparr> \<lparr>x4 = 1, y4 = 0, z4 = 0, w4 = 0\<rparr> =
     Inr \<lparr>x4 = -128, y4 = 0, z4 = 0, w4 = 0\<rparr> \<and>
   list_all (in_range (Signed 8)) (comps4 \<lparr>x4 = -128, y4 = 0, z4 = 0, w4 = 0\<rparr>)"
proof -
  have v: "V4_add (int_component (Signed 8)) \<lparr>x4 = 127, y4 = 0, z4 = 0, w4 = 0\<rparr> \<lparr>x4 = 1, y4 = 0, z4 = 0, w4 = 0\<rparr> =
     Inr \<lparr>x4 = -128, y4 = 0, z4 = 0, w4 = 0\<rparr>" by code_simp
  then show ?thesis
    using integral_results_stay_in_type [of "Signed 8" "\<lparr>x4 = 127, y4 = 0, z4 = 0, w4 = 0\<rparr>"
      "\<lparr>x4 = 1, y4 = 0, z4 = 0, w4 = 0\<rparr>" "\<lparr>x4 = -128, y4 = 0, z4 = 0, w4 = 0\<rparr>"] by simp
qed

text \<open>
  On the signed types of at least 32 bits, such as the one of \<open>int4\<close>, the operators are exact: defined
  just when every exact component is a value of the type, and then equal to it; a division is also
  undefined for the factor zero.
\<close>

theorem signed_vectors_are_exact:
  assumes "32 \<le> w"
  shows "V4_lift2 (int_op (Signed w) f) p q =
      (if list_all (in_range (Signed w)) (map2 f (comps4 p) (comps4 q))
       then Inr \<lparr>x4 = f (x4 p) (x4 q), y4 = f (y4 p) (y4 q), z4 = f (z4 p) (z4 q), w4 = f (w4 p) (w4 q)\<rparr>
       else Inl undefined_behaviour) \<and>
    (V4_div (int_component (Signed w)) p c = Inr z \<longleftrightarrow>
      c \<noteq> 0 \<and> list_all (in_range (Signed w)) (map (\<lambda>x. x sdiv c) (comps4 p)) \<and> comps4 z = map (\<lambda>x. x sdiv c) (comps4 p))"
  using assms
  by (auto simp: V4_lift2_def V4_make_def V4_div_def V4_scale_comps int_component_def int_op_signed comps4_def
      simp del: in_range.simps)




text \<open>
  The promotion makes a product of unsigned 16-bit components undefined when it exceeds the range of
  \<open>int\<close>, although the component type is unsigned; the products of 8-bit components never are.
\<close>

lemma narrow_products:
  "V2_mul (int_component (Unsigned 16)) \<lparr>x2 = 65535, y2 = 0\<rparr> 65535 = Inl undefined_behaviour"
  "in_range (Unsigned 8) x \<Longrightarrow> in_range (Unsigned 8) y \<Longrightarrow> int_op (Unsigned 8) (*) x y = Inr (x * y mod 256)"
proof -
  show "V2_mul (int_component (Unsigned 16)) \<lparr>x2 = 65535, y2 = 0\<rparr> 65535 = Inl undefined_behaviour"
    by code_simp
  assume "in_range (Unsigned 8) x" "in_range (Unsigned 8) y"
  then have "0 \<le> x * y" "x * y \<le> 255 * 255" using mult_mono [of x 255 y 255] by simp_all
  then show "int_op (Unsigned 8) (*) x y = Inr (x * y mod 256)" by (simp add: int_op_def promoted_def)
qed

end
