(* ===== verification/Cl_Executor.thy ===== *)
theory Cl_Executor
  imports Future_Api
begin

text \<open>
  \<open>include/azul/compute/clcpp/OpenCl.hpp\<close> and \<open>OpenClComputeExecutor.hpp\<close>: how a range of work items
  is split into tasks, and which work item ids the kernel sees in each task. \<open>std::size_t\<close> is a
  64-bit word. A task runs on one worker thread, whose \<open>thread_local\<close> \<open>global_index\<close> it starts with;
  its run is the list of the values of \<open>global_index\<close> at its calls of the kernel.
\<close>

section \<open>OpenCl.hpp\<close>

type_synonym global_index = "u64 list"

definition get_global_id :: "global_index \<Rightarrow> u32 \<Rightarrow> cpp_error + u64" where
  "get_global_id gi dimindx = array_read gi dimindx"

definition set_global_id :: "global_index \<Rightarrow> u32 \<Rightarrow> u64 \<Rightarrow> cpp_error + global_index" where
  "set_global_id gi dimindx v = array_write gi dimindx v"

section \<open>The split into tasks\<close>

text \<open>\<open>std::max<std::size_t>(workItems / ThreadCount(), 1)\<close>\<close>

definition work_items_per_task :: "u64 \<Rightarrow> u64 \<Rightarrow> cpp_error + u64" where
  "work_items_per_task workItems threads =
     (case udiv workItems threads of Inl e \<Rightarrow> Inl e | Inr q \<Rightarrow> Inr (max q 1))"

text \<open>
  The loop \<open>for (i = 0; i < workItems; i += workItemsPerTask)\<close>: the first work item and the number
  of work items of every task. The counter can wrap, so the loop need not end.
\<close>

partial_function (option) task_ranges :: "u64 \<Rightarrow> u64 \<Rightarrow> u64 \<Rightarrow> (u64 \<times> u64) list option" where
  "task_ranges workItems per i =
     (if i < workItems
      then Option.bind (task_ranges workItems per (i + per))
             (\<lambda>rest. Some ((i, min per (workItems - i)) # rest))
      else Some [])"

definition split_work :: "u64 \<Rightarrow> u64 \<Rightarrow> cpp_error + (u64 \<times> u64) list option" where
  "split_work workItems threads =
     (case work_items_per_task workItems threads of
        Inl e \<Rightarrow> Inl e
      | Inr per \<Rightarrow> Inr (task_ranges workItems per 0))"

section \<open>The tasks\<close>

text \<open>
  The loop of a task from \<open>j\<close> to \<open>stop\<close>: \<open>body\<close> sets the ids of the work item, then the kernel is
  called.
\<close>

function task_loop ::
  "(global_index \<Rightarrow> u64 \<Rightarrow> cpp_error + global_index) \<Rightarrow> u64 \<Rightarrow> u64 \<Rightarrow> global_index \<Rightarrow>
     cpp_error + global_index list \<times> global_index"
where
  "task_loop body j stop gi =
     (if j < stop
      then (case body gi j of
              Inl e \<Rightarrow> Inl e
            | Inr gi \<Rightarrow>
                (case task_loop body (j + 1) stop gi of
                   Inl e \<Rightarrow> Inl e
                 | Inr (calls, gi') \<Rightarrow> Inr (gi # calls, gi')))
      else Inr ([], gi))"
  by pat_completeness auto
termination
  by (relation "measure (\<lambda>(body, j, stop, gi). unat stop - unat j)")
    (auto simp: word_unat word_less_nat_alt intro!: diff_less_mono2)

declare task_loop.simps [simp del]

definition body_1d :: "global_index \<Rightarrow> u64 \<Rightarrow> cpp_error + global_index" where
  "body_1d gi j = set_global_id gi 0 j"

definition task_1d :: "u64 \<Rightarrow> u64 \<times> u64 \<Rightarrow> global_index \<Rightarrow> cpp_error + global_index list \<times> global_index" where
  "task_1d off r gi = (let start = off + fst r in task_loop body_1d start (start + snd r) gi)"

definition body_2d :: "u64 \<times> u64 \<Rightarrow> u64 \<Rightarrow> global_index \<Rightarrow> u64 \<Rightarrow> cpp_error + global_index" where
  "body_2d off size_x gi j =
     (case umod j size_x of Inl e \<Rightarrow> Inl e | Inr m \<Rightarrow>
       (case set_global_id gi 0 (fst off + m) of Inl e \<Rightarrow> Inl e | Inr gi \<Rightarrow>
         (case udiv j size_x of Inl e \<Rightarrow> Inl e | Inr d \<Rightarrow> set_global_id gi 1 (snd off + d))))"

definition task_2d ::
  "u64 \<times> u64 \<Rightarrow> u64 \<Rightarrow> u64 \<times> u64 \<Rightarrow> global_index \<Rightarrow> cpp_error + global_index list \<times> global_index"
where
  "task_2d off size_x r gi = task_loop (body_2d off size_x) (fst r) (fst r + snd r) gi"

definition body_3d ::
  "u64 \<times> u64 \<times> u64 \<Rightarrow> u64 \<times> u64 \<times> u64 \<Rightarrow> global_index \<Rightarrow> u64 \<Rightarrow> cpp_error + global_index"
where
  "body_3d off extent gi j =
     (case off of (ox, oy, oz) \<Rightarrow> case extent of (sx, sy, sz) \<Rightarrow>
       (case udiv j (sx * sy) of Inl e \<Rightarrow> Inl e | Inr c \<Rightarrow>
         (case set_global_id gi 2 (oz + c) of Inl e \<Rightarrow> Inl e | Inr gi \<Rightarrow>
           (case umod j (sx * sy) of Inl e \<Rightarrow> Inl e | Inr m \<Rightarrow>
             (case udiv m sx of Inl e \<Rightarrow> Inl e | Inr b \<Rightarrow>
               (case set_global_id gi 1 (oy + b) of Inl e \<Rightarrow> Inl e | Inr gi \<Rightarrow>
                 (case umod j sx of Inl e \<Rightarrow> Inl e | Inr a \<Rightarrow> set_global_id gi 0 (ox + a))))))))"

definition task_3d ::
  "u64 \<times> u64 \<times> u64 \<Rightarrow> u64 \<times> u64 \<times> u64 \<Rightarrow> u64 \<times> u64 \<Rightarrow> global_index \<Rightarrow>
     cpp_error + global_index list \<times> global_index"
where
  "task_3d off extent r gi = task_loop (body_3d off extent) (fst r) (fst r + snd r) gi"

text \<open>
  The three overloads of \<open>Execute\<close>: the tasks they hand to the thread pool, in order; \<open>threads\<close> is
  the \<open>ThreadCount()\<close> of the pool.
\<close>

type_synonym cl_task = "global_index \<Rightarrow> cpp_error + global_index list \<times> global_index"

definition Execute_1d :: "u64 \<Rightarrow> u64 \<Rightarrow> u64 \<Rightarrow> cpp_error + cl_task list option" where
  "Execute_1d threads extent off =
     (case split_work extent threads of
        Inl e \<Rightarrow> Inl e
      | Inr rs \<Rightarrow> Inr (map_option (map (task_1d off)) rs))"

definition Execute_2d :: "u64 \<Rightarrow> u64 \<times> u64 \<Rightarrow> u64 \<times> u64 \<Rightarrow> cpp_error + cl_task list option" where
  "Execute_2d threads extent off =
     (case split_work (fst extent * snd extent) threads of
        Inl e \<Rightarrow> Inl e
      | Inr rs \<Rightarrow> Inr (map_option (map (task_2d off (fst extent))) rs))"

definition Execute_3d :: "u64 \<Rightarrow> u64 \<times> u64 \<times> u64 \<Rightarrow> u64 \<times> u64 \<times> u64 \<Rightarrow> cpp_error + cl_task list option" where
  "Execute_3d threads extent off =
     (case extent of (sx, sy, sz) \<Rightarrow>
       (case split_work (sx * sy * sz) threads of
          Inl e \<Rightarrow> Inl e
        | Inr rs \<Rightarrow> Inr (map_option (map (task_3d off extent)) rs)))"

text \<open>
  \<open>WaitFor\<close> joins the futures of the tasks with the same means as \<open>WhenAll\<close>: a state, a guard that
  sets it, and a lambda that drops a pointer to the guard, passed to \<open>Then\<close> of every future.
\<close>

definition WaitFor ::
  "('v, 'e) store \<Rightarrow> nat list \<Rightarrow> ('v, 'e) store \<times> ('v, 'e) command list \<times> handle"
where
  "WaitFor h fs =
     (let (h1, w) = make_state True h;
          a = length (activators h1);
          h2 = h1\<lparr>activators := activators h1 @
                 [\<lparr>use_count = 2, disposer = Disposer_ctor (Some w), inputs = fs\<rparr>]\<rparr>
      in (h2, map (\<lambda>f. CallThen f (ResetActivator (Some a)) True) fs @ [DropActivator a, DropActivator a],
          Some w))"

section \<open>Lemmas on the split\<close>

lemma task_ranges_spec:
  assumes "0 < unat per" "unat W + unat per \<le> 2 ^ 64"
  shows "\<exists>rs. task_ranges W per i = Some rs \<and>
    concat (map (\<lambda>(a, c). [unat a..<unat a + unat c]) rs) = [unat i..<unat W] \<and>
    (\<forall>(a, c) \<in> set rs. unat a + unat c \<le> unat W)"
proof (induction "unat W - unat i" arbitrary: i rule: less_induct)
  case less
  show ?case
  proof (cases "i < W")
    case False
    then show ?thesis by (simp add: task_ranges.simps [of W per i] word_less_nat_alt)
  next
    case True
    then have iW: "unat i < unat W" by (simp add: word_less_nat_alt)
    then have ip: "unat (i + per) = unat i + unat per"
      using assms(2) by (intro unat_plus_nowrap) simp
    then have "unat W - unat (i + per) < unat W - unat i" using iW assms(1) by linarith
    from less [OF this] obtain rs where rs: "task_ranges W per (i + per) = Some rs"
      "concat (map (\<lambda>(a, c). [unat a..<unat a + unat c]) rs) = [unat i + unat per..<unat W]"
      "\<forall>(a, c) \<in> set rs. unat a + unat c \<le> unat W"
      using ip by auto
    have "unat (W - i) = unat W - unat i" using iW by (simp add: unat_sub_if')
    then have m: "unat (min per (W - i)) = min (unat per) (unat W - unat i)"
      by (simp add: min_def word_le_nat_alt)
    have "[unat i..<unat i + min (unat per) (unat W - unat i)] @ [unat i + unat per..<unat W] =
        [unat i..<unat W]"
    proof (cases "unat per \<le> unat W - unat i")
      case True
      then show ?thesis
        using iW upt_add_eq_append [of "unat i" "unat i + unat per" "unat W - unat i - unat per"] by simp
    next
      case False
      then show ?thesis using iW by simp
    qed
    then show ?thesis
      using rs True m iW by (simp add: task_ranges.simps [of W per i])
  qed
qed

lemma unat_per_task:
  assumes "0 < unat n"
  shows "\<exists>per. work_items_per_task W n = Inr per \<and> unat per = max (unat W div unat n) 1"
  using assms
  by (auto simp: work_items_per_task_def udiv_def max_def word_le_nat_alt unat_div)

lemma split_work_spec:
  assumes "0 < unat n" "unat W \<le> 2 ^ 63"
  shows "\<exists>rs. split_work W n = Inr (Some rs) \<and>
    concat (map (\<lambda>(a, c). [unat a..<unat a + unat c]) rs) = [0..<unat W] \<and>
    (\<forall>(a, c) \<in> set rs. unat a + unat c \<le> unat W)"
proof -
  obtain per where p: "work_items_per_task W n = Inr per" "unat per = max (unat W div unat n) 1"
    using unat_per_task [OF assms(1)] by blast
  have "unat W div unat n \<le> unat W" by simp
  then have "unat per \<le> unat W \<or> unat per = 1" "0 < unat per" using p(2) by (auto simp: max_def)
  then have "unat W + unat per \<le> 2 ^ 64" "0 < unat per" using assms(2) by auto
  from task_ranges_spec [OF this(2,1), of 0] show ?thesis using p(1) by (simp add: split_work_def)
qed

text \<open>The calls of the kernel in a task whose body never fails; \<open>view\<close> is what the kernel looks at.\<close>

lemma task_loop_spec:
  assumes "\<And>gi j. length gi = 3 \<Longrightarrow> j < stop \<Longrightarrow> \<exists>gi'. body gi j = Inr gi' \<and> length gi' = 3 \<and> view gi' = f (unat j)"
    "length gi = 3"
  shows "\<exists>calls gi'. task_loop body j stop gi = Inr (calls, gi') \<and>
    map view calls = map f [unat j..<unat stop] \<and> length gi' = 3"
  using assms(2)
proof (induction "unat stop - unat j" arbitrary: j gi rule: less_induct)
  case less
  show ?case
  proof (cases "j < stop")
    case False
    then show ?thesis using less(2) by (simp add: task_loop.simps [of body j] word_less_nat_alt)
  next
    case True
    obtain gi1 where g: "body gi j = Inr gi1" "length gi1 = 3" "view gi1 = f (unat j)"
      using assms(1) [OF less(2) True] by blast
    have s: "unat (j + 1) = Suc (unat j)" using True by (rule unat_Suc_nowrap)
    have js: "unat j < unat stop" using True by (simp add: word_less_nat_alt)
    then have "unat stop - unat (j + 1) < unat stop - unat j" using s by linarith
    from less(1) [OF this g(2)] obtain calls gi' where "task_loop body (j + 1) stop gi1 = Inr (calls, gi')"
      "map view calls = map f [Suc (unat j)..<unat stop]" "length gi' = 3"
      using s by auto
    then show ?thesis
      using True g js by (simp add: task_loop.simps [of body j] upt_rec [of "unat j"])
  qed
qed

section \<open>The kernel calls of all tasks\<close>

text \<open>
  What the kernel sees in all tasks together, in the order of the tasks, when each task starts with
  the \<open>global_index\<close> of the thread that runs it; \<open>None\<close> when a task fails.
\<close>

fun kernel_calls :: "cl_task list \<Rightarrow> global_index list \<Rightarrow> global_index list option" where
  "kernel_calls [] gis = Some []"
| "kernel_calls (t # ts) [] = None"
| "kernel_calls (t # ts) (gi # gis) =
     (case t gi of
        Inl e \<Rightarrow> None
      | Inr (calls, gi') \<Rightarrow> map_option (\<lambda>rest. calls @ rest) (kernel_calls ts gis))"

text \<open>The ids that the kernel reads with \<open>get_global_id\<close>.\<close>

definition ids_2d :: "global_index \<Rightarrow> (cpp_error + u64) \<times> (cpp_error + u64)" where
  "ids_2d gi = (get_global_id gi 0, get_global_id gi 1)"

definition ids_3d :: "global_index \<Rightarrow> (cpp_error + u64) \<times> (cpp_error + u64) \<times> (cpp_error + u64)" where
  "ids_3d gi = (get_global_id gi 0, get_global_id gi 1, get_global_id gi 2)"

lemma kernel_calls_spec:
  assumes "\<And>r gi. r \<in> set rs \<Longrightarrow> length gi = 3 \<Longrightarrow>
      \<exists>calls gi'. task r gi = Inr (calls, gi') \<and> map view calls = map f [unat (fst r)..<unat (fst r) + unat (snd r)]"
    "length gis = length rs" "\<forall>gi \<in> set gis. length gi = 3"
  shows "\<exists>calls. kernel_calls (map task rs) gis = Some calls \<and>
    map view calls = map f (concat (map (\<lambda>(a, c). [unat a..<unat a + unat c]) rs))"
  using assms
proof (induction rs arbitrary: gis)
  case (Cons r rs)
  obtain gi gis' where g: "gis = gi # gis'" using Cons.prems(2) by (cases gis) auto
  obtain calls gi' where c: "task r gi = Inr (calls, gi')"
    "map view calls = map f [unat (fst r)..<unat (fst r) + unat (snd r)]"
    using Cons.prems(1) [of r gi] Cons.prems(3) g by auto
  have "\<exists>calls. kernel_calls (map task rs) gis' = Some calls \<and>
      map view calls = map f (concat (map (\<lambda>(a, c). [unat a..<unat a + unat c]) rs))"
    using Cons g by (intro Cons.IH) auto
  then show ?case using c g by (cases r) auto
qed simp

lemma unat_range:
  fixes a c W :: u64
  assumes "unat a + unat c \<le> unat W"
  shows "unat (a + c) = unat a + unat c"
proof -
  have "unat W < 2 ^ LENGTH(64)" by (rule unsigned_less)
  then show ?thesis using assms by (intro unat_plus_nowrap) (rule order.strict_trans1)
qed

lemma array_write_3: "length gi = 3 \<Longrightarrow> unat i < 3 \<Longrightarrow> array_write gi i v = Inr (gi[unat i := v])"
  by (simp add: array_write_def)

lemma task_1d_spec:
  fixes W :: u64
  assumes "unat off + unat W < 2 ^ 64" "unat (fst r) + unat (snd r) \<le> unat W" "length gi = 3"
  shows "\<exists>calls gi'. task_1d off r gi = Inr (calls, gi') \<and>
    map (\<lambda>gi. get_global_id gi 0) calls = map (\<lambda>k. Inr (off + word_of_nat k)) [unat (fst r)..<unat (fst r) + unat (snd r)]"
proof -
  have s: "unat (off + fst r) = unat off + unat (fst r)"
    using assms(1,2) by (intro unat_plus_nowrap) simp
  have e: "unat (off + fst r + snd r) = unat off + unat (fst r) + unat (snd r)"
    using assms(1,2) by (subst unat_plus_nowrap) (simp_all add: s)
  have "\<exists>calls gi'. task_loop body_1d (off + fst r) (off + fst r + snd r) gi = Inr (calls, gi') \<and>
      map (\<lambda>gi. get_global_id gi 0) calls = map (\<lambda>k. Inr (word_of_nat k)) [unat (off + fst r)..<unat (off + fst r + snd r)] \<and> length gi' = 3"
    by (rule task_loop_spec [OF _ assms(3)]) (auto simp: body_1d_def set_global_id_def array_write_3 get_global_id_def array_read_def)
  moreover have "map (\<lambda>k. Inr (word_of_nat k) :: cpp_error + u64) [unat (off + fst r)..<unat (off + fst r + snd r)] =
      map (\<lambda>k. Inr (off + word_of_nat k)) [unat (fst r)..<unat (fst r) + unat (snd r)]"
    by (rule nth_equalityI) (simp_all only: s e length_map length_upt nth_map_upt nth_upt, simp_all)
  ultimately show ?thesis by (auto simp: task_1d_def)
qed

lemma task_2d_spec:
  fixes W :: u64
  assumes "sx \<noteq> 0" "unat (fst r) + unat (snd r) \<le> unat W" "length gi = 3"
  shows "\<exists>calls gi'. task_2d off sx r gi = Inr (calls, gi') \<and>
    map ids_2d calls =
      map (\<lambda>k. (Inr (fst off + word_of_nat k mod sx), Inr (snd off + word_of_nat k div sx)))
        [unat (fst r)..<unat (fst r) + unat (snd r)]"
proof -
  have "\<exists>calls gi'. task_loop (body_2d off sx) (fst r) (fst r + snd r) gi = Inr (calls, gi') \<and>
      map ids_2d calls =
        map (\<lambda>k. (Inr (fst off + word_of_nat k mod sx), Inr (snd off + word_of_nat k div sx)))
          [unat (fst r)..<unat (fst r + snd r)] \<and> length gi' = 3"
    by (rule task_loop_spec [OF _ assms(3)])
      (auto simp: body_2d_def umod_def udiv_def assms(1) set_global_id_def array_write_3 ids_2d_def get_global_id_def array_read_def)
  then show ?thesis using unat_range [OF assms(2)] by (auto simp: task_2d_def)
qed

lemma task_3d_spec:
  fixes W :: u64
  assumes "sx * sy \<noteq> 0" "sx \<noteq> 0" "unat (fst r) + unat (snd r) \<le> unat W" "length gi = 3"
  shows "\<exists>calls gi'. task_3d (ox, oy, oz) (sx, sy, sz) r gi = Inr (calls, gi') \<and>
    map ids_3d calls =
      map (\<lambda>k. (Inr (ox + word_of_nat k mod sx), Inr (oy + (word_of_nat k mod (sx * sy)) div sx),
                 Inr (oz + word_of_nat k div (sx * sy))))
        [unat (fst r)..<unat (fst r) + unat (snd r)]"
proof -
  have "\<exists>calls gi'. task_loop (body_3d (ox, oy, oz) (sx, sy, sz)) (fst r) (fst r + snd r) gi = Inr (calls, gi') \<and>
      map ids_3d calls =
        map (\<lambda>k. (Inr (ox + word_of_nat k mod sx), Inr (oy + (word_of_nat k mod (sx * sy)) div sx),
                   Inr (oz + word_of_nat k div (sx * sy))))
          [unat (fst r)..<unat (fst r + snd r)] \<and> length gi' = 3"
    by (rule task_loop_spec [OF _ assms(4)])
      (auto simp: body_3d_def umod_def udiv_def assms(1,2) set_global_id_def array_write_3 ids_3d_def get_global_id_def array_read_def)
  then show ?thesis using unat_range [OF assms(3)] by (auto simp: task_3d_def)
qed

section \<open>Row-major enumeration of a range\<close>

definition row_major_2d :: "nat \<Rightarrow> nat \<Rightarrow> (nat \<times> nat) list" where
  "row_major_2d sx sy = concat (map (\<lambda>b. map (\<lambda>a. (a, b)) [0..<sx]) [0..<sy])"

definition row_major_3d :: "nat \<Rightarrow> nat \<Rightarrow> nat \<Rightarrow> (nat \<times> nat \<times> nat) list" where
  "row_major_3d sx sy sz = concat (map (\<lambda>c. map (\<lambda>(a, b). (a, b, c)) (row_major_2d sx sy)) [0..<sz])"

lemma upt_block: "[0..<n * Suc m] = [0..<n * m] @ map (\<lambda>a. n * m + a) [0..<n]"
proof -
  have "[0..<n * m + n] = [0..<n * m] @ [n * m..<n * m + n]" by (rule upt_add_eq_append) simp
  moreover have "map (\<lambda>a. n * m + a) [0..<n] = [n * m..<n * m + n]"
    using map_add_upt [of "n * m" n] by (simp add: add.commute)
  ultimately show ?thesis by (simp add: add.commute)
qed

lemma row_major_2d_index: "row_major_2d sx sy = map (\<lambda>k. (k mod sx, k div sx)) [0..<sx * sy]"
proof (induction sy)
  case (Suc sy)
  have "map (\<lambda>a. (a, sy)) [0..<sx] = map (\<lambda>k. (k mod sx, k div sx)) (map (\<lambda>a. sx * sy + a) [0..<sx])"
    by (auto simp del: upt_Suc)
  with Suc show ?case by (simp add: row_major_2d_def upt_block del: upt_Suc mult_Suc_right map_map) simp
qed (simp add: row_major_2d_def)

lemma row_major_3d_index:
  "row_major_3d sx sy sz =
     map (\<lambda>k. (k mod sx, k mod (sx * sy) div sx, k div (sx * sy))) [0..<sx * sy * sz]"
proof (induction sz)
  case (Suc sz)
  let ?f = "\<lambda>k. (k mod sx, k mod (sx * sy) div sx, k div (sx * sy))"
  have f: "?f (sx * sy * sz + k) = (k mod sx, k div sx, sz)" if "k < sx * sy" for k
  proof -
    have "(sx * (sy * sz) + k) mod sx = k mod sx" by (rule mod_mult_self4)
    moreover have "(sx * sy * sz + k) mod (sx * sy) = k" "(sx * sy * sz + k) div (sx * sy) = sz"
      using that by (simp, cases "sx * sy = 0") auto
    ultimately show ?thesis by (simp add: mult.assoc)
  qed
  have "map (\<lambda>(a, b). (a, b, sz)) (row_major_2d sx sy) = map ?f (map (\<lambda>a. sx * sy * sz + a) [0..<sx * sy])"
    using f by (simp add: row_major_2d_index del: upt_Suc)
  with Suc show ?case by (simp add: row_major_3d_def upt_block del: upt_Suc mult_Suc_right map_map) simp
qed (simp add: row_major_3d_def)

text \<open>An enumeration names every point of the range exactly once.\<close>

lemma distinct_row_major_2d: "distinct (row_major_2d sx sy)"
proof -
  have "inj_on (\<lambda>k. (k mod sx, k div sx)) {0..<sx * sy}"
    by (rule inj_onI) (metis div_mult_mod_eq prod.inject)
  then show ?thesis by (simp add: row_major_2d_index distinct_map)
qed

lemma set_row_major_2d: "set (row_major_2d sx sy) = {0..<sx} \<times> {0..<sy}"
  by (auto simp: row_major_2d_def)

lemma set_row_major_3d: "set (row_major_3d sx sy sz) = {0..<sx} \<times> {0..<sy} \<times> {0..<sz}"
  by (auto simp: row_major_3d_def set_row_major_2d)

section \<open>The work of an execution\<close>

text \<open>
  All kernel calls of an execution, whatever \<open>global_index\<close> the worker threads have, seen through
  \<open>view\<close>.
\<close>

definition runs_kernel_on ::
  "cpp_error + cl_task list option \<Rightarrow> (global_index \<Rightarrow> 'a) \<Rightarrow> 'a list \<Rightarrow> bool"
where
  "runs_kernel_on r view xs =
     (\<exists>ts. r = Inr (Some ts) \<and>
       (\<forall>gis. length gis = length ts \<and> (\<forall>gi \<in> set gis. length gi = 3) \<longrightarrow>
         (\<exists>calls. kernel_calls ts gis = Some calls \<and> map view calls = xs)))"

lemma runs_kernel_onI:
  assumes s: "split_work W n = Inr (Some rs)"
      "concat (map (\<lambda>(a, c). [unat a..<unat a + unat c]) rs) = [0..<unat W]"
      "\<forall>(a, c) \<in> set rs. unat a + unat c \<le> unat W"
    and t: "\<And>r gi. unat (fst r) + unat (snd r) \<le> unat W \<Longrightarrow> length gi = 3 \<Longrightarrow>
      \<exists>calls gi'. task r gi = Inr (calls, gi') \<and> map view calls = map f [unat (fst r)..<unat (fst r) + unat (snd r)]"
  shows "runs_kernel_on (Inr (Some (map task rs))) view (map f [0..<unat W])"
proof -
  have "\<exists>calls. kernel_calls (map task rs) gis = Some calls \<and> map view calls = map f [0..<unat W]"
    if g: "length gis = length (map task rs) \<and> (\<forall>gi \<in> set gis. length gi = 3)" for gis
  proof -
    have "\<exists>calls. kernel_calls (map task rs) gis = Some calls \<and>
        map view calls = map f (concat (map (\<lambda>(a, c). [unat a..<unat a + unat c]) rs))"
    proof (rule kernel_calls_spec [where task = task and view = view and f = f and rs = rs])
      fix r and gi :: global_index assume r: "r \<in> set rs" "length gi = 3"
      then have "unat (fst r) + unat (snd r) \<le> unat W" using s(3) by auto
      then show "\<exists>calls gi'. task r gi = Inr (calls, gi') \<and>
          map view calls = map f [unat (fst r)..<unat (fst r) + unat (snd r)]" using r(2) by (rule t)
    qed (use g in auto)
    then show ?thesis using s(2) by simp
  qed
  then show ?thesis by (auto simp: runs_kernel_on_def)
qed

section \<open>Properties\<close>

text \<open>
  For a one-dimensional range the kernel runs exactly once for every work item, whatever the
  number of worker threads is: over all tasks together, \<open>get_global_id(0)\<close> takes the values
  from the offset up to the offset plus the size, in order.
\<close>

theorem Execute_1d_enumerates:
  assumes "threads \<noteq> 0" "unat extent \<le> 2 ^ 63" "unat off + unat extent < 2 ^ 64"
  shows "runs_kernel_on (Execute_1d threads extent off) (\<lambda>gi. get_global_id gi 0)
    (map (\<lambda>k. Inr (off + word_of_nat k)) [0..<unat extent])"
proof -
  have n: "0 < unat threads" using assms(1) by (simp add: unat_gt_0)
  from split_work_spec [OF n assms(2)] obtain rs where rs: "split_work extent threads = Inr (Some rs)"
    "concat (map (\<lambda>(a, c). [unat a..<unat a + unat c]) rs) = [0..<unat extent]"
    "\<forall>(a, c) \<in> set rs. unat a + unat c \<le> unat extent" by blast
  have "runs_kernel_on (Inr (Some (map (task_1d off) rs))) (\<lambda>gi. get_global_id gi 0)
      (map (\<lambda>k. Inr (off + word_of_nat k)) [0..<unat extent])"
  proof (rule runs_kernel_onI [OF rs])
    fix r :: "u64 \<times> u64" and gi :: global_index
    assume "unat (fst r) + unat (snd r) \<le> unat extent" "length gi = 3"
    from task_1d_spec [OF assms(3) this]
    show "\<exists>calls gi'. task_1d off r gi = Inr (calls, gi') \<and> map (\<lambda>gi. get_global_id gi 0) calls =
        map (\<lambda>k. Inr (off + word_of_nat k)) [unat (fst r)..<unat (fst r) + unat (snd r)]" .
  qed
  then show ?thesis using rs(1) by (simp add: Execute_1d_def)
qed

theorem Execute_1d_enumerates_witness:
  "runs_kernel_on (Execute_1d 3 7 10) (\<lambda>gi. get_global_id gi 0) (map Inr [10, 11, 12, 13, 14, 15, 16])"
  using Execute_1d_enumerates [of 3 7 10] by (simp add: upt_rec)

text \<open>
  C12. For a two-dimensional range whose number of work items does not wrap, the kernel runs exactly
  once for every pair of ids, in row-major order and whatever the number of worker threads is.
\<close>

theorem Execute_2d_enumerates:
  assumes "threads \<noteq> 0" "sx \<noteq> 0" "unat sx * unat sy \<le> 2 ^ 63"
  shows "runs_kernel_on (Execute_2d threads (sx, sy) (ox, oy)) ids_2d
    (map (\<lambda>(a, b). (Inr (ox + word_of_nat a), Inr (oy + word_of_nat b))) (row_major_2d (unat sx) (unat sy)))"
proof -
  let ?f = "\<lambda>k. (Inr (ox + word_of_nat k mod sx), Inr (oy + word_of_nat k div sx)) :: (cpp_error + u64) \<times> (cpp_error + u64)"
  have n: "0 < unat threads" using assms(1) by (simp add: unat_gt_0)
  have u: "unat (sx * sy) = unat sx * unat sy" using assms(3) by (intro unat_mult_nowrap) simp
  then have "unat (sx * sy) \<le> 2 ^ 63" using assms(3) by simp
  from split_work_spec [OF n this] obtain rs where rs: "split_work (sx * sy) threads = Inr (Some rs)"
    "concat (map (\<lambda>(a, c). [unat a..<unat a + unat c]) rs) = [0..<unat (sx * sy)]"
    "\<forall>(a, c) \<in> set rs. unat a + unat c \<le> unat (sx * sy)" by blast
  have "runs_kernel_on (Inr (Some (map (task_2d (ox, oy) sx) rs))) ids_2d (map ?f [0..<unat (sx * sy)])"
    by (rule runs_kernel_onI [OF rs]) (use task_2d_spec [OF assms(2), of _ "sx * sy" _ "(ox, oy)"] in simp)
  moreover have w: "unat sx * unat sy < 2 ^ LENGTH(64)" using assms(3) by simp
  have "map ?f [0..<unat (sx * sy)] =
      map (\<lambda>(a, b). (Inr (ox + word_of_nat a), Inr (oy + word_of_nat b))) (row_major_2d (unat sx) (unat sy))"
    using w by (auto simp: u row_major_2d_index word_of_nat_mod_div)
  ultimately show ?thesis using rs(1) by (simp add: Execute_2d_def)
qed


theorem Execute_2d_enumerates_witness:
  "runs_kernel_on (Execute_2d 2 (2, 2) (7, 0)) ids_2d
     [(Inr 7, Inr 0), (Inr 8, Inr 0), (Inr 7, Inr 1), (Inr 8, Inr 1)]"
  using Execute_2d_enumerates [of 2 2 2 7 0] by (simp add: row_major_2d_def upt_rec)

text \<open>
  The same for three dimensions.
\<close>

theorem Execute_3d_enumerates:
  assumes "threads \<noteq> 0" "sx \<noteq> 0" "sy \<noteq> 0" "unat sx * unat sy * unat sz \<le> 2 ^ 63" "sz \<noteq> 0"
  shows "runs_kernel_on (Execute_3d threads (sx, sy, sz) (ox, oy, oz)) ids_3d
    (map (\<lambda>(a, b, c). (Inr (ox + word_of_nat a), Inr (oy + word_of_nat b), Inr (oz + word_of_nat c)))
      (row_major_3d (unat sx) (unat sy) (unat sz)))"
proof -
  let ?f = "\<lambda>k. (Inr (ox + word_of_nat k mod sx), Inr (oy + word_of_nat k mod (sx * sy) div sx),
    Inr (oz + word_of_nat k div (sx * sy))) :: (cpp_error + u64) \<times> (cpp_error + u64) \<times> (cpp_error + u64)"
  have n: "0 < unat threads" "0 < unat sx" "0 < unat sy" "0 < unat sz"
    using assms(1,2,3,5) by (simp_all add: unat_gt_0)
  have "unat sx * unat sy \<le> unat sx * unat sy * unat sz" using n by simp
  then have "unat sx * unat sy \<le> 2 ^ 63" using assms(4) by (rule order.trans)
  then have u: "unat (sx * sy) = unat sx * unat sy" by (intro unat_mult_nowrap) simp
  then have uz: "unat (sx * sy * sz) = unat sx * unat sy * unat sz"
    using assms(4) by (subst unat_mult_nowrap) simp_all
  then have "unat (sx * sy * sz) \<le> 2 ^ 63" using assms(4) by simp
  from split_work_spec [OF n(1) this] obtain rs where rs: "split_work (sx * sy * sz) threads = Inr (Some rs)"
    "concat (map (\<lambda>(a, c). [unat a..<unat a + unat c]) rs) = [0..<unat (sx * sy * sz)]"
    "\<forall>(a, c) \<in> set rs. unat a + unat c \<le> unat (sx * sy * sz)" by blast
  have "sx * sy \<noteq> 0" using u n by (metis mult_pos_pos unat_0 less_irrefl)
  note t = task_3d_spec [OF this assms(2), of _ "sx * sy * sz"]
  have "runs_kernel_on (Inr (Some (map (task_3d (ox, oy, oz) (sx, sy, sz)) rs))) ids_3d
      (map ?f [0..<unat (sx * sy * sz)])"
    by (rule runs_kernel_onI [OF rs]) (rule t)
  moreover have "?f k = (Inr (ox + word_of_nat (k mod unat sx)),
      Inr (oy + word_of_nat (k mod (unat sx * unat sy) div unat sx)),
      Inr (oz + word_of_nat (k div (unat sx * unat sy))))" if "k < unat (sx * sy * sz)" for k
  proof -
    have k: "k < 2 ^ LENGTH(64)" using that unsigned_less [of "sx * sy * sz"] by (rule order.strict_trans)
    have "k mod (unat sx * unat sy) \<le> k" by simp
    then have "k mod (unat sx * unat sy) < 2 ^ LENGTH(64)" using k by (rule order.strict_trans1)
    then show ?thesis using k by (simp add: word_of_nat_mod_div u)
  qed
  then have "map ?f [0..<unat (sx * sy * sz)] =
      map (\<lambda>(a, b, c). (Inr (ox + word_of_nat a), Inr (oy + word_of_nat b), Inr (oz + word_of_nat c)))
        (row_major_3d (unat sx) (unat sy) (unat sz))"
    by (simp add: row_major_3d_index uz)
  ultimately show ?thesis using rs(1) by (simp add: Execute_3d_def)
qed

theorem Execute_3d_enumerates_witness:
  "runs_kernel_on (Execute_3d 5 (2, 1, 2) (0, 3, 1)) ids_3d
     [(Inr 0, Inr 3, Inr 1), (Inr 1, Inr 3, Inr 1), (Inr 0, Inr 3, Inr 2), (Inr 1, Inr 3, Inr 2)]"
  using Execute_3d_enumerates [of 5 2 1 2 0 3 1] by (simp add: row_major_3d_def row_major_2d_def upt_rec)

text \<open>
  The number of work items is a product of 64-bit words: when it wraps to zero, no task is made
  and the kernel never runs, although the range is not empty.
\<close>

theorem wrapped_extent_runs_nothing:
  assumes "threads \<noteq> 0" "unat sx * unat sy mod 2 ^ 64 = 0"
  shows "Execute_2d threads (sx, sy) off = Inr (Some [])"
proof -
  have "unat (sx * sy) = 0" using assms(2) by (simp add: unat_word_ariths)
  then have "sx * sy = 0" by (simp add: unat_eq_0)
  then show ?thesis
    using assms(1)
    by (simp add: Execute_2d_def split_work_def work_items_per_task_def udiv_def task_ranges.simps)
qed

theorem wrapped_extent_runs_nothing_witness:
  "Execute_2d 4 (2 ^ 32, 2 ^ 32) (0, 0) = Inr (Some [])"
  by (rule wrapped_extent_runs_nothing) simp_all

text \<open>
  On a thread pool without threads the division of the work items is undefined.
\<close>

lemma no_threads_undefined:
  "Execute_1d 0 e1 o1 = Inl undefined_behaviour \<and> Execute_2d 0 e2 o2 = Inl undefined_behaviour \<and>
   Execute_3d 0 e3 o3 = Inl undefined_behaviour"
  by (simp add: Execute_1d_def Execute_2d_def Execute_3d_def split_work_def work_items_per_task_def
      udiv_def split: prod.splits)

text \<open>
  \<open>WaitFor\<close> joins the futures of the tasks exactly as \<open>WhenAll\<close> does: the same state, guard and
  calls; so the future of an execution is set when all its tasks are.
\<close>

theorem WaitFor_is_WhenAll:
  "WhenAll h (map Some fs) = (fst (WaitFor h fs), fst (snd (WaitFor h fs)), Inr (snd (snd (WaitFor h fs))))"
proof -
  have "takeWhile Future_Valid (map Some fs) = map Some fs"
    by (simp add: Future_Valid_def takeWhile_eq_all_conv)
  then show ?thesis
    by (simp add: WhenAll_def WaitFor_def fold_Then_def fold_result_def Let_def split_beta comp_def
        list_all_iff Future_Valid_def del: takeWhile_eq_all_conv)
qed

end
