(* ===== verification/Future_Void.thy ===== *)
theory Future_Void
  imports Future_State
begin

text \<open>
  The specialisation \<open>FutureState<void>\<close> of \<open>include/azul/async/detail/FutureState.hpp\<close>, which repeats
  the code of the generic class. The system of futures uses one record for both; here the members
  and operations of the specialisation stand as they are written, and each is shown to do on a void
  cell of the store what the operation of the store does.

  An operation returns the object after its critical section and the continuations that it calls,
  or destroys, after it.
\<close>

section \<open>The class\<close>

record ('v, 'e) void_state =
  void_state' :: State
  void_exception :: "'e exn option"
  void_continuations :: "('v, 'e) continuation list"

definition Void_ctor :: "('v, 'e) void_state" where
  "Void_ctor = \<lparr>void_state' = Undefined, void_exception = None, void_continuations = []\<rparr>"

definition Void_IsReady :: "('v, 'e) void_state \<Rightarrow> bool" where
  "Void_IsReady fs = (void_state' fs \<noteq> Undefined)"

text \<open>One pass through the loop of \<open>Get\<close>.\<close>

definition Void_Get :: "('v, 'e) void_state \<Rightarrow> ('v, 'e) get_result" where
  "Void_Get fs =
     (case void_state' fs of
        Exception \<Rightarrow> (case void_exception fs of Some e \<Rightarrow> Throws e | None \<Rightarrow> RethrowsNull)
      | BrokenPromise \<Rightarrow> Throws (FutureError EC_BrokenPromise)
      | Ready \<Rightarrow> Returns None
      | Undefined \<Rightarrow> Blocks)"

definition Void_SetValue :: "('v, 'e) void_state \<Rightarrow> ('v, 'e) void_state \<times> ('v, 'e) continuation list" where
  "Void_SetValue fs =
     (if void_state' fs \<noteq> Undefined then (fs, [])
      else (fs\<lparr>void_state' := Ready\<rparr>, void_continuations fs))"

definition Void_SetException ::
  "('v, 'e) void_state \<Rightarrow> 'e exn \<Rightarrow> ('v, 'e) void_state \<times> ('v, 'e) continuation list"
where
  "Void_SetException fs ex =
     (let fs = fs\<lparr>void_exception := Some ex\<rparr>;
          fs = fs\<lparr>void_state' := Exception\<rparr>
      in (fs, void_continuations fs))"

text \<open>\<open>Then\<close> stores a continuation or calls it.\<close>

definition Void_Then ::
  "('v, 'e) void_state \<Rightarrow> ('v, 'e) continuation \<Rightarrow> ('v, 'e) void_state \<times> ('v, 'e) continuation list"
where
  "Void_Then fs k =
     (if void_state' fs = Undefined
      then (fs\<lparr>void_continuations := void_continuations fs @ [k]\<rparr>, [])
      else (fs, [k]))"

definition Void_NumberOfContinuations :: "('v, 'e) void_state \<Rightarrow> nat" where
  "Void_NumberOfContinuations fs = length (void_continuations fs)"

text \<open>The critical section of \<open>AboutToDestroyPromise\<close>, and \<open>_continuations.clear()\<close> after it.\<close>

definition Void_AboutToDestroyPromise :: "('v, 'e) void_state \<Rightarrow> ('v, 'e) void_state" where
  "Void_AboutToDestroyPromise fs =
     (if void_state' fs = Undefined then fs\<lparr>void_state' := BrokenPromise\<rparr> else fs)"

definition Void_clear :: "('v, 'e) void_state \<Rightarrow> ('v, 'e) void_state \<times> ('v, 'e) continuation list" where
  "Void_clear fs = (fs\<lparr>void_continuations := []\<rparr>, void_continuations fs)"

section \<open>The view of a cell of the store\<close>

definition as_void :: "('v, 'e) future_state \<Rightarrow> ('v, 'e) void_state" where
  "as_void fs =
     \<lparr>void_state' = state fs, void_exception = error fs, void_continuations = continuations fs\<rparr>"

definition cell :: "('v, 'e) store \<Rightarrow> nat \<Rightarrow> ('v, 'e) void_state" where
  "cell h s = as_void (states h ! s)"

text \<open>A void cell never holds a value: this is what every operation on it keeps.\<close>

definition void_cell :: "('v, 'e) store \<Rightarrow> nat \<Rightarrow> bool" where
  "void_cell h s = (s < length (states h) \<and> is_void (states h ! s) \<and> stored (states h ! s) = None)"

lemmas void_defs = Void_IsReady_def Void_Get_def Void_SetValue_def Void_SetException_def Void_Then_def
  Void_NumberOfContinuations_def Void_AboutToDestroyPromise_def Void_clear_def as_void_def cell_def
  void_cell_def upd_state_def Let_def

lemma void_ctor_agrees: "as_void (FutureState_new True) = Void_ctor"
  by (simp add: as_void_def FutureState_new_def Void_ctor_def)

lemma cell_acquire [simp]: "cell (acquire c h) s = cell h s"
  by (cases "(c, h)" rule: acquire.cases) (simp_all add: cell_def)

lemma void_cell_acquire [simp]: "void_cell (acquire c h) s = void_cell h s"
  by (cases "(c, h)" rule: acquire.cases) (simp_all add: void_cell_def)

lemma void_reads:
  assumes "void_cell h s"
  shows "Void_IsReady (cell h s) = IsReady h s" "Void_Get (cell h s) = Get h s"
    "Void_NumberOfContinuations (cell h s) = NumberOfContinuations h s"
  using assms
  by (simp_all add: void_defs IsReady_def Get_def NumberOfContinuations_def split: State.split)

lemma void_SetValue_simulates:
  assumes "void_cell h s"
  shows "Void_SetValue (cell h s) = (cell (fst (SetValue_void h s)) s,
      if IsReady h s then [] else void_continuations (cell h s))"
    "void_cell (fst (SetValue_void h s)) s"
  using assms by (simp_all add: void_defs SetValue_void_def IsReady_def)

lemma void_SetException_simulates:
  assumes "void_cell h s"
  shows "Void_SetException (cell h s) ex = (cell (fst (SetException h s ex)) s, void_continuations (cell h s))"
    "void_cell (fst (SetException h s ex)) s"
  using assms by (simp_all add: void_defs SetException_def)

lemma void_AboutToDestroyPromise_simulates:
  assumes "void_cell h s"
  shows "Void_AboutToDestroyPromise (cell h s) = cell (fst (AboutToDestroyPromise h s)) s"
    "void_cell (fst (AboutToDestroyPromise h s)) s"
  using assms by (simp_all add: void_defs AboutToDestroyPromise_def)

lemma void_clear_simulates:
  assumes "void_cell h s"
  shows "Void_clear (cell h s) = (cell (fst (clear_continuations h s)) s, void_continuations (cell h s))"
    "void_cell (fst (clear_continuations h s)) s"
  using assms by (simp_all add: void_defs clear_continuations_def)

lemma void_Then_simulates:
  assumes "void_cell h s"
  shows "Void_Then (cell h s) k =
      (cell (fst (FutureState_Then h s k)) s, if IsReady h s then [k] else [])"
    "void_cell (fst (FutureState_Then h s k)) s"
proof -
  have v: "void_cell (acquire (callable k) h) s" "cell (acquire (callable k) h) s = cell h s"
    using assms by simp_all
  then have "state (states (acquire (callable k) h) ! s) = state (states h ! s)"
    by (simp add: cell_def as_void_def)
  then show "Void_Then (cell h s) k =
      (cell (fst (FutureState_Then h s k)) s, if IsReady h s then [k] else [])"
    "void_cell (fst (FutureState_Then h s k)) s"
    using v by (auto simp: FutureState_Then_def IsReady_def void_defs)
qed

section \<open>Properties\<close>

text \<open>
  C26. The hand-written specialisation \<open>FutureState<void>\<close> and the void cells of the store agree:
  every operation of the class gives what the operation of the store gives seen through \<open>cell\<close>,
  reads the same, and calls the same continuations.
\<close>

theorem void_specialisation_agrees:
  assumes "void_cell h s"
  shows "Void_IsReady (cell h s) = IsReady h s \<and> Void_Get (cell h s) = Get h s \<and>
    Void_NumberOfContinuations (cell h s) = NumberOfContinuations h s \<and>
    fst (Void_SetValue (cell h s)) = cell (fst (SetValue_void h s)) s \<and>
    map (RunContinuation s) [0..<length (snd (Void_SetValue (cell h s)))] = snd (SetValue_void h s) \<and>
    fst (Void_SetException (cell h s) ex) = cell (fst (SetException h s ex)) s \<and>
    map (RunContinuation s) [0..<length (snd (Void_SetException (cell h s) ex))] = snd (SetException h s ex) \<and>
    fst (Void_Then (cell h s) k) = cell (fst (FutureState_Then h s k)) s \<and>
    concat (map (\<lambda>k. [RunTemporary k, DropPromise (promise k)]) (snd (Void_Then (cell h s) k))) =
      snd (FutureState_Then h s k) \<and>
    Void_AboutToDestroyPromise (cell h s) = cell (fst (AboutToDestroyPromise h s)) s \<and>
    fst (Void_clear (cell h s)) = cell (fst (clear_continuations h s)) s \<and>
    concat (map destroy_continuation (snd (Void_clear (cell h s)))) = snd (clear_continuations h s)"
proof -
  have a: "state (states (acquire (callable k) h) ! s) = state (states h ! s)"
    using cell_acquire [of "callable k" h s] by (simp add: cell_def as_void_def)
  have "snd (SetValue_void h s) = map (RunContinuation s) [0..<length (snd (Void_SetValue (cell h s)))]"
    by (simp add: SetValue_void_def run_continuations_def void_defs)
  moreover have "snd (SetException h s ex) = map (RunContinuation s) [0..<length (snd (Void_SetException (cell h s) ex))]"
    by (simp add: SetException_def run_continuations_def void_defs)
  moreover have "snd (FutureState_Then h s k) =
      concat (map (\<lambda>k. [RunTemporary k, DropPromise (promise k)]) (snd (Void_Then (cell h s) k)))"
    using a by (simp add: FutureState_Then_def Let_def) (simp add: void_defs)
  moreover have "snd (clear_continuations h s) = concat (map destroy_continuation (snd (Void_clear (cell h s))))"
    by (simp add: clear_continuations_def void_defs)
  ultimately show ?thesis
    using assms
    by (simp add: void_reads void_SetValue_simulates void_SetException_simulates void_Then_simulates
        void_AboutToDestroyPromise_simulates void_clear_simulates)
qed

definition one_void :: "(nat, nat) store" where
  "one_void = fst (make_state True empty_store)"

lemma one_void_cell: "void_cell one_void 0"
  by (simp add: one_void_def void_cell_def make_state_def empty_store_def FutureState_new_def)

theorem void_specialisation_agrees_witness:
  "fst (Void_Then (cell one_void 0) (then_continuation (SetShared 0) 0 0)) =
     cell (fst (FutureState_Then one_void 0 (then_continuation (SetShared 0) 0 0))) 0"
  using void_specialisation_agrees [OF one_void_cell, of undefined] by blast

end
