(* ===== verification/Future_Sync.thy ===== *)
theory Future_Sync
  imports Future_Void Future_Api
begin

text \<open>
  The blocking calls of \<open>FutureState\<close>: \<open>Get\<close>, \<open>Wait\<close> and \<open>WaitFor\<close> on the condition variable
  \<open>_condition\<close>, which every operation that sets the state notifies. A call is split where
  \<open>_condition.wait\<close> releases the mutex: entering it is a critical section that ends or goes to
  sleep, and resuming it is the critical section after the wait returned.

  As the C++ standard allows, a wait may return without a notification, and a timed wait may report
  a timeout at any time.
\<close>

section \<open>The calls\<close>

datatype wait_call = CallGet | CallWait | CallWaitFor

datatype ('v, 'e) wait_result = Got "('v, 'e) get_result" | Waited | WaitedFor bool

text \<open>Where a thread is in its call on the state: asleep, awake before its next critical section, or at the end.\<close>

datatype ('v, 'e) waiter =
    Asleep nat wait_call
  | Awake nat wait_call
  | Done nat wait_call "('v, 'e) wait_result"

definition Get_enter :: "('v, 'e) store \<Rightarrow> nat \<Rightarrow> ('v, 'e) waiter" where
  "Get_enter h s = (case Get h s of Blocks \<Rightarrow> Asleep s CallGet | r \<Rightarrow> Done s CallGet (Got r))"

text \<open>After the wait the loop of \<open>Get\<close> reads the state again.\<close>

definition Get_resume :: "('v, 'e) store \<Rightarrow> nat \<Rightarrow> ('v, 'e) waiter" where
  "Get_resume h s = Get_enter h s"

definition Wait_enter :: "('v, 'e) store \<Rightarrow> nat \<Rightarrow> ('v, 'e) waiter" where
  "Wait_enter h s =
     (if state (states h ! s) = Undefined then Asleep s CallWait else Done s CallWait Waited)"

text \<open>\<open>Wait\<close> tests the state with \<open>if\<close>, not in a loop: it returns after the first wake-up.\<close>

definition Wait_resume :: "nat \<Rightarrow> ('v, 'e) waiter" where
  "Wait_resume s = Done s CallWait Waited"

definition WaitFor_enter :: "('v, 'e) store \<Rightarrow> nat \<Rightarrow> ('v, 'e) waiter" where
  "WaitFor_enter h s =
     (if state (states h ! s) = Undefined then Asleep s CallWaitFor
      else Done s CallWaitFor (WaitedFor True))"

text \<open>\<open>timed_out\<close>: \<open>wait_for\<close> returned \<open>std::cv_status::timeout\<close>.\<close>

definition WaitFor_resume :: "nat \<Rightarrow> bool \<Rightarrow> ('v, 'e) waiter" where
  "WaitFor_resume s timed_out = Done s CallWaitFor (WaitedFor (\<not> timed_out))"

text \<open>The same calls of \<open>FutureState<void>\<close> on its own cell.\<close>

definition Void_Wait_enter :: "('v, 'e) void_state \<Rightarrow> nat \<Rightarrow> ('v, 'e) waiter" where
  "Void_Wait_enter fs s =
     (if void_state' fs = Undefined then Asleep s CallWait else Done s CallWait Waited)"

definition Void_wait_for_enter :: "('v, 'e) void_state \<Rightarrow> nat \<Rightarrow> ('v, 'e) waiter" where
  "Void_wait_for_enter fs s =
     (if void_state' fs = Undefined then Asleep s CallWaitFor
      else Done s CallWaitFor (WaitedFor True))"

text \<open>\<open>Future::Wait\<close> and \<open>Future::WaitFor\<close> check the pointer first.\<close>

definition Future_Wait :: "('v, 'e) store \<Rightarrow> handle \<Rightarrow> 'e exn + ('v, 'e) waiter" where
  "Future_Wait h f = (case Check f of Inl e \<Rightarrow> Inl e | Inr s \<Rightarrow> Inr (Wait_enter h s))"

definition Future_WaitFor :: "('v, 'e) store \<Rightarrow> handle \<Rightarrow> 'e exn + ('v, 'e) waiter" where
  "Future_WaitFor h f = (case Check f of Inl e \<Rightarrow> Inl e | Inr s \<Rightarrow> Inr (WaitFor_enter h s))"

lemma void_calls_agree:
  "Void_Wait_enter (cell h s) s = Wait_enter h s" "Void_wait_for_enter (cell h s) s = WaitFor_enter h s"
  by (simp_all add: Void_Wait_enter_def Wait_enter_def Void_wait_for_enter_def WaitFor_enter_def
      cell_def as_void_def)

fun enter :: "('v, 'e) store \<Rightarrow> nat \<Rightarrow> wait_call \<Rightarrow> ('v, 'e) waiter" where
  "enter h s CallGet = Get_enter h s"
| "enter h s CallWait = Wait_enter h s"
| "enter h s CallWaitFor = WaitFor_enter h s"

fun resume :: "('v, 'e) store \<Rightarrow> nat \<Rightarrow> wait_call \<Rightarrow> bool \<Rightarrow> ('v, 'e) waiter" where
  "resume h s CallGet timed_out = Get_resume h s"
| "resume h s CallWait timed_out = Wait_resume s"
| "resume h s CallWaitFor timed_out = WaitFor_resume s timed_out"

section \<open>Notifications\<close>

fun wake :: "nat \<Rightarrow> ('v, 'e) waiter \<Rightarrow> ('v, 'e) waiter" where
  "wake s (Asleep s' c) = (if s' = s then Awake s' c else Asleep s' c)"
| "wake s w = w"

definition notify_all :: "nat \<Rightarrow> ('v, 'e) waiter option list \<Rightarrow> ('v, 'e) waiter option list" where
  "notify_all s ws = map (map_option (wake s)) ws"

text \<open>
  The operations that notify, and whether they reach \<open>_condition.notify_all()\<close>: the two members
  \<open>SetValue\<close> leave before it when the state is set.
\<close>

datatype ('v, 'e) completion = SetsValue "'v option" | SetsVoid | SetsException "'e exn" | Destroys

fun complete :: "('v, 'e) store \<Rightarrow> nat \<Rightarrow> ('v, 'e) completion \<Rightarrow> ('v, 'e) store \<times> bool" where
  "complete h s (SetsValue v) = (case SetValue h s v of Inl e \<Rightarrow> (h, False) | Inr (h', cs) \<Rightarrow> (h', True))"
| "complete h s SetsVoid = (fst (SetValue_void h s), state (states h ! s) = Undefined)"
| "complete h s (SetsException e) = (fst (SetException h s e), True)"
| "complete h s Destroys = (fst (AboutToDestroyPromise h s), True)"

section \<open>Threads that wait\<close>

record ('v, 'e) sync =
  heap :: "('v, 'e) store"
  threads :: "('v, 'e) waiter option list"

text \<open>What every other operation leaves alone: the results of the states there are; a new state is unset.\<close>

definition keeps_results :: "('v, 'e) store \<Rightarrow> ('v, 'e) store \<Rightarrow> bool" where
  "keeps_results h h' =
     (length (states h) \<le> length (states h') \<and>
      (\<forall>s < length (states h). state (states h' ! s) = state (states h ! s) \<and>
         stored (states h' ! s) = stored (states h ! s) \<and> error (states h' ! s) = error (states h ! s)) \<and>
      (\<forall>s < length (states h'). length (states h) \<le> s \<longrightarrow> state (states h' ! s) = Undefined))"

inductive sync_step :: "('v, 'e) sync \<Rightarrow> ('v, 'e) sync \<Rightarrow> bool" where
  Sync_Call: "i < length (threads g) \<Longrightarrow> threads g ! i = None \<Longrightarrow> s < length (states (heap g)) \<Longrightarrow>
    sync_step g (g\<lparr>threads := (threads g)[i := Some (enter (heap g) s c)]\<rparr>)"
| Sync_Wake: "i < length (threads g) \<Longrightarrow> threads g ! i = Some (Asleep s c) \<Longrightarrow>
    sync_step g (g\<lparr>threads := (threads g)[i := Some (Awake s c)]\<rparr>)"
| Sync_Resume: "i < length (threads g) \<Longrightarrow> threads g ! i = Some (Awake s c) \<Longrightarrow>
    sync_step g (g\<lparr>threads := (threads g)[i := Some (resume (heap g) s c timed_out)]\<rparr>)"
| Sync_Return: "i < length (threads g) \<Longrightarrow> threads g ! i = Some (Done s c r) \<Longrightarrow>
    sync_step g (g\<lparr>threads := (threads g)[i := None]\<rparr>)"
| Sync_Complete: "s < length (states (heap g)) \<Longrightarrow> complete (heap g) s op = (h', notified) \<Longrightarrow>
    sync_step g (g\<lparr>heap := h', threads := (if notified then notify_all s (threads g) else threads g)\<rparr>)"
| Sync_Other: "keeps_results (heap g) h' \<Longrightarrow> sync_step g (g\<lparr>heap := h'\<rparr>)"

definition sync_start :: "nat \<Rightarrow> ('v, 'e) sync" where
  "sync_start n = \<lparr>heap = empty_store, threads = replicate n None\<rparr>"

inductive sync_reachable :: "nat \<Rightarrow> ('v, 'e) sync \<Rightarrow> bool" for n where
  sync_init: "sync_reachable n (sync_start n)"
| sync_next: "sync_reachable n g \<Longrightarrow> sync_step g g' \<Longrightarrow> sync_reachable n g'"

section \<open>Invariant\<close>

text \<open>A state that holds an exception holds a pointer to one.\<close>

definition results_ok :: "('v, 'e) store \<Rightarrow> bool" where
  "results_ok h = (\<forall>s < length (states h). state (states h ! s) = Exception \<longrightarrow> error (states h ! s) \<noteq> None)"

fun waiter_ok :: "('v, 'e) store \<Rightarrow> ('v, 'e) waiter \<Rightarrow> bool" where
  "waiter_ok h (Asleep s c) \<longleftrightarrow> s < length (states h) \<and> \<not> IsReady h s"
| "waiter_ok h (Awake s c) \<longleftrightarrow> s < length (states h)"
| "waiter_ok h (Done s c r) \<longleftrightarrow> s < length (states h) \<and> (c = CallGet \<longrightarrow>
     IsReady h s \<and> (r = Got (Throws (FutureError EC_BrokenPromise)) \<or> (\<exists>v. r = Got (Returns v)) \<or>
       (\<exists>e. r = Got (Throws e))))"

definition sync_ok :: "('v, 'e) sync \<Rightarrow> bool" where
  "sync_ok g \<longleftrightarrow> results_ok (heap g) \<and> (\<forall>w. Some w \<in> set (threads g) \<longrightarrow> waiter_ok (heap g) w)"

text \<open>How the results change: a set state stays set.\<close>

definition stays_set :: "('v, 'e) store \<Rightarrow> ('v, 'e) store \<Rightarrow> bool" where
  "stays_set h h' \<longleftrightarrow> length (states h) \<le> length (states h') \<and>
     (\<forall>s < length (states h). IsReady h s \<longrightarrow> IsReady h' s)"

lemma Get_set:
  assumes "results_ok h" "s < length (states h)" "IsReady h s"
  shows "(\<exists>v. Get h s = Returns v) \<or> (\<exists>e. Get h s = Throws e)"
  using assms by (cases "state (states h ! s)") (auto simp: results_ok_def Get_def IsReady_def Let_def)

lemma Get_blocks_iff: "Get h s = Blocks \<longleftrightarrow> \<not> IsReady h s"
  by (cases "state (states h ! s)") (auto simp: Get_def IsReady_def Let_def split: option.split)

lemma enter_ok:
  assumes "results_ok h" "s < length (states h)"
  shows "waiter_ok h (enter h s c)"
proof (cases "IsReady h s")
  case True
  then show ?thesis
    using Get_set [OF assms True] assms(2)
    by (cases c) (auto simp: Get_enter_def Wait_enter_def WaitFor_enter_def IsReady_def)
next
  case False
  then have "Get h s = Blocks" by (simp add: Get_blocks_iff)
  then show ?thesis
    using False assms(2) by (cases c) (auto simp: Get_enter_def Wait_enter_def WaitFor_enter_def IsReady_def)
qed

lemma resume_ok:
  assumes "results_ok h" "s < length (states h)"
  shows "waiter_ok h (resume h s c b)"
  using assms enter_ok [OF assms, of CallGet]
  by (cases c) (auto simp: Get_resume_def Wait_resume_def WaitFor_resume_def)

lemma complete_spec:
  assumes "complete h s op = (h', n)" "s < length (states h)"
  shows "length (states h') = length (states h)" "results_ok h \<Longrightarrow> results_ok h'" "stays_set h h'"
    "u \<noteq> s \<Longrightarrow> IsReady h' u = IsReady h u" "\<not> n \<Longrightarrow> h' = h"
  using assms
  by (cases op; auto simp: SetValue_def SetValue_void_def SetException_def AboutToDestroyPromise_def
      upd_state_def results_ok_def stays_set_def IsReady_def nth_list_update split: if_splits)+

lemma keeps_results_spec:
  assumes "keeps_results h h'"
  shows "results_ok h \<Longrightarrow> results_ok h'" "stays_set h h'"
    "u < length (states h) \<Longrightarrow> IsReady h' u = IsReady h u"
  using assms
  by (auto simp: keeps_results_def results_ok_def stays_set_def IsReady_def not_less)

lemma waiter_ok_stays:
  assumes "waiter_ok h w" "stays_set h h'" "\<And>s c. w = Asleep s c \<Longrightarrow> \<not> IsReady h' s"
  shows "waiter_ok h' w"
  using assms by (cases w) (auto simp: stays_set_def)

lemma sync_ok_step:
  assumes "sync_step g g'" "sync_ok g"
  shows "sync_ok g'"
  using assms
proof cases
  case (Sync_Complete s op h' n)
  note c = complete_spec [OF Sync_Complete(3,2)]
  have "waiter_ok h' w" if w: "Some w \<in> set (threads g')" for w
  proof -
    obtain v where v: "Some v \<in> set (threads g)" "w = (if n then wake s v else v)"
      using w Sync_Complete(1)
      by (cases n) (auto simp: notify_all_def eq_commute [of "Some w"])
    then have "waiter_ok (heap g) v" using assms(2) by (simp add: sync_ok_def)
    then show ?thesis
      using v(2) c(3-5) by (cases v; cases n) (auto simp: stays_set_def split: if_splits)
  qed
  then show ?thesis using assms(2) c(2) Sync_Complete(1) by (simp add: sync_ok_def)
next
  case (Sync_Other h')
  note k = keeps_results_spec [OF Sync_Other(2)]
  have "waiter_ok h' w" if w: "Some w \<in> set (threads g)" for w
  proof -
    have "waiter_ok (heap g) w" using w assms(2) by (simp add: sync_ok_def)
    then show ?thesis using k(2,3) by (cases w) (auto simp: stays_set_def)
  qed
  then show ?thesis using assms(2) k(1) Sync_Other(1) by (simp add: sync_ok_def)
next
  case (Sync_Call i s c)
  then show ?thesis
    using assms(2) enter_ok [of "heap g" s c]
    by (auto simp: sync_ok_def dest!: set_update_subset_insert [THEN subsetD])
next
  case (Sync_Wake i s c)
  then have "Some (Asleep s c) \<in> set (threads g)" by (metis nth_mem)
  with Sync_Wake assms(2) show ?thesis
    by (auto simp: sync_ok_def dest!: set_update_subset_insert [THEN subsetD])
next
  case (Sync_Resume i s c b)
  then have "Some (Awake s c) \<in> set (threads g)" by (metis nth_mem)
  with Sync_Resume assms(2) resume_ok [of "heap g" s c b] show ?thesis
    by (auto simp: sync_ok_def dest!: set_update_subset_insert [THEN subsetD])
next
  case (Sync_Return i s c r)
  with assms(2) show ?thesis
    by (auto simp: sync_ok_def dest!: set_update_subset_insert [THEN subsetD])
qed

lemma sync_reachable_ok:
  assumes "sync_reachable n g"
  shows "sync_ok g"
  using assms
proof induction
  case (sync_next g g')
  then show ?case by (blast intro: sync_ok_step)
qed (simp add: sync_ok_def sync_start_def empty_store_def results_ok_def)

section \<open>Properties\<close>

fun waits_on :: "('v, 'e) waiter \<Rightarrow> nat \<Rightarrow> wait_call \<Rightarrow> bool" where
  "waits_on (Asleep s c) s' c' = (s = s' \<and> c = c')"
| "waits_on (Awake s c) s' c' = (s = s' \<and> c = c')"
| "waits_on (Done s c r) s' c' = False"

text \<open>
  C6. No wake-up is lost: once the state is set, no thread that waits for it is asleep, and the next
  critical section of its call ends it, \<open>Get\<close> with the result or the exception of the state.
\<close>

theorem set_state_wakes_every_waiter:
  assumes "sync_reachable n g" "Some w \<in> set (threads g)" "waits_on w s c" "IsReady (heap g) s"
  shows "w = Awake s c \<and>
    (\<exists>r. resume (heap g) s c b = Done s c r \<and>
      (c = CallGet \<longrightarrow> r = Got (Get (heap g) s) \<and>
        ((\<exists>v. Get (heap g) s = Returns v) \<or> (\<exists>e. Get (heap g) s = Throws e))))"
proof -
  have ok: "results_ok (heap g)" "waiter_ok (heap g) w"
    using sync_reachable_ok [OF assms(1)] assms(2) by (simp_all add: sync_ok_def)
  then have w: "w = Awake s c" "s < length (states (heap g))"
    using assms(3,4) by (cases w; auto)+
  then have "(\<exists>v. Get (heap g) s = Returns v) \<or> (\<exists>e. Get (heap g) s = Throws e)"
    using Get_set [OF ok(1)] assms(4) by blast
  then show ?thesis
    using w by (cases c) (auto simp: Get_resume_def Get_enter_def Wait_resume_def WaitFor_resume_def)
qed

text \<open>
  C28. \<open>Get\<close> returns or throws only for a state that is set, and never with a null exception.
\<close>

theorem Get_returns_only_when_set:
  assumes "sync_reachable n g" "Some (Done s CallGet r) \<in> set (threads g)"
  shows "IsReady (heap g) s \<and> ((\<exists>v. r = Got (Returns v)) \<or> (\<exists>e. r = Got (Throws e)))"
  using sync_reachable_ok [OF assms(1)] assms(2) by (auto simp: sync_ok_def)

text \<open>A run of two threads on one state: both wait, one wakes up by itself, the other is notified.\<close>

definition sync_run :: "nat \<Rightarrow> (nat, nat) sync" where
  "sync_run k =
     (let g0 = (sync_start 2 :: (nat, nat) sync)\<lparr>heap := fst (make_state False empty_store)\<rparr>;
          g1 = g0\<lparr>threads := (threads g0)[0 := Some (enter (heap g0) 0 CallWait)]\<rparr>;
          g2 = g1\<lparr>threads := (threads g1)[1 := Some (enter (heap g1) 0 CallGet)]\<rparr>;
          g3 = g2\<lparr>threads := (threads g2)[0 := Some (Awake 0 CallWait)]\<rparr>;
          g4 = g3\<lparr>threads := (threads g3)[0 := Some (resume (heap g3) 0 CallWait False)]\<rparr>;
          g5 = g4\<lparr>heap := fst (complete (heap g4) 0 (SetsValue (Some 7))), threads := notify_all 0 (threads g4)\<rparr>;
          g6 = g5\<lparr>threads := (threads g5)[1 := Some (resume (heap g5) 0 CallGet False)]\<rparr>
      in [g0, g1, g2, g3, g4, g5, g6] ! k)"

lemmas sync_run_simps = sync_run_def sync_start_def make_state_def empty_store_def FutureState_new_def
  Get_enter_def Get_resume_def Wait_enter_def Wait_resume_def Get_def IsReady_def SetValue_def upd_state_def
  notify_all_def numeral_2_eq_2 Let_def

lemma sync_run_0: "sync_reachable 2 (sync_run 0)"
proof (rule sync_next [OF sync_init])
  show "sync_step (sync_start 2) (sync_run 0)"
    using Sync_Other [of "sync_start 2" "fst (make_state False empty_store)"]
    by (simp add: sync_run_simps keeps_results_def)
qed

lemma sync_run_4: "sync_reachable 2 (sync_run 4)"
proof -
  have "sync_reachable 2 (sync_run 1)"
    by (rule sync_next [OF sync_run_0])
      (use Sync_Call [of 0 "sync_run 0" 0 CallWait] in \<open>simp add: sync_run_simps\<close>)
  then have "sync_reachable 2 (sync_run 2)"
    by (rule sync_next) (use Sync_Call [of 1 "sync_run 1" 0 CallGet] in \<open>simp add: sync_run_simps\<close>)
  then have "sync_reachable 2 (sync_run 3)"
    by (rule sync_next) (use Sync_Wake [of 0 "sync_run 2" 0 CallWait] in \<open>simp add: sync_run_simps\<close>)
  then show ?thesis
    by (rule sync_next) (use Sync_Resume [of 0 "sync_run 3" 0 CallWait False] in \<open>simp add: sync_run_simps\<close>)
qed

lemma sync_run_6: "sync_reachable 2 (sync_run 5)" "sync_reachable 2 (sync_run 6)"
proof -
  show r: "sync_reachable 2 (sync_run 5)"
    by (rule sync_next [OF sync_run_4])
      (use Sync_Complete [of 0 "sync_run 4" "SetsValue (Some 7)" "heap (sync_run 5)" True]
        in \<open>simp add: sync_run_simps\<close>)
  show "sync_reachable 2 (sync_run 6)"
    by (rule sync_next [OF r])
      (use Sync_Resume [of 1 "sync_run 5" 0 CallGet False] in \<open>simp add: sync_run_simps\<close>)
qed

theorem set_state_wakes_every_waiter_witness:
  "Awake 0 CallGet = (Awake 0 CallGet :: (nat, nat) waiter) \<and>
   (\<exists>r. resume (heap (sync_run 5)) 0 CallGet False = Done 0 CallGet r)"
  using set_state_wakes_every_waiter [OF sync_run_6(1), of "Awake 0 CallGet" 0 CallGet False]
  by (simp add: sync_run_simps)

theorem Get_returns_only_when_set_witness:
  "IsReady (heap (sync_run 6)) 0 \<and> Some (Done 0 CallGet (Got (Returns (Some 7)))) \<in> set (threads (sync_run 6))"
  using Get_returns_only_when_set [OF sync_run_6(2), of 0 "Got (Returns (Some 7))"]
  by (simp add: sync_run_simps)

text \<open>
  \<open>Wait\<close> tests the state only once, so a wake-up without a notification ends it: there is an
  execution in which \<open>Wait\<close> has returned and the future is unset.
\<close>

theorem Wait_can_return_unset:
  "\<exists>g :: (nat, nat) sync. sync_reachable 2 g \<and> \<not> IsReady (heap g) 0 \<and>
     Some (Done 0 CallWait Waited) \<in> set (threads g)"
  using sync_run_4 by (intro exI [of _ "sync_run 4"]) (simp add: sync_run_simps)

end
