(* ===== verification/Ipc_Mutex.thy ===== *)
theory Ipc_Mutex
  imports Azul_Prelude
begin

text \<open>
  The contract of \<open>azul::ipc::sync::RobustMutex\<close> (\<open>include/azul/ipc/sync/RobustMutex.hpp\<close>), which
  three platforms implement: what a client such as \<open>std::unique_lock\<close> relies on. A thread is the
  pair of its process and a number; a process can exit at any time, also while one of its threads
  holds the mutex.

  An operation is a function of the calling thread and of the state of the mutex; \<open>None\<close> as the
  result of \<open>lock\<close> says that the call blocks.
\<close>

type_synonym thread = "nat \<times> nat"
type_synonym 'm lock_op = "thread \<Rightarrow> 'm \<Rightarrow> ('m \<times> (cpp_error + unit)) option"
type_synonym 'm unlock_op = "thread \<Rightarrow> 'm \<Rightarrow> 'm \<times> (cpp_error + unit)"

text \<open>\<open>std::cv_status\<close>, the result of a timed wait.\<close>

datatype cv_status = no_timeout | timeout

section \<open>Executions\<close>

text \<open>
  All interleavings of calls of any threads on a mutex, with the set of threads that are inside: the
  ones whose \<open>lock\<close> returned and that have not called \<open>unlock\<close> since. With \<open>disciplined\<close>, a thread
  only unlocks when it is inside.
\<close>

inductive mutex_use ::
  "bool \<Rightarrow> 'm lock_op \<Rightarrow> 'm unlock_op \<Rightarrow> (nat \<Rightarrow> 'm \<Rightarrow> 'm) \<Rightarrow> 'm \<Rightarrow> 'm \<Rightarrow> thread set \<Rightarrow> bool"
  for disciplined lock unlock exits m0
where
  Use_Init: "mutex_use disciplined lock unlock exits m0 m0 {}"
| Use_Lock: "mutex_use disciplined lock unlock exits m0 m I \<Longrightarrow> lock t m = Some (m', r) \<Longrightarrow>
    mutex_use disciplined lock unlock exits m0 m' (if r = Inr () then insert t I else I)"
| Use_Unlock: "mutex_use disciplined lock unlock exits m0 m I \<Longrightarrow> (disciplined \<Longrightarrow> t \<in> I) \<Longrightarrow>
    unlock t m = (m', r) \<Longrightarrow>
    mutex_use disciplined lock unlock exits m0 m' (if r = Inr () then I - {t} else I)"
| Use_Exit: "mutex_use disciplined lock unlock exits m0 m I \<Longrightarrow>
    mutex_use disciplined lock unlock exits m0 (exits p m) {t \<in> I. fst t \<noteq> p}"

section \<open>The contract\<close>

locale lockable =
  fixes lock :: "'m lock_op"
    and unlock :: "'m unlock_op"
    and exits :: "nat \<Rightarrow> 'm \<Rightarrow> 'm"
    and holder :: "'m \<Rightarrow> thread option"
    and sound :: "'m \<Rightarrow> bool"
  assumes lock_free: "sound m \<Longrightarrow> holder m = None \<Longrightarrow>
      \<exists>m'. lock t m = Some (m', Inr ()) \<and> holder m' = Some t \<and> sound m'"
    and lock_blocks: "sound m \<Longrightarrow> holder m = Some u \<Longrightarrow> u \<noteq> t \<Longrightarrow> lock t m = None"
    and lock_recursive: "sound m \<Longrightarrow> holder m = Some t \<Longrightarrow>
      \<exists>m' e. lock t m = Some (m', Inl e) \<and> holder m' = Some t \<and> sound m'"
    and unlock_held: "sound m \<Longrightarrow> holder m = Some t \<Longrightarrow>
      \<exists>m'. unlock t m = (m', Inr ()) \<and> holder m' = None \<and> sound m'"
    and exits_releases: "sound m \<Longrightarrow> sound (exits p m) \<and>
      holder (exits p m) = (case holder m of None \<Rightarrow> None | Some t \<Rightarrow> if fst t = p then None else Some t)"
begin

lemma lock_keeps:
  assumes "sound m \<and> I = set_option (holder m)" "lock t m = Some (m', r)"
  shows "sound m' \<and> (if r = Inr () then insert t I else I) = set_option (holder m')"
proof (cases "holder m")
  case None
  then show ?thesis using lock_free [of m t] assms by auto
next
  case (Some u)
  then have "u = t" using lock_blocks [of m u t] assms by auto
  then show ?thesis using Some lock_recursive [of m t] assms by auto
qed

lemma unlock_keeps:
  assumes "sound m \<and> I = set_option (holder m)" "holder m = Some t" "unlock t m = (m', r)"
  shows "sound m' \<and> (if r = Inr () then I - {t} else I) = set_option (holder m')"
  using assms unlock_held [of m t] by auto

lemma exit_keeps:
  assumes "sound m \<and> I = set_option (holder m)"
  shows "sound (exits p m) \<and> {t \<in> I. fst t \<noteq> p} = set_option (holder (exits p m))"
  using assms exits_releases [of m p] by (auto split: option.splits)

text \<open>Disciplined clients: exactly the holder is inside.\<close>

lemma disciplined_use:
  assumes "mutex_use True lock unlock exits m0 m I" "sound m0" "holder m0 = None"
  shows "sound m \<and> I = set_option (holder m)"
  using assms
proof (induction rule: mutex_use.induct)
  case (Use_Lock m I t m' r)
  then show ?case using lock_keeps by blast
next
  case (Use_Unlock m I t m' r)
  then have "holder m = Some t" by (auto simp: elem_set)
  then show ?case using Use_Unlock unlock_keeps by blast
next
  case (Use_Exit m I p)
  then show ?case using exit_keeps by blast
qed simp

lemma disciplined_exclusion:
  assumes "mutex_use True lock unlock exits m0 m I" "sound m0" "holder m0 = None" "t \<in> I" "u \<in> I"
  shows "t = u"
  using disciplined_use [OF assms(1-3)] assms(4,5) by (auto simp: elem_set)

text \<open>Nobody inside: whoever died before, the next \<open>lock\<close> returns.\<close>

lemma disciplined_available:
  assumes "mutex_use True lock unlock exits m0 m {}" "sound m0" "holder m0 = None"
  shows "\<exists>m'. lock t m = Some (m', Inr ())"
  using disciplined_use [OF assms] lock_free [of m t] by (cases "holder m") auto

end

text \<open>A mutex that also refuses a thread that unlocks without holding it.\<close>

locale checked_lockable = lockable +
  assumes unlock_foreign: "sound m \<Longrightarrow> holder m \<noteq> Some t \<Longrightarrow>
      \<exists>m' e. unlock t m = (m', Inl e) \<and> holder m' = holder m \<and> sound m'"
begin

lemma any_use:
  assumes "mutex_use False lock unlock exits m0 m I" "sound m0" "holder m0 = None"
  shows "sound m \<and> I = set_option (holder m)"
  using assms
proof (induction rule: mutex_use.induct)
  case (Use_Lock m I t m' r)
  then show ?case using lock_keeps by blast
next
  case (Use_Unlock m I t m' r)
  then have s: "sound m" "I = set_option (holder m)" by simp_all
  show ?case
  proof (cases "holder m = Some t")
    case True
    then show ?thesis using unlock_keeps [OF _ True Use_Unlock(3)] s by blast
  next
    case False
    then show ?thesis using unlock_foreign [OF s(1) False] s Use_Unlock(3) by auto
  qed
next
  case (Use_Exit m I p)
  then show ?case using exit_keeps by blast
qed simp

lemma any_exclusion:
  assumes "mutex_use False lock unlock exits m0 m I" "sound m0" "holder m0 = None" "t \<in> I" "u \<in> I"
  shows "t = u"
  using any_use [OF assms(1-3)] assms(4,5) by (auto simp: elem_set)

lemma any_available:
  assumes "mutex_use False lock unlock exits m0 m {}" "sound m0" "holder m0 = None"
  shows "\<exists>m'. lock t m = Some (m', Inr ())"
  using any_use [OF assms] lock_free [of m t] by (cases "holder m") auto

end

end
