(* ===== verification/Posix_Api.thy ===== *)
theory Posix_Api
  imports Ipc_Mutex "HOL-Library.AList"
begin

text \<open>
  The functions of POSIX that \<open>src/ipc/linux\<close> and \<open>src/ipc/darwin\<close> call. They are no code of the
  library: each group is a record of functions over a state of the operating system, a parameter of
  the models of the classes, and a locale states what POSIX documents of them. \<open>None\<close> as a result
  says that the call blocks.
\<close>

section \<open>The pthread library\<close>

datatype mutex_attribute = MUTEX_ROBUST | PROCESS_SHARED | MUTEX_ERRORCHECK

record 'm pthread =
  pthread_mutex_init :: "mutex_attribute set \<Rightarrow> 'm \<times> c_result"
  pthread_mutex_destroy :: "'m \<Rightarrow> 'm"
  pthread_mutex_lock :: "thread \<Rightarrow> 'm \<Rightarrow> ('m \<times> c_result) option"
  pthread_mutex_trylock :: "thread \<Rightarrow> 'm \<Rightarrow> 'm \<times> c_result"
  pthread_mutex_unlock :: "thread \<Rightarrow> 'm \<Rightarrow> 'm \<times> c_result"
  pthread_mutex_consistent :: "thread \<Rightarrow> 'm \<Rightarrow> 'm \<times> c_result"
  process_exit :: "nat \<Rightarrow> 'm \<Rightarrow> 'm"

text \<open>
  The states of a robust mutex: after the exit of its owner it is \<open>Owner_Dead\<close>; the next thread that
  locks it is told so and holds it \<open>Inconsistent\<close>, until it calls \<open>pthread_mutex_consistent\<close>; when it
  unlocks it before that, nobody can lock it any more.
\<close>

datatype mutex_status = Unlocked | Locked thread | Owner_Dead | Inconsistent thread | Not_Recoverable

locale posix_robust =
  fixes api :: "'m pthread" and status :: "'m \<Rightarrow> mutex_status"
  assumes init: "pthread_mutex_init api {MUTEX_ROBUST, PROCESS_SHARED, MUTEX_ERRORCHECK} = (m, Zero) \<Longrightarrow>
      status m = Unlocked"
    and lock_unlocked: "status m = Unlocked \<Longrightarrow>
      \<exists>m'. pthread_mutex_lock api t m = Some (m', Zero) \<and> status m' = Locked t"
    and lock_own: "status m = Locked t \<or> status m = Inconsistent t \<Longrightarrow>
      pthread_mutex_lock api t m = Some (m, Code EDEADLK)"
    and lock_other: "status m = Locked u \<or> status m = Inconsistent u \<Longrightarrow> u \<noteq> t \<Longrightarrow>
      pthread_mutex_lock api t m = None"
    and lock_dead: "status m = Owner_Dead \<Longrightarrow>
      \<exists>m'. pthread_mutex_lock api t m = Some (m', Code EOWNERDEAD) \<and> status m' = Inconsistent t"
    and lock_lost: "status m = Not_Recoverable \<Longrightarrow>
      pthread_mutex_lock api t m = Some (m, Code ENOTRECOVERABLE)"
    and trylock_unlocked: "status m = Unlocked \<Longrightarrow>
      \<exists>m'. pthread_mutex_trylock api t m = (m', Zero) \<and> status m' = Locked t"
    and trylock_held: "status m = Locked u \<or> status m = Inconsistent u \<Longrightarrow>
      pthread_mutex_trylock api t m = (m, Code EBUSY) \<or>
      u = t \<and> pthread_mutex_trylock api t m = (m, Code EDEADLK)"
    and trylock_dead: "status m = Owner_Dead \<Longrightarrow>
      \<exists>m'. pthread_mutex_trylock api t m = (m', Code EOWNERDEAD) \<and> status m' = Inconsistent t"
    and trylock_lost: "status m = Not_Recoverable \<Longrightarrow>
      pthread_mutex_trylock api t m = (m, Code ENOTRECOVERABLE)"
    and unlock_own: "status m = Locked t \<Longrightarrow>
      \<exists>m'. pthread_mutex_unlock api t m = (m', Zero) \<and> status m' = Unlocked"
    and unlock_inconsistent: "status m = Inconsistent t \<Longrightarrow>
      \<exists>m'. pthread_mutex_unlock api t m = (m', Zero) \<and> status m' = Not_Recoverable"
    and unlock_not_own: "status m \<noteq> Locked t \<Longrightarrow> status m \<noteq> Inconsistent t \<Longrightarrow>
      pthread_mutex_unlock api t m = (m, Code EPERM)"
    and consistent: "status m = Inconsistent t \<Longrightarrow>
      \<exists>m'. pthread_mutex_consistent api t m = (m', Zero) \<and> status m' = Locked t"
    and exit_status: "status (process_exit api p m) =
      (case status m of
         Locked t \<Rightarrow> if fst t = p then Owner_Dead else Locked t
       | Inconsistent t \<Rightarrow> if fst t = p then Owner_Dead else Inconsistent t
       | s \<Rightarrow> s)"

text \<open>An error-checking mutex that is not robust, as the other platform uses it within a process.\<close>

locale posix_errorcheck =
  fixes api :: "'m pthread" and status :: "'m \<Rightarrow> mutex_status"
  assumes init_unlocked: "status (fst (pthread_mutex_init api {MUTEX_ERRORCHECK, PROCESS_SHARED})) = Unlocked"
    and lock_unlocked: "status m = Unlocked \<Longrightarrow>
      \<exists>m'. pthread_mutex_lock api t m = Some (m', Zero) \<and> status m' = Locked t"
    and lock_own: "status m = Locked t \<Longrightarrow> pthread_mutex_lock api t m = Some (m, Code EDEADLK)"
    and lock_other: "status m = Locked u \<Longrightarrow> u \<noteq> t \<Longrightarrow> pthread_mutex_lock api t m = None"
    and trylock_unlocked: "status m = Unlocked \<Longrightarrow>
      \<exists>m'. pthread_mutex_trylock api t m = (m', Zero) \<and> status m' = Locked t"
    and trylock_held: "status m = Locked u \<Longrightarrow> pthread_mutex_trylock api t m = (m, Code EBUSY)"
    and unlock_own: "status m = Locked t \<Longrightarrow>
      \<exists>m'. pthread_mutex_unlock api t m = (m', Zero) \<and> status m' = Unlocked"
    and unlock_not_own: "status m = Unlocked \<or> status m = Locked u \<and> u \<noteq> t \<Longrightarrow>
      pthread_mutex_unlock api t m = (m, Code EPERM)"

section \<open>File locks\<close>

text \<open>
  \<open>flock\<close> on the open file of a process, with \<open>LOCK_EX\<close>, with \<open>LOCK_EX | LOCK_NB\<close> and with
  \<open>LOCK_UN\<close>; only the first blocks. It returns 0 or -1: that the file is locked by somebody else is
  told by \<open>errno\<close>, not by the result.
\<close>

record 'f file_lock =
  flock_ex :: "nat \<Rightarrow> 'f \<Rightarrow> ('f \<times> c_result) option"
  flock_ex_nb :: "nat \<Rightarrow> 'f \<Rightarrow> 'f \<times> c_result"
  flock_un :: "nat \<Rightarrow> 'f \<Rightarrow> 'f \<times> c_result"
  flock_exit :: "nat \<Rightarrow> 'f \<Rightarrow> 'f"

locale posix_flock =
  fixes api :: "'f file_lock" and owner :: "'f \<Rightarrow> nat option"
  assumes flock_free: "owner f = None \<or> owner f = Some p \<Longrightarrow>
      \<exists>f'. flock_ex api p f = Some (f', Zero) \<and> owner f' = Some p"
    and flock_held: "owner f = Some q \<Longrightarrow> q \<noteq> p \<Longrightarrow> flock_ex api p f = None"
    and flock_nb_free: "owner f = None \<or> owner f = Some p \<Longrightarrow>
      \<exists>f'. flock_ex_nb api p f = (f', Zero) \<and> owner f' = Some p"
    and flock_nb_held: "owner f = Some q \<Longrightarrow> q \<noteq> p \<Longrightarrow> flock_ex_nb api p f = (f, Minus_One)"
    and flock_unlock: "\<exists>f'. flock_un api p f = (f', Zero) \<and>
      owner f' = (if owner f = Some p then None else owner f)"
    and flock_exit_owner: "owner (flock_exit api p f) = (if owner f = Some p then None else owner f)"

section \<open>A pthread library that satisfies the contract\<close>

text \<open>The documented behaviour as a program: its state is the status itself.\<close>

fun kernel_lock :: "thread \<Rightarrow> mutex_status \<Rightarrow> (mutex_status \<times> c_result) option" where
  "kernel_lock t Unlocked = Some (Locked t, Zero)"
| "kernel_lock t (Locked u) = (if u = t then Some (Locked u, Code EDEADLK) else None)"
| "kernel_lock t Owner_Dead = Some (Inconsistent t, Code EOWNERDEAD)"
| "kernel_lock t (Inconsistent u) = (if u = t then Some (Inconsistent u, Code EDEADLK) else None)"
| "kernel_lock t Not_Recoverable = Some (Not_Recoverable, Code ENOTRECOVERABLE)"

fun kernel_trylock :: "thread \<Rightarrow> mutex_status \<Rightarrow> mutex_status \<times> c_result" where
  "kernel_trylock t Unlocked = (Locked t, Zero)"
| "kernel_trylock t (Locked u) = (Locked u, Code EBUSY)"
| "kernel_trylock t Owner_Dead = (Inconsistent t, Code EOWNERDEAD)"
| "kernel_trylock t (Inconsistent u) = (Inconsistent u, Code EBUSY)"
| "kernel_trylock t Not_Recoverable = (Not_Recoverable, Code ENOTRECOVERABLE)"

fun kernel_unlock :: "thread \<Rightarrow> mutex_status \<Rightarrow> mutex_status \<times> c_result" where
  "kernel_unlock t (Locked u) = (if u = t then (Unlocked, Zero) else (Locked u, Code EPERM))"
| "kernel_unlock t (Inconsistent u) = (if u = t then (Not_Recoverable, Zero) else (Inconsistent u, Code EPERM))"
| "kernel_unlock t s = (s, Code EPERM)"

fun kernel_consistent :: "thread \<Rightarrow> mutex_status \<Rightarrow> mutex_status \<times> c_result" where
  "kernel_consistent t (Inconsistent u) = (if u = t then (Locked t, Zero) else (Inconsistent u, Code EINVAL))"
| "kernel_consistent t s = (s, Code EINVAL)"

fun kernel_exit :: "nat \<Rightarrow> mutex_status \<Rightarrow> mutex_status" where
  "kernel_exit p (Locked u) = (if fst u = p then Owner_Dead else Locked u)"
| "kernel_exit p (Inconsistent u) = (if fst u = p then Owner_Dead else Inconsistent u)"
| "kernel_exit p s = s"

definition kernel :: "mutex_status pthread" where
  "kernel =
     \<lparr>pthread_mutex_init = (\<lambda>attributes. (Unlocked, Zero)), pthread_mutex_destroy = (\<lambda>m. m),
      pthread_mutex_lock = kernel_lock, pthread_mutex_trylock = kernel_trylock,
      pthread_mutex_unlock = kernel_unlock, pthread_mutex_consistent = kernel_consistent,
      process_exit = kernel_exit\<rparr>"

lemma kernel_unlock_not_own:
  "m \<noteq> Locked t \<Longrightarrow> m \<noteq> Inconsistent t \<Longrightarrow> kernel_unlock t m = (m, Code EPERM)"
  by (cases m) auto

interpretation pk: posix_robust kernel "\<lambda>m. m"
  by unfold_locales
    (auto simp: kernel_def kernel_unlock_not_own split: mutex_status.split if_splits)

interpretation pe: posix_errorcheck kernel "\<lambda>m. m"
  by unfold_locales
    (auto simp: kernel_def split: if_splits)

text \<open>The documented file lock; its state is the process that holds it.\<close>

definition file_kernel :: "nat option file_lock" where
  "file_kernel =
     \<lparr>flock_ex = (\<lambda>p f. if f = None \<or> f = Some p then Some (Some p, Zero) else None),
      flock_ex_nb = (\<lambda>p f. if f = None \<or> f = Some p then (Some p, Zero) else (f, Minus_One)),
      flock_un = (\<lambda>p f. (if f = Some p then None else f, Zero)),
      flock_exit = (\<lambda>p f. if f = Some p then None else f)\<rparr>"

interpretation pf: posix_flock file_kernel "\<lambda>f. f"
  by unfold_locales (auto simp: file_kernel_def)

section \<open>Shared memory objects\<close>

text \<open>
  The calls on named shared memory over a state \<open>'k\<close> of the system. A call that fails returns
  \<open>Inl\<close> with what it leaves in \<open>errno\<close>.
\<close>

datatype open_flag = O_RDWR | O_CREAT | O_EXCL

record 'k posix_shm =
  shm_open :: "string \<Rightarrow> open_flag list \<Rightarrow> nat \<Rightarrow> 'k \<Rightarrow> 'k \<times> (errno + nat)"
  shm_unlink :: "string \<Rightarrow> 'k \<Rightarrow> 'k \<times> (errno + unit)"
  ftruncate :: "nat \<Rightarrow> u64 \<Rightarrow> 'k \<Rightarrow> 'k \<times> (errno + unit)"
  fstat_size :: "nat \<Rightarrow> 'k \<Rightarrow> u64 option"
  mmap :: "u64 \<Rightarrow> nat \<Rightarrow> 'k \<Rightarrow> 'k \<times> (errno + nat)"
  munmap :: "nat \<Rightarrow> u64 \<Rightarrow> 'k \<Rightarrow> 'k"
  close_fd :: "nat \<Rightarrow> 'k \<Rightarrow> 'k"

text \<open>
  What is seen of the system: the object each name stands for, the object behind each open
  descriptor, and the object mapped at each address.
\<close>

record shm_view =
  object_of :: "string \<Rightarrow> nat option"
  behind :: "nat \<Rightarrow> nat option"
  mapped :: "nat \<Rightarrow> nat option"

locale posix_shared_memory =
  fixes api :: "'k posix_shm" and view :: "'k \<Rightarrow> shm_view"
  assumes open_fails: "shm_open api n fl mode k = (k', Inl e) \<Longrightarrow> view k' = view k"
    and open_exists: "shm_open api n fl mode k = (k', Inl EEXIST) \<Longrightarrow> O_CREAT \<in> set fl \<and> O_EXCL \<in> set fl"
    and open_old: "shm_open api n fl mode k = (k', Inr fd) \<Longrightarrow> object_of (view k) n = Some x \<Longrightarrow>
      behind (view k) fd = None \<and> \<not> (O_CREAT \<in> set fl \<and> O_EXCL \<in> set fl) \<and>
      view k' = (view k)\<lparr>behind := (behind (view k))(fd \<mapsto> x)\<rparr>"
    and open_new: "shm_open api n fl mode k = (k', Inr fd) \<Longrightarrow> object_of (view k) n = None \<Longrightarrow>
      behind (view k) fd = None \<and> O_CREAT \<in> set fl \<and>
      (\<exists>x. x \<notin> ran (object_of (view k)) \<and> x \<notin> ran (behind (view k)) \<and> x \<notin> ran (mapped (view k)) \<and>
        view k' = (view k)\<lparr>object_of := (object_of (view k))(n \<mapsto> x), behind := (behind (view k))(fd \<mapsto> x)\<rparr>)"
    and unlink_fails: "shm_unlink api n k = (k', Inl e) \<Longrightarrow> view k' = view k"
    and unlink_done: "shm_unlink api n k = (k', Inr ()) \<Longrightarrow>
      view k' = (view k)\<lparr>object_of := (object_of (view k))(n := None)\<rparr>"
    and ftruncate_view: "view (fst (ftruncate api fd sz k)) = view k"
    and mmap_fails: "mmap api sz fd k = (k', Inl e) \<Longrightarrow> view k' = view k"
    and mmap_done: "mmap api sz fd k = (k', Inr a) \<Longrightarrow> mapped (view k) a = None \<and>
      (\<exists>x. behind (view k) fd = Some x \<and> view k' = (view k)\<lparr>mapped := (mapped (view k))(a \<mapsto> x)\<rparr>)"
    and munmap_view: "view (munmap api a sz k) = (view k)\<lparr>mapped := (mapped (view k))(a := None)\<rparr>"
    and close_view: "view (close_fd api fd k) = (view k)\<lparr>behind := (behind (view k))(fd := None)\<rparr>"

text \<open>A system that satisfies the contract: finite tables, and a number that none of them uses.\<close>

record shm_tables =
  names :: "(string \<times> nat) list"
  files :: "(nat \<times> nat) list"
  maps :: "(nat \<times> nat) list"

definition unused :: "shm_tables \<Rightarrow> nat" where
  "unused k = Suc (sum_list (map snd (names k)) + sum_list (map fst (files k)) + sum_list (map snd (files k)) +
     sum_list (map fst (maps k)) + sum_list (map snd (maps k)))"

definition tables_view :: "shm_tables \<Rightarrow> shm_view" where
  "tables_view k = \<lparr>object_of = map_of (names k), behind = map_of (files k), mapped = map_of (maps k)\<rparr>"

definition tables_open :: "string \<Rightarrow> open_flag list \<Rightarrow> nat \<Rightarrow> shm_tables \<Rightarrow> shm_tables \<times> (errno + nat)" where
  "tables_open n fl mode k =
     (case map_of (names k) n of
        Some x \<Rightarrow>
          (if O_CREAT \<in> set fl \<and> O_EXCL \<in> set fl then (k, Inl EEXIST)
           else (k\<lparr>files := (unused k, x) # files k\<rparr>, Inr (unused k)))
      | None \<Rightarrow>
          (if O_CREAT \<in> set fl
           then (k\<lparr>names := (n, unused k) # names k, files := (unused k, unused k) # files k\<rparr>, Inr (unused k))
           else (k, Inl ENOENT)))"

definition tables_mmap :: "u64 \<Rightarrow> nat \<Rightarrow> shm_tables \<Rightarrow> shm_tables \<times> (errno + nat)" where
  "tables_mmap sz fd k =
     (case map_of (files k) fd of
        None \<Rightarrow> (k, Inl EBADF)
      | Some x \<Rightarrow> (k\<lparr>maps := (unused k, x) # maps k\<rparr>, Inr (unused k)))"

definition tables :: "shm_tables posix_shm" where
  "tables =
     \<lparr>shm_open = tables_open,
      shm_unlink = (\<lambda>n k.
        case map_of (names k) n of
          None \<Rightarrow> (k, Inl ENOENT) | Some x \<Rightarrow> (k\<lparr>names := AList.delete n (names k)\<rparr>, Inr ())),
      ftruncate = (\<lambda>fd sz k. (k, Inr ())), fstat_size = (\<lambda>fd k. Some 0), mmap = tables_mmap,
      munmap = (\<lambda>a sz k. k\<lparr>maps := AList.delete a (maps k)\<rparr>),
      close_fd = (\<lambda>fd k. k\<lparr>files := AList.delete fd (files k)\<rparr>)\<rparr>"

lemma member_le_sum_map: "x \<in> f ` set xs \<Longrightarrow> x \<le> sum_list (map f xs)" for x :: nat
  using member_le_sum_list [of x "map f xs"] by simp

lemma unused_above:
  "x \<in> snd ` set (names k) \<union> fst ` set (files k) \<union> snd ` set (files k) \<union> fst ` set (maps k) \<union> snd ` set (maps k) \<Longrightarrow>
     x < unused k"
  by (elim UnE; drule member_le_sum_map; simp add: unused_def)

lemma unused_fresh:
  "map_of (files k) (unused k) = None" "map_of (maps k) (unused k) = None"
  "unused k \<notin> ran (map_of (names k))" "unused k \<notin> ran (map_of (files k))" "unused k \<notin> ran (map_of (maps k))"
proof -
  have "unused k \<notin> snd ` set (names k) \<union> fst ` set (files k) \<union> snd ` set (files k) \<union> fst ` set (maps k) \<union>
      snd ` set (maps k)" using unused_above [of "unused k" k] by blast
  then show "map_of (files k) (unused k) = None" "map_of (maps k) (unused k) = None"
    "unused k \<notin> ran (map_of (names k))" "unused k \<notin> ran (map_of (files k))" "unused k \<notin> ran (map_of (maps k))"
    by (auto simp: map_of_eq_None_iff ran_def dest: map_of_SomeD intro: rev_image_eqI)
qed

interpretation shm: posix_shared_memory tables tables_view
  by unfold_locales
    (auto simp: tables_def tables_open_def tables_mmap_def tables_view_def unused_fresh delete_conv
      split: option.splits if_splits intro!: exI [of _ "unused _"])

end
