(* ===== verification/Linux_Mutex.thy ===== *)
theory Linux_Mutex
  imports Ipc_Mutex Posix_Api
begin

text \<open>
  \<open>src/ipc/linux/RobustMutex.hpp\<close> and \<open>RobustMutex.cpp\<close>: the mutex on Linux, a robust POSIX mutex in
  shared memory. The functions of the \<open>pthread\<close> library are a parameter with the contract
  \<open>posix_robust\<close>.
\<close>

section \<open>The class RobustMutex\<close>

text \<open>
  The constructor on the shared memory \<open>m\<close>: an owner initialises the mutex, and its cleanup is what
  the \<open>_mutexDisposer\<close> then holds; everybody else takes the memory as it is.
\<close>

definition Linux_RobustMutex_ctor :: "'m pthread \<Rightarrow> bool \<Rightarrow> 'm \<Rightarrow> 'm \<times> bool \<times> (cpp_error + unit)" where
  "Linux_RobustMutex_ctor api isOwner m =
     (if isOwner
      then (case pthread_mutex_init api {MUTEX_ROBUST, PROCESS_SHARED, MUTEX_ERRORCHECK} of (m, result) \<Rightarrow>
              if result \<noteq> Zero
              then (m, False, Inl (runtime_error_code ''pthread_mutex_init failed, error: '' result))
              else (m, True, Inr ()))
      else (m, False, Inr ()))"

text \<open>The destructor: the \<open>_mutexDisposer\<close> destroys the mutex when its function is set.\<close>

definition Linux_RobustMutex_dtor :: "'m pthread \<Rightarrow> bool \<Rightarrow> 'm \<Rightarrow> 'm" where
  "Linux_RobustMutex_dtor api cleanup m = (if cleanup then pthread_mutex_destroy api m else m)"

definition Linux_RobustMutex_lock :: "'m pthread \<Rightarrow> 'm lock_op" where
  "Linux_RobustMutex_lock api t m =
     (case pthread_mutex_lock api t m of
        None \<Rightarrow> None
      | Some (m, result) \<Rightarrow> Some
          (if result = Code EDEADLK
           then (m, Inl (runtime_error ''pthread_mutex_lock called on already locked mutex''))
           else
             (let m = (if result = Code EOWNERDEAD then fst (pthread_mutex_consistent api t m) else m)
              in if result \<noteq> Zero \<and> result \<noteq> Code EOWNERDEAD
                 then (m, Inl (runtime_error_code ''pthread_mutex_lock failed with error code: '' result))
                 else (m, Inr ()))))"

definition Linux_RobustMutex_try_lock :: "'m pthread \<Rightarrow> thread \<Rightarrow> 'm \<Rightarrow> 'm \<times> (cpp_error + bool)" where
  "Linux_RobustMutex_try_lock api t m =
     (case pthread_mutex_trylock api t m of (m, result) \<Rightarrow>
        if result = Code EDEADLK
        then (m, Inl (runtime_error ''pthread_mutex_trylock called on already locked mutex''))
        else if result \<noteq> Zero \<and> result \<noteq> Code EBUSY
        then (m, Inl (runtime_error_code ''pthread_mutex_trylock failed with error code: '' result))
        else (m, Inr (result = Zero)))"

definition Linux_RobustMutex_unlock :: "'m pthread \<Rightarrow> 'm unlock_op" where
  "Linux_RobustMutex_unlock api t m =
     (case pthread_mutex_unlock api t m of (m, result) \<Rightarrow>
        if result = Code EPERM
        then (m, Inl (runtime_error ''pthread_mutex_unlock called from other thread''))
        else if result \<noteq> Zero
        then (m, Inl (runtime_error_code ''pthread_mutex_unlock failed with error code: '' result))
        else (m, Inr ()))"

text \<open>The public class: \<open>_impl\<close> is null in a default-constructed object.\<close>

definition Linux_lock :: "'m pthread \<Rightarrow> bool \<Rightarrow> 'm lock_op" where
  "Linux_lock api impl t m =
     (if \<not> impl then Some (m, Inl (runtime_error ''Not initialized.'')) else Linux_RobustMutex_lock api t m)"

definition Linux_try_lock :: "'m pthread \<Rightarrow> bool \<Rightarrow> thread \<Rightarrow> 'm \<Rightarrow> 'm \<times> (cpp_error + bool)" where
  "Linux_try_lock api impl t m =
     (if \<not> impl then (m, Inl (runtime_error ''Not initialized.'')) else Linux_RobustMutex_try_lock api t m)"

definition Linux_unlock :: "'m pthread \<Rightarrow> bool \<Rightarrow> 'm unlock_op" where
  "Linux_unlock api impl t m =
     (if \<not> impl then (m, Inl (runtime_error ''Not initialized.'')) else Linux_RobustMutex_unlock api t m)"

section \<open>The contract holds on Linux\<close>

fun holder_of :: "mutex_status \<Rightarrow> thread option" where
  "holder_of (Locked t) = Some t"
| "holder_of (Inconsistent t) = Some t"
| "holder_of _ = None"

text \<open>Without \<open>try_lock\<close>, the mutex is never left inconsistent.\<close>

fun sound_status :: "mutex_status \<Rightarrow> bool" where
  "sound_status Unlocked = True"
| "sound_status (Locked t) = True"
| "sound_status Owner_Dead = True"
| "sound_status _ = False"

context posix_robust
begin

lemma Linux_lock_free:
  assumes "sound_status (status m)" "holder_of (status m) = None"
  shows "\<exists>m'. Linux_lock api True t m = Some (m', Inr ()) \<and> status m' = Locked t"
proof (cases "status m")
  case Unlocked
  then show ?thesis
    using lock_unlocked [of m t] by (auto simp: Linux_lock_def Linux_RobustMutex_lock_def)
next
  case Owner_Dead
  then obtain m' where m': "pthread_mutex_lock api t m = Some (m', Code EOWNERDEAD)" "status m' = Inconsistent t"
    using lock_dead by blast
  then show ?thesis
    using consistent [of m' t] by (auto simp: Linux_lock_def Linux_RobustMutex_lock_def)
qed (use assms in auto)

lemma Linux_checked_lockable:
  "checked_lockable (Linux_lock api True) (Linux_unlock api True) (process_exit api)
    (\<lambda>m. holder_of (status m)) (\<lambda>m. sound_status (status m))"
proof
  fix m t assume "sound_status (status m)" "holder_of (status m) = None"
  then show "\<exists>m'. Linux_lock api True t m = Some (m', Inr ()) \<and> holder_of (status m') = Some t \<and>
      sound_status (status m')"
    using Linux_lock_free by fastforce
next
  fix m t u assume "sound_status (status m)" "holder_of (status m) = Some u" "u \<noteq> t"
  then show "Linux_lock api True t m = None"
    using lock_other [of m u t] by (cases "status m") (auto simp: Linux_lock_def Linux_RobustMutex_lock_def)
next
  fix m t assume "sound_status (status m)" "holder_of (status m) = Some t"
  then show "\<exists>m' e. Linux_lock api True t m = Some (m', Inl e) \<and> holder_of (status m') = Some t \<and>
      sound_status (status m')"
    using lock_own [of m t] by (cases "status m") (auto simp: Linux_lock_def Linux_RobustMutex_lock_def)
next
  fix m t assume "sound_status (status m)" "holder_of (status m) = Some t"
  then show "\<exists>m'. Linux_unlock api True t m = (m', Inr ()) \<and> holder_of (status m') = None \<and>
      sound_status (status m')"
    using unlock_own [of m t]
    by (cases "status m") (auto simp: Linux_unlock_def Linux_RobustMutex_unlock_def)
next
  fix m p assume "sound_status (status m)"
  then show "sound_status (status (process_exit api p m)) \<and> holder_of (status (process_exit api p m)) =
      (case holder_of (status m) of None \<Rightarrow> None | Some t \<Rightarrow> if fst t = p then None else Some t)"
    by (cases "status m") (auto simp: exit_status)
next
  fix m t assume "sound_status (status m)" "holder_of (status m) \<noteq> Some t"
  then show "\<exists>m' e. Linux_unlock api True t m = (m', Inl e) \<and>
      holder_of (status m') = holder_of (status m) \<and> sound_status (status m')"
    using unlock_not_own [of m t]
    by (cases "status m") (auto simp: Linux_unlock_def Linux_RobustMutex_unlock_def)
qed

text \<open>\<open>try_lock\<close> on a mutex whose owner died.\<close>

lemma Linux_try_lock_dead:
  assumes "status m = Owner_Dead"
  shows "\<exists>m' e. Linux_try_lock api True t m = (m', Inl e) \<and> status m' = Inconsistent t"
  using trylock_dead [OF assms, of t] by (auto simp: Linux_try_lock_def Linux_RobustMutex_try_lock_def)

lemma Linux_inconsistent:
  assumes "status m = Inconsistent t"
  shows "u \<noteq> t \<Longrightarrow> Linux_lock api True u m = None"
    "\<exists>e. Linux_lock api True t m = Some (m, Inl e)"
    "\<exists>m'. Linux_unlock api True t m = (m', Inr ()) \<and> status m' = Not_Recoverable"
  using assms lock_other [of m t u] lock_own [of m t] unlock_inconsistent [of m t]
  by (auto simp: Linux_lock_def Linux_RobustMutex_lock_def Linux_unlock_def Linux_RobustMutex_unlock_def)

lemma Linux_not_recoverable:
  assumes "status m = Not_Recoverable"
  shows "\<exists>e. Linux_lock api True t m = Some (m, Inl e)" "\<exists>e. Linux_try_lock api True t m = (m, Inl e)"
  using assms lock_lost [of m t] trylock_lost [of m t]
  by (auto simp: Linux_lock_def Linux_RobustMutex_lock_def Linux_try_lock_def Linux_RobustMutex_try_lock_def)

end

lemmas kernel_simps = kernel_def Linux_lock_def Linux_RobustMutex_lock_def Linux_try_lock_def
  Linux_RobustMutex_try_lock_def Linux_unlock_def Linux_RobustMutex_unlock_def

text \<open>The interface of the mutex, on the code of the class over this library.\<close>

interpretation linux: checked_lockable "Linux_lock kernel True" "Linux_unlock kernel True"
  "process_exit kernel" "\<lambda>m. holder_of m" "\<lambda>m. sound_status m"
  by (rule pk.Linux_checked_lockable)

section \<open>Properties\<close>

text \<open>
  C7. The mutex excludes and recovers: however threads of any number of processes call \<open>lock\<close> and
  \<open>unlock\<close>, also without holding the mutex, and whenever processes exit, at most one thread is
  inside; and whenever no thread is, the next \<open>lock\<close> returns, also when the last holder died.
\<close>

theorem Linux_mutex_excludes_and_recovers:
  assumes "posix_robust api status" "status m0 = Unlocked"
    and "mutex_use False (Linux_lock api True) (Linux_unlock api True) (process_exit api) m0 m I"
  shows "(\<forall>t \<in> I. \<forall>u \<in> I. t = u) \<and> (I = {} \<longrightarrow> (\<exists>m'. Linux_lock api True t m = Some (m', Inr ())))"
proof -
  note c = posix_robust.Linux_checked_lockable [OF assms(1)]
  note u = checked_lockable.any_use [OF c assms(3)]
  show ?thesis
    using u assms(2,3) checked_lockable.any_available [OF c, of m0 m t] by (auto simp: elem_set)
qed

lemma kernel_death:
  "mutex_use False (Linux_lock kernel True) (Linux_unlock kernel True) (process_exit kernel) Unlocked Owner_Dead {}"
proof -
  have "mutex_use False (Linux_lock kernel True) (Linux_unlock kernel True) (process_exit kernel)
      Unlocked (Locked (1, 1)) {(1, 1)}"
    using Use_Lock [OF Use_Init, of "Linux_lock kernel True" "(1, 1)" Unlocked "Locked (1, 1)" "Inr ()"]
    by (simp add: kernel_simps)
  note e = Use_Exit [OF this, of 1]
  have "process_exit kernel 1 (Locked (1, 1)) = Owner_Dead" "{t \<in> {(1, 1)}. fst t \<noteq> (1 :: nat)} = ({} :: thread set)"
    by (auto simp: kernel_def)
  then show ?thesis using e by (simp only:)
qed

theorem Linux_mutex_excludes_and_recovers_witness:
  "\<exists>m'. Linux_lock kernel True (2, 5) Owner_Dead = Some (m', Inr ())"
  using Linux_mutex_excludes_and_recovers [OF pk.posix_robust_axioms _ kernel_death, of "(2, 5)"] by simp

text \<open>
  C34. \<open>try_lock\<close> does not recover the mutex of a dead owner: it throws, although the calling thread
  now holds the mutex. From then on \<open>lock\<close> blocks every other thread; and once the thread unlocks,
  \<open>lock\<close> and \<open>try_lock\<close> throw for ever.
\<close>

theorem Linux_try_lock_breaks_abandoned_mutex:
  assumes "posix_robust api status" "status m = Owner_Dead"
  shows "\<exists>m1 e m2. Linux_try_lock api True t m = (m1, Inl e) \<and>
    (\<forall>u. u \<noteq> t \<longrightarrow> Linux_lock api True u m1 = None) \<and> Linux_unlock api True t m1 = (m2, Inr ()) \<and>
    (\<forall>u. (\<exists>e. Linux_lock api True u m2 = Some (m2, Inl e)) \<and> (\<exists>e. Linux_try_lock api True u m2 = (m2, Inl e)))"
proof -
  obtain m1 e where m1: "Linux_try_lock api True t m = (m1, Inl e)" "status m1 = Inconsistent t"
    using posix_robust.Linux_try_lock_dead [OF assms] by blast
  note i = posix_robust.Linux_inconsistent [OF assms(1) m1(2)]
  obtain m2 where "Linux_unlock api True t m1 = (m2, Inr ())" "status m2 = Not_Recoverable"
    using i(3) by blast
  then show ?thesis
    using m1(1) i(1) posix_robust.Linux_not_recoverable [OF assms(1)] by blast
qed

theorem Linux_try_lock_breaks_abandoned_mutex_witness:
  "\<exists>m1 e. Linux_try_lock kernel True (2, 5) Owner_Dead = (m1, Inl e) \<and> Linux_lock kernel True (3, 1) m1 = None"
proof -
  have "(3, 1) \<noteq> ((2, 5) :: thread)" by simp
  with Linux_try_lock_breaks_abandoned_mutex [OF pk.posix_robust_axioms, of Owner_Dead "(2, 5)"]
  show ?thesis by blast
qed

end
