(* ===== verification/Darwin_Mutex.thy ===== *)
theory Darwin_Mutex
  imports Ipc_Mutex Posix_Api
begin

text \<open>
  \<open>src/ipc/darwin/RobustMutex.cpp\<close>: the mutex on macOS. Each process has a POSIX mutex for its own
  threads, and a file lock, which the system releases when a process exits, excludes the processes
  from each other. Both are parameters with the contracts \<open>posix_errorcheck\<close> and \<open>posix_flock\<close>; a
  process is modelled with one instance of the class.
\<close>

section \<open>The class RobustMutex\<close>

text \<open>\<open>_mutex\<close> of the instance in each process, and the lock on the file behind \<open>file_\<close>.\<close>

record ('m, 'f) darwin_state =
  local_mutex :: "nat \<Rightarrow> 'm"
  file_lock_state :: 'f

definition set_local :: "nat \<Rightarrow> 'm \<Rightarrow> ('m, 'f) darwin_state \<Rightarrow> ('m, 'f) darwin_state" where
  "set_local p l m = m\<lparr>local_mutex := (local_mutex m)(p := l)\<rparr>"

text \<open>The two halves of \<open>lock\<close>; each can block.\<close>

definition lock_local :: "'m pthread \<Rightarrow> ('m, 'f) darwin_state lock_op" where
  "lock_local api t m =
     (case pthread_mutex_lock api t (local_mutex m (fst t)) of
        None \<Rightarrow> None
      | Some (l, result) \<Rightarrow> Some
          (set_local (fst t) l m,
           if result = Code EDEADLK
           then Inl (runtime_error ''pthread_mutex_lock failed (EDEADLK), check your implementation'')
           else Inr ()))"

definition lock_file :: "'f file_lock \<Rightarrow> ('m, 'f) darwin_state lock_op" where
  "lock_file fapi t m =
     (case flock_ex fapi (fst t) (file_lock_state m) of
        None \<Rightarrow> None
      | Some (f, result) \<Rightarrow> Some
          (m\<lparr>file_lock_state := f\<rparr>,
           if result \<noteq> Zero then Inl (runtime_error_code ''flock failed with error '' result)
           else if result = Code EBADF then Inl (runtime_error ''fd is not an open file descriptor'')
           else Inr ()))"

definition Darwin_RobustMutex_lock :: "'m pthread \<Rightarrow> 'f file_lock \<Rightarrow> ('m, 'f) darwin_state lock_op" where
  "Darwin_RobustMutex_lock api fapi t m =
     (case lock_local api t m of
        None \<Rightarrow> None
      | Some (m, Inl e) \<Rightarrow> Some (m, Inl e)
      | Some (m, Inr _) \<Rightarrow> lock_file fapi t m)"

definition Darwin_RobustMutex_try_lock ::
  "'m pthread \<Rightarrow> 'f file_lock \<Rightarrow> thread \<Rightarrow> ('m, 'f) darwin_state \<Rightarrow>
     ('m, 'f) darwin_state \<times> (cpp_error + bool)"
where
  "Darwin_RobustMutex_try_lock api fapi t m =
     (case pthread_mutex_trylock api t (local_mutex m (fst t)) of (l, mutex_result) \<Rightarrow>
        let m = set_local (fst t) l m in
        if mutex_result = Code EBUSY then (m, Inr False)
        else
          (case flock_ex_nb fapi (fst t) (file_lock_state m) of (f, result) \<Rightarrow>
               (m\<lparr>file_lock_state := f\<rparr>,
                if result = Code EWOULDBLOCK then Inr False
                else if result \<noteq> Zero then Inl (runtime_error_code ''flock failed with error '' result)
                else Inr True)))"

definition Darwin_RobustMutex_unlock :: "'m pthread \<Rightarrow> 'f file_lock \<Rightarrow> ('m, 'f) darwin_state unlock_op" where
  "Darwin_RobustMutex_unlock api fapi t m =
     (case flock_un fapi (fst t) (file_lock_state m) of (f, result) \<Rightarrow>
          (let m = m\<lparr>file_lock_state := f\<rparr> in
           if result \<noteq> Zero then (m, Inl (runtime_error_code ''flock failed with error '' result))
           else
             (case pthread_mutex_unlock api t (local_mutex m (fst t)) of (l, mutex_result) \<Rightarrow>
                (set_local (fst t) l m,
                 if mutex_result = Code EPERM
                 then Inl (runtime_error ''pthread_mutex_unlock failed, lock not owned by this thread'')
                 else Inr ()))))"

text \<open>The public class.\<close>

definition Darwin_lock :: "'m pthread \<Rightarrow> 'f file_lock \<Rightarrow> bool \<Rightarrow> ('m, 'f) darwin_state lock_op" where
  "Darwin_lock api fapi impl t m =
     (if \<not> impl then Some (m, Inl (runtime_error ''Not initialized.''))
      else Darwin_RobustMutex_lock api fapi t m)"

definition Darwin_try_lock ::
  "'m pthread \<Rightarrow> 'f file_lock \<Rightarrow> bool \<Rightarrow> thread \<Rightarrow> ('m, 'f) darwin_state \<Rightarrow>
     ('m, 'f) darwin_state \<times> (cpp_error + bool)"
where
  "Darwin_try_lock api fapi impl t m =
     (if \<not> impl then (m, Inl (runtime_error ''Not initialized.''))
      else Darwin_RobustMutex_try_lock api fapi t m)"

definition Darwin_unlock :: "'m pthread \<Rightarrow> 'f file_lock \<Rightarrow> bool \<Rightarrow> ('m, 'f) darwin_state unlock_op" where
  "Darwin_unlock api fapi impl t m =
     (if \<not> impl then (m, Inl (runtime_error ''Not initialized.''))
      else Darwin_RobustMutex_unlock api fapi t m)"

text \<open>
  \<open>InitLocalMutex\<close>. The exit of a process releases its file lock; its local mutex is gone, and a
  process that takes its number starts with a new one.
\<close>

definition InitLocalMutex :: "'m pthread \<Rightarrow> 'm \<times> (cpp_error + unit)" where
  "InitLocalMutex api =
     (case pthread_mutex_init api {MUTEX_ERRORCHECK, PROCESS_SHARED} of (l, result) \<Rightarrow>
        if result \<noteq> Zero then (l, Inl (runtime_error_code ''pthread_mutex_init failed, error: '' result))
        else (l, Inr ()))"

definition darwin_exit ::
  "'m pthread \<Rightarrow> 'f file_lock \<Rightarrow> nat \<Rightarrow> ('m, 'f) darwin_state \<Rightarrow> ('m, 'f) darwin_state"
where
  "darwin_exit api fapi p m =
     set_local p (fst (InitLocalMutex api)) (m\<lparr>file_lock_state := flock_exit fapi p (file_lock_state m)\<rparr>)"

section \<open>The contract holds on macOS\<close>

text \<open>The file is locked by exactly the process whose local mutex is locked, by one of its threads.\<close>

locale darwin_mutex = posix_errorcheck api status + posix_flock fapi owner
  for api :: "'m pthread" and status and fapi :: "'f file_lock" and owner
begin

lemma fst_InitLocalMutex: "status (fst (InitLocalMutex api)) = Unlocked"
  using init_unlocked
  by (cases "pthread_mutex_init api {MUTEX_ERRORCHECK, PROCESS_SHARED}") (simp add: InitLocalMutex_def)

end

definition darwin_sound :: "('m \<Rightarrow> mutex_status) \<Rightarrow> ('f \<Rightarrow> nat option) \<Rightarrow> ('m, 'f) darwin_state \<Rightarrow> bool" where
  "darwin_sound status owner m \<longleftrightarrow>
     (\<forall>p. if owner (file_lock_state m) = Some p
          then \<exists>t. fst t = p \<and> status (local_mutex m p) = Locked t
          else status (local_mutex m p) = Unlocked)"

definition darwin_holder ::
  "('m \<Rightarrow> mutex_status) \<Rightarrow> ('f \<Rightarrow> nat option) \<Rightarrow> ('m, 'f) darwin_state \<Rightarrow> thread option"
where
  "darwin_holder status owner m =
     (case owner (file_lock_state m) of
        None \<Rightarrow> None
      | Some p \<Rightarrow> (case status (local_mutex m p) of Locked t \<Rightarrow> Some t | _ \<Rightarrow> None))"

lemma darwin_cases:
  assumes "darwin_sound status owner m"
  obtains (free) "owner (file_lock_state m) = None" "\<And>p. status (local_mutex m p) = Unlocked"
    "darwin_holder status owner m = None"
  | (held) t where "owner (file_lock_state m) = Some (fst t)" "status (local_mutex m (fst t)) = Locked t"
    "\<And>p. p \<noteq> fst t \<Longrightarrow> status (local_mutex m p) = Unlocked" "darwin_holder status owner m = Some t"
proof (cases "owner (file_lock_state m)")
  case None
  then show ?thesis using assms free by (auto simp: darwin_sound_def darwin_holder_def)
next
  case (Some p)
  then obtain t where "fst t = p" "status (local_mutex m p) = Locked t"
    using assms unfolding darwin_sound_def by metis
  moreover from Some have "status (local_mutex m q) = Unlocked" if "q \<noteq> p" for q
    using assms that unfolding darwin_sound_def by (metis option.inject)
  ultimately show ?thesis using Some held [of t] by (auto simp: darwin_holder_def)
qed

lemma darwin_heldI:
  assumes "owner (file_lock_state m) = Some (fst t)" "status (local_mutex m (fst t)) = Locked t"
    "\<And>p. p \<noteq> fst t \<Longrightarrow> status (local_mutex m p) = Unlocked"
  shows "darwin_holder status owner m = Some t \<and> darwin_sound status owner m"
  using assms by (auto simp: darwin_holder_def darwin_sound_def simp del: split_paired_Ex)

lemma darwin_freeI:
  assumes "owner (file_lock_state m) = None" "\<And>p. status (local_mutex m p) = Unlocked"
  shows "darwin_holder status owner m = None \<and> darwin_sound status owner m"
  using assms by (auto simp: darwin_holder_def darwin_sound_def)

lemmas darwin_defs = Darwin_lock_def Darwin_RobustMutex_lock_def lock_local_def lock_file_def
  Darwin_unlock_def Darwin_RobustMutex_unlock_def set_local_def Let_def

context darwin_mutex
begin

lemma Darwin_lockable:
  "lockable (Darwin_lock api fapi True) (Darwin_unlock api fapi True) (darwin_exit api fapi)
    (darwin_holder status owner) (darwin_sound status owner)"
proof
  fix m t assume "darwin_sound status owner m" and h: "darwin_holder status owner m = None"
  then show "\<exists>m'. Darwin_lock api fapi True t m = Some (m', Inr ()) \<and>
      darwin_holder status owner m' = Some t \<and> darwin_sound status owner m'"
  proof (cases rule: darwin_cases)
    case free
    obtain l where l: "pthread_mutex_lock api t (local_mutex m (fst t)) = Some (l, Zero)" "status l = Locked t"
      using lock_unlocked free(2) by blast
    obtain f where f: "flock_ex fapi (fst t) (file_lock_state m) = Some (f, Zero)" "owner f = Some (fst t)"
      using flock_free [of "file_lock_state m" "fst t"] free(1) by auto
    have "Darwin_lock api fapi True t m = Some ((set_local (fst t) l m)\<lparr>file_lock_state := f\<rparr>, Inr ())"
      using l f by (simp add: darwin_defs)
    moreover have "darwin_holder status owner ((set_local (fst t) l m)\<lparr>file_lock_state := f\<rparr>) = Some t \<and>
        darwin_sound status owner ((set_local (fst t) l m)\<lparr>file_lock_state := f\<rparr>)"
      by (rule darwin_heldI) (use l f free(2) in \<open>simp_all add: set_local_def\<close>)
    ultimately show ?thesis by blast
  qed (use h in simp)
next
  fix m t u assume "darwin_sound status owner m" and h: "darwin_holder status owner m = Some u" "u \<noteq> t"
  then show "Darwin_lock api fapi True t m = None"
  proof (cases rule: darwin_cases)
    case (held v)
    then have v: "v = u" using h(1) by simp
    show ?thesis
    proof (cases "fst t = fst u")
      case True
      then show ?thesis using lock_other [of "local_mutex m (fst u)" u t] held(2) h(2) v by (simp add: darwin_defs)
    next
      case False
      then obtain l where "pthread_mutex_lock api t (local_mutex m (fst t)) = Some (l, Zero)"
        using held(3) v lock_unlocked [of "local_mutex m (fst t)" t] by auto
      then show ?thesis using flock_held [of "file_lock_state m" "fst u" "fst t"] held(1) v False
        by (simp add: darwin_defs)
    qed
  qed (use h in simp)
next
  fix m t assume "darwin_sound status owner m" and h: "darwin_holder status owner m = Some t"
  then show "\<exists>m' e. Darwin_lock api fapi True t m = Some (m', Inl e) \<and>
      darwin_holder status owner m' = Some t \<and> darwin_sound status owner m'"
  proof (cases rule: darwin_cases)
    case (held v)
    then have "pthread_mutex_lock api t (local_mutex m (fst t)) = Some (local_mutex m (fst t), Code EDEADLK)"
      using lock_own [of "local_mutex m (fst t)" t] h by simp
    then have "\<exists>e. Darwin_lock api fapi True t m = Some (m, Inl e)" by (simp add: darwin_defs)
    then show ?thesis using h \<open>darwin_sound status owner m\<close> by blast
  qed (use h in simp)
next
  fix m t assume "darwin_sound status owner m" and h: "darwin_holder status owner m = Some t"
  then show "\<exists>m'. Darwin_unlock api fapi True t m = (m', Inr ()) \<and>
      darwin_holder status owner m' = None \<and> darwin_sound status owner m'"
  proof (cases rule: darwin_cases)
    case (held v)
    then have v: "v = t" using h by simp
    obtain f where f: "flock_un fapi (fst t) (file_lock_state m) = (f, Zero)" "owner f = None"
      using flock_unlock [of "fst t" "file_lock_state m"] held(1) v by auto
    obtain l where l: "pthread_mutex_unlock api t (local_mutex m (fst t)) = (l, Zero)" "status l = Unlocked"
      using unlock_own [of "local_mutex m (fst t)" t] held(2) v by auto
    have "Darwin_unlock api fapi True t m = (set_local (fst t) l (m\<lparr>file_lock_state := f\<rparr>), Inr ())"
      using l f by (simp add: darwin_defs)
    moreover have "darwin_holder status owner (set_local (fst t) l (m\<lparr>file_lock_state := f\<rparr>)) = None \<and>
        darwin_sound status owner (set_local (fst t) l (m\<lparr>file_lock_state := f\<rparr>))"
      by (rule darwin_freeI) (use l f held(3) v in \<open>simp_all add: set_local_def\<close>)
    ultimately show ?thesis by blast
  qed (use h in simp)
next
  fix m p assume "darwin_sound status owner m"
  then show "darwin_sound status owner (darwin_exit api fapi p m) \<and>
      darwin_holder status owner (darwin_exit api fapi p m) =
      (case darwin_holder status owner m of None \<Rightarrow> None | Some t \<Rightarrow> if fst t = p then None else Some t)"
  proof (cases rule: darwin_cases)
    case free
    then have "darwin_holder status owner (darwin_exit api fapi p m) = None \<and>
        darwin_sound status owner (darwin_exit api fapi p m)"
      by (intro darwin_freeI) (simp_all add: darwin_exit_def set_local_def fst_InitLocalMutex flock_exit_owner)
    then show ?thesis using free(3) by simp
  next
    case (held t)
    show ?thesis
    proof (cases "fst t = p")
      case True
      then have "darwin_holder status owner (darwin_exit api fapi p m) = None \<and>
          darwin_sound status owner (darwin_exit api fapi p m)"
        using held(1,3)
        by (intro darwin_freeI) (simp_all add: darwin_exit_def set_local_def fst_InitLocalMutex flock_exit_owner)
      then show ?thesis using held(4) True by simp
    next
      case False
      then have "darwin_holder status owner (darwin_exit api fapi p m) = Some t \<and>
          darwin_sound status owner (darwin_exit api fapi p m)"
        using held(1-3)
        by (intro darwin_heldI) (simp_all add: darwin_exit_def set_local_def fst_InitLocalMutex flock_exit_owner)
      then show ?thesis using held(4) False by simp
    qed
  qed
qed

end

interpretation dk: darwin_mutex kernel "\<lambda>m. m" file_kernel "\<lambda>f. f"
  by unfold_locales

interpretation darwin: lockable "Darwin_lock kernel file_kernel True" "Darwin_unlock kernel file_kernel True"
  "darwin_exit kernel file_kernel" "darwin_holder (\<lambda>m. m) (\<lambda>f. f)" "darwin_sound (\<lambda>m. m) (\<lambda>f. f)"
  by (rule dk.Darwin_lockable)

section \<open>Properties\<close>




text \<open>
  \<open>try_lock\<close> compares the result of \<open>flock\<close> with \<open>EWOULDBLOCK\<close>, but it is -1: while a thread of
  another process holds the mutex, it throws instead of returning \<open>false\<close>, and leaves the mutex of its
  own process locked. Even when the other process has unlocked, \<open>lock\<close> blocks the other threads of
  the process and throws in the same thread.
\<close>

theorem Darwin_try_lock_contended:
  assumes "darwin_mutex api status fapi owner" "darwin_sound status owner m"
    "darwin_holder status owner m = Some u" "fst u \<noteq> fst t"
  shows "\<exists>m1 e m2. Darwin_try_lock api fapi True t m = (m1, Inl e) \<and>
    Darwin_unlock api fapi True u m1 = (m2, Inr ()) \<and> (\<exists>e. Darwin_lock api fapi True t m2 = Some (m2, Inl e)) \<and>
    (\<forall>v. fst v = fst t \<and> v \<noteq> t \<longrightarrow> Darwin_lock api fapi True v m2 = None)"
proof -
  note e = darwin_mutex.axioms(1) [OF assms(1)] and f = darwin_mutex.axioms(2) [OF assms(1)]
  have h: "owner (file_lock_state m) = Some (fst u)" "status (local_mutex m (fst u)) = Locked u"
    "status (local_mutex m (fst t)) = Unlocked"
    using assms(2) by (cases rule: darwin_cases; use assms(3,4) in simp)+
  obtain l where l: "pthread_mutex_trylock api t (local_mutex m (fst t)) = (l, Zero)" "status l = Locked t"
    using posix_errorcheck.trylock_unlocked [OF e h(3)] by blast
  have "flock_ex_nb fapi (fst t) (file_lock_state m) = (file_lock_state m, Minus_One)"
    using posix_flock.flock_nb_held [OF f h(1)] assms(4) by simp
  then have 1: "\<exists>e. Darwin_try_lock api fapi True t m = (set_local (fst t) l m, Inl e)"
    using l by (simp add: Darwin_try_lock_def Darwin_RobustMutex_try_lock_def set_local_def)
  obtain g where g: "flock_un fapi (fst u) (file_lock_state m) = (g, Zero)"
    using posix_flock.flock_unlock [OF f] by blast
  obtain k where "pthread_mutex_unlock api u (local_mutex m (fst u)) = (k, Zero)"
    using posix_errorcheck.unlock_own [OF e h(2)] by blast
  then have 2: "Darwin_unlock api fapi True u (set_local (fst t) l m) =
      (set_local (fst u) k ((set_local (fst t) l m)\<lparr>file_lock_state := g\<rparr>), Inr ())"
    using g assms(4) by (simp add: darwin_defs)
  let ?m2 = "set_local (fst u) k ((set_local (fst t) l m)\<lparr>file_lock_state := g\<rparr>)"
  have s: "local_mutex ?m2 (fst t) = l" using assms(4) by (simp add: set_local_def)
  have 3: "\<exists>e. Darwin_lock api fapi True t ?m2 = Some (?m2, Inl e)"
    using posix_errorcheck.lock_own [OF e l(2)] s assms(4) by (simp add: darwin_defs fun_upd_twist)
  have 4: "Darwin_lock api fapi True v ?m2 = None" if "fst v = fst t" "v \<noteq> t" for v
    using posix_errorcheck.lock_other [OF e l(2), of v] that s by (simp add: darwin_defs)
  show ?thesis using 1 2 3 4 by blast
qed

definition held_darwin :: "(mutex_status, nat option) darwin_state" where
  "held_darwin = \<lparr>local_mutex = (\<lambda>p. Unlocked)(1 := Locked (1, 1)), file_lock_state = Some 1\<rparr>"

lemma held_darwin_sound:
  "darwin_holder (\<lambda>m. m) (\<lambda>f. f) held_darwin = Some (1, 1)" "darwin_sound (\<lambda>m. m) (\<lambda>f. f) held_darwin"
  using darwin_heldI [of "\<lambda>f. f" held_darwin "(1, 1)" "\<lambda>m. m"] by (simp_all add: held_darwin_def)

theorem Darwin_try_lock_contended_witness:
  "\<exists>m1 e. Darwin_try_lock kernel file_kernel True (2, 1) held_darwin = (m1, Inl e)"
  using Darwin_try_lock_contended [OF dk.darwin_mutex_axioms held_darwin_sound(2,1), of "(2, 1)"] by auto

text \<open>
  \<open>unlock\<close> releases the file lock before it finds out that the caller does not hold the mutex: the
  call of another thread of the holder's process throws, but afterwards a thread of another process
  can lock the mutex although its holder is still inside.
\<close>

theorem Darwin_foreign_unlock_lets_others_in:
  assumes "darwin_mutex api status fapi owner" "darwin_sound status owner m"
    "darwin_holder status owner m = Some t" "fst u = fst t" "u \<noteq> t" "fst v \<noteq> fst t"
  shows "\<exists>m1 e m2. Darwin_unlock api fapi True u m = (m1, Inl e) \<and>
    Darwin_lock api fapi True v m1 = Some (m2, Inr ()) \<and> status (local_mutex m2 (fst t)) = Locked t"
proof -
  note e = darwin_mutex.axioms(1) [OF assms(1)] and f = darwin_mutex.axioms(2) [OF assms(1)]
  have h: "owner (file_lock_state m) = Some (fst t)" "status (local_mutex m (fst t)) = Locked t"
    "status (local_mutex m (fst v)) = Unlocked"
    using assms(2) by (cases rule: darwin_cases; use assms(3,6) in simp)+
  obtain g where g: "flock_un fapi (fst u) (file_lock_state m) = (g, Zero)" "owner g = None"
    using posix_flock.flock_unlock [OF f, of "fst u" "file_lock_state m"] h(1) assms(4) by auto
  have "pthread_mutex_unlock api u (local_mutex m (fst t)) = (local_mutex m (fst t), Code EPERM)"
    using posix_errorcheck.unlock_not_own [OF e, of _ t u] h(2) assms(5) by simp
  then have 1: "\<exists>e. Darwin_unlock api fapi True u m = (m\<lparr>file_lock_state := g\<rparr>, Inl e)"
    using g assms(4) by (simp add: darwin_defs)
  obtain l where l: "pthread_mutex_lock api v (local_mutex m (fst v)) = Some (l, Zero)"
    using posix_errorcheck.lock_unlocked [OF e h(3)] by blast
  obtain k where "flock_ex fapi (fst v) g = Some (k, Zero)"
    using posix_flock.flock_free [OF f, of g "fst v"] g(2) by auto
  then have "Darwin_lock api fapi True v (m\<lparr>file_lock_state := g\<rparr>) =
      Some (set_local (fst v) l (m\<lparr>file_lock_state := k\<rparr>), Inr ())"
    using l by (simp add: darwin_defs)
  moreover have "local_mutex (set_local (fst v) l (m\<lparr>file_lock_state := k\<rparr>)) (fst t) = local_mutex m (fst t)"
    using assms(6) by (simp add: set_local_def)
  ultimately show ?thesis using 1 h(2) by metis
qed

theorem Darwin_foreign_unlock_lets_others_in_witness:
  "\<exists>m1 e m2. Darwin_unlock kernel file_kernel True (1, 2) held_darwin = (m1, Inl e) \<and>
     Darwin_lock kernel file_kernel True (2, 1) m1 = Some (m2, Inr ())"
  using Darwin_foreign_unlock_lets_others_in
    [OF dk.darwin_mutex_axioms held_darwin_sound(2,1), of "(1, 2)" "(2, 1)"] by auto

end
