(* ===== verification/Win32_Mutex.thy ===== *)
theory Win32_Mutex
  imports Ipc_Mutex
begin

text \<open>
  \<open>src/ipc/win32/RobustMutex.cpp\<close>: the mutex on Windows, a named mutex object of the kernel and, in
  each process, the thread that holds it. The Windows functions are a parameter, over the state \<open>'w\<close>
  of the mutex object; \<open>win32_mutex\<close> states what is documented of them.
\<close>

section \<open>The Windows functions\<close>

datatype wait_status = WAIT_OBJECT_0 | WAIT_ABANDONED | WAIT_TIMEOUT | WAIT_FAILED

record 'w win32 =
  CreateMutexA :: "string \<Rightarrow> 'w option"
  CloseHandle :: "'w \<Rightarrow> 'w"
  WaitForSingleObject :: "thread \<Rightarrow> bool \<Rightarrow> 'w \<Rightarrow> ('w \<times> wait_status) option"
  ReleaseMutex :: "thread \<Rightarrow> 'w \<Rightarrow> 'w \<times> bool"
  GetLastError :: "'w option \<Rightarrow> nat"
  win32_exit :: "nat \<Rightarrow> 'w \<Rightarrow> 'w"

text \<open>
  A mutex object is owned by a thread, which can acquire it several times, or was abandoned by an
  owner that exited. The flag of \<open>WaitForSingleObject\<close> says that the timeout is \<open>INFINITE\<close>; the code
  uses 0 otherwise.
\<close>

datatype mutex_object = Signaled | Owned thread nat | Abandoned

locale win32_mutex =
  fixes api :: "'w win32" and status :: "'w \<Rightarrow> mutex_object"
  assumes wait_signaled: "status w = Signaled \<Longrightarrow>
      \<exists>w'. WaitForSingleObject api t b w = Some (w', WAIT_OBJECT_0) \<and> status w' = Owned t 1"
    and wait_abandoned: "status w = Abandoned \<Longrightarrow>
      \<exists>w'. WaitForSingleObject api t b w = Some (w', WAIT_ABANDONED) \<and> status w' = Owned t 1"
    and wait_own: "status w = Owned t n \<Longrightarrow>
      \<exists>w'. WaitForSingleObject api t b w = Some (w', WAIT_OBJECT_0) \<and> status w' = Owned t (Suc n)"
    and wait_other: "status w = Owned u n \<Longrightarrow> u \<noteq> t \<Longrightarrow>
      WaitForSingleObject api t b w = (if b then None else Some (w, WAIT_TIMEOUT))"
    and release_last: "status w = Owned t 1 \<Longrightarrow>
      \<exists>w'. ReleaseMutex api t w = (w', True) \<and> status w' = Signaled"
    and release_more: "status w = Owned t (Suc (Suc n)) \<Longrightarrow>
      \<exists>w'. ReleaseMutex api t w = (w', True) \<and> status w' = Owned t (Suc n)"
    and release_not_own: "\<forall>n. status w \<noteq> Owned t n \<Longrightarrow> ReleaseMutex api t w = (w, False)"
    and exit_status: "status (win32_exit api p w) =
      (case status w of Owned t n \<Rightarrow> if fst t = p then Abandoned else Owned t n | s \<Rightarrow> s)"

section \<open>The class RobustMutex\<close>

text \<open>
  The mutex object and, for the instance in each process, \<open>_currentLockingThread\<close>; \<open>None\<close> is the
  default \<open>std::thread::id()\<close>.
\<close>

record 'w win32_state =
  mutex_handle :: 'w
  currentLockingThread :: "nat \<Rightarrow> thread option"

text \<open>The constructor in the process \<open>p\<close>: the handle, and the function of the \<open>_disposer\<close>.\<close>

definition Win32_RobustMutex_ctor ::
  "'w win32 \<Rightarrow> string \<Rightarrow> nat \<Rightarrow> (nat \<Rightarrow> thread option) \<Rightarrow> cpp_error + 'w win32_state"
where
  "Win32_RobustMutex_ctor api name p current =
     (case CreateMutexA api name of
        None \<Rightarrow> Inl (runtime_error_code ''CreateMutexA failed, error: '' (Code (Errno (GetLastError api None))))
      | Some w \<Rightarrow> Inr \<lparr>mutex_handle = w, currentLockingThread = current(p := None)\<rparr>)"

definition Win32_RobustMutex_lock :: "'w win32 \<Rightarrow> 'w win32_state lock_op" where
  "Win32_RobustMutex_lock api t m =
     (if currentLockingThread m (fst t) = Some t
      then Some (m, Inl (runtime_error ''Attempted to recursively lock a mutex.''))
      else
        (case WaitForSingleObject api t True (mutex_handle m) of
           None \<Rightarrow> None
         | Some (w, result) \<Rightarrow> Some
             (let m = m\<lparr>mutex_handle := w\<rparr> in
              if result = WAIT_ABANDONED \<or> result = WAIT_OBJECT_0
              then (m\<lparr>currentLockingThread := (currentLockingThread m)(fst t := Some t)\<rparr>, Inr ())
              else if result = WAIT_FAILED
              then (m, Inl (runtime_error_code ''WaitForSingleObject failed, error: ''
                        (Code (Errno (GetLastError api (Some w))))))
              else (m, Inr ()))))"

definition Win32_RobustMutex_try_lock ::
  "'w win32 \<Rightarrow> thread \<Rightarrow> 'w win32_state \<Rightarrow> ('w win32_state \<times> (cpp_error + bool)) option"
where
  "Win32_RobustMutex_try_lock api t m =
     (if currentLockingThread m (fst t) = Some t
      then Some (m, Inl (runtime_error ''Attempted to recursively lock a mutex.''))
      else
        (case WaitForSingleObject api t False (mutex_handle m) of
           None \<Rightarrow> None
         | Some (w, result) \<Rightarrow> Some
             (let m = m\<lparr>mutex_handle := w\<rparr> in
              if result = WAIT_FAILED
              then (m, Inl (runtime_error_code ''WaitForSingleObject failed, error: ''
                        (Code (Errno (GetLastError api (Some w))))))
              else if result = WAIT_OBJECT_0 \<or> result = WAIT_ABANDONED
              then (m\<lparr>currentLockingThread := (currentLockingThread m)(fst t := Some t)\<rparr>, Inr True)
              else (m, Inr False))))"

text \<open>
  \<open>unlock\<close> in the two steps that other threads of the process can come between: \<open>ReleaseMutex\<close>, and
  the reset of \<open>_currentLockingThread\<close>.
\<close>

definition unlock_release :: "'w win32 \<Rightarrow> 'w win32_state unlock_op" where
  "unlock_release api t m =
     (case ReleaseMutex api t (mutex_handle m) of (w, released) \<Rightarrow>
        (m\<lparr>mutex_handle := w\<rparr>,
         if released then Inr ()
         else Inl (runtime_error_code ''ReleaseMutex failed, error: '' (Code (Errno (GetLastError api (Some w)))))))"

definition unlock_reset :: "thread \<Rightarrow> 'w win32_state \<Rightarrow> 'w win32_state" where
  "unlock_reset t m = m\<lparr>currentLockingThread := (currentLockingThread m)(fst t := None)\<rparr>"

definition Win32_RobustMutex_unlock :: "'w win32 \<Rightarrow> 'w win32_state unlock_op" where
  "Win32_RobustMutex_unlock api t m =
     (case unlock_release api t m of
        (m, Inl e) \<Rightarrow> (m, Inl e)
      | (m, Inr _) \<Rightarrow> (unlock_reset t m, Inr ()))"

text \<open>The public class.\<close>

definition Win32_lock :: "'w win32 \<Rightarrow> bool \<Rightarrow> 'w win32_state lock_op" where
  "Win32_lock api impl t m =
     (if \<not> impl then Some (m, Inl (runtime_error ''Not initialized.'')) else Win32_RobustMutex_lock api t m)"

definition Win32_try_lock ::
  "'w win32 \<Rightarrow> bool \<Rightarrow> thread \<Rightarrow> 'w win32_state \<Rightarrow> ('w win32_state \<times> (cpp_error + bool)) option"
where
  "Win32_try_lock api impl t m =
     (if \<not> impl then Some (m, Inl (runtime_error ''Not initialized.'')) else Win32_RobustMutex_try_lock api t m)"

definition Win32_unlock :: "'w win32 \<Rightarrow> bool \<Rightarrow> 'w win32_state unlock_op" where
  "Win32_unlock api impl t m =
     (if \<not> impl then (m, Inl (runtime_error ''Not initialized.'')) else Win32_RobustMutex_unlock api t m)"

text \<open>The exit of a process: its threads abandon the mutex object, its instance of the class is gone.\<close>

definition win32_process_exit :: "'w win32 \<Rightarrow> nat \<Rightarrow> 'w win32_state \<Rightarrow> 'w win32_state" where
  "win32_process_exit api p m =
     m\<lparr>mutex_handle := win32_exit api p (mutex_handle m),
       currentLockingThread := (currentLockingThread m)(p := None)\<rparr>"

section \<open>The contract holds on Windows\<close>

fun object_holder :: "mutex_object \<Rightarrow> thread option" where
  "object_holder (Owned t n) = Some t"
| "object_holder _ = None"

text \<open>The mutex is acquired at most once, and exactly the process of its owner knows the owner.\<close>

definition win32_sound :: "mutex_object \<Rightarrow> 'w win32_state \<Rightarrow> bool" where
  "win32_sound s m \<longleftrightarrow> (\<forall>t n. s = Owned t n \<longrightarrow> n = 1) \<and>
     (\<forall>p. currentLockingThread m p =
        (case object_holder s of None \<Rightarrow> None | Some t \<Rightarrow> if fst t = p then Some t else None))"

lemmas win32_defs = Win32_lock_def Win32_RobustMutex_lock_def Win32_unlock_def Win32_RobustMutex_unlock_def
  unlock_release_def unlock_reset_def win32_sound_def win32_process_exit_def Let_def

lemma win32_sound_owner:
  assumes "win32_sound s m" "object_holder s = Some t"
  shows "s = Owned t 1" "currentLockingThread m p = (if fst t = p then Some t else None)"
  using assms by (cases s; simp add: win32_sound_def)+

context win32_mutex
begin

lemma sound_cases:
  assumes "win32_sound (status (mutex_handle m)) m"
  obtains "status (mutex_handle m) = Signaled" "\<And>p. currentLockingThread m p = None"
  | "status (mutex_handle m) = Abandoned" "\<And>p. currentLockingThread m p = None"
  | t where "status (mutex_handle m) = Owned t 1"
      "\<And>p. currentLockingThread m p = (if fst t = p then Some t else None)"
  using assms by (cases "status (mutex_handle m)") (auto simp: win32_sound_def)

lemma Win32_checked_lockable:
  "checked_lockable (Win32_lock api True) (Win32_unlock api True) (win32_process_exit api)
    (\<lambda>m. object_holder (status (mutex_handle m))) (\<lambda>m. win32_sound (status (mutex_handle m)) m)"
proof
  fix m t assume s: "win32_sound (status (mutex_handle m)) m" and h: "object_holder (status (mutex_handle m)) = None"
  show "\<exists>m'. Win32_lock api True t m = Some (m', Inr ()) \<and>
      object_holder (status (mutex_handle m')) = Some t \<and> win32_sound (status (mutex_handle m')) m'"
    using s
  proof (cases rule: sound_cases)
    case 1
    then show ?thesis using wait_signaled [of "mutex_handle m" t True] by (auto simp: win32_defs)
  next
    case 2
    then show ?thesis using wait_abandoned [of "mutex_handle m" t True] by (auto simp: win32_defs)
  qed (use h in simp)
next
  fix m t u assume s: "win32_sound (status (mutex_handle m)) m"
    and h: "object_holder (status (mutex_handle m)) = Some u" "u \<noteq> t"
  show "Win32_lock api True t m = None"
    using s
    by (cases rule: sound_cases) (use h wait_other [of "mutex_handle m" u 1 t True] in \<open>auto simp: win32_defs\<close>)
next
  fix m t assume s: "win32_sound (status (mutex_handle m)) m" and h: "object_holder (status (mutex_handle m)) = Some t"
  show "\<exists>m' e. Win32_lock api True t m = Some (m', Inl e) \<and>
      object_holder (status (mutex_handle m')) = Some t \<and> win32_sound (status (mutex_handle m')) m'"
    using s by (cases rule: sound_cases) (use h s in \<open>auto simp: Win32_lock_def Win32_RobustMutex_lock_def\<close>)
next
  fix m t assume s: "win32_sound (status (mutex_handle m)) m" and h: "object_holder (status (mutex_handle m)) = Some t"
  show "\<exists>m'. Win32_unlock api True t m = (m', Inr ()) \<and>
      object_holder (status (mutex_handle m')) = None \<and> win32_sound (status (mutex_handle m')) m'"
    using s
    by (cases rule: sound_cases) (use h release_last [of "mutex_handle m" t] in \<open>auto simp: win32_defs\<close>)
next
  fix m p assume s: "win32_sound (status (mutex_handle m)) m"
  then show "win32_sound (status (mutex_handle (win32_process_exit api p m))) (win32_process_exit api p m) \<and>
      object_holder (status (mutex_handle (win32_process_exit api p m))) =
      (case object_holder (status (mutex_handle m)) of None \<Rightarrow> None | Some t \<Rightarrow> if fst t = p then None else Some t)"
    by (cases rule: sound_cases) (auto simp: win32_defs exit_status)
next
  fix m t assume s: "win32_sound (status (mutex_handle m)) m" and h: "object_holder (status (mutex_handle m)) \<noteq> Some t"
  have "\<forall>n. status (mutex_handle m) \<noteq> Owned t n" using h by auto
  then show "\<exists>m' e. Win32_unlock api True t m = (m', Inl e) \<and>
      object_holder (status (mutex_handle m')) = object_holder (status (mutex_handle m)) \<and>
      win32_sound (status (mutex_handle m')) m'"
    using s release_not_own [of "mutex_handle m" t] by (auto simp: Win32_unlock_def Win32_RobustMutex_unlock_def unlock_release_def)
qed

lemma Win32_try_lock_cases:
  assumes "win32_sound (status (mutex_handle m)) m"
  shows "case object_holder (status (mutex_handle m)) of
      None \<Rightarrow> \<exists>m'. Win32_try_lock api True t m = Some (m', Inr True) \<and>
        status (mutex_handle m') = Owned t 1 \<and> win32_sound (status (mutex_handle m')) m'
    | Some u \<Rightarrow> if u = t then \<exists>e. Win32_try_lock api True t m = Some (m, Inl e)
        else Win32_try_lock api True t m = Some (m, Inr False)"
  using assms
proof (cases rule: sound_cases)
  case 1
  then show ?thesis using wait_signaled [of "mutex_handle m" t False]
    by (auto simp: Win32_try_lock_def Win32_RobustMutex_try_lock_def win32_sound_def)
next
  case 2
  then show ?thesis using wait_abandoned [of "mutex_handle m" t False]
    by (auto simp: Win32_try_lock_def Win32_RobustMutex_try_lock_def win32_sound_def)
next
  case (3 u)
  then show ?thesis using wait_other [of "mutex_handle m" u 1 t False]
    by (auto simp: Win32_try_lock_def Win32_RobustMutex_try_lock_def)
qed

end

section \<open>Windows functions that satisfy the contract\<close>

fun object_wait :: "thread \<Rightarrow> bool \<Rightarrow> mutex_object \<Rightarrow> (mutex_object \<times> wait_status) option" where
  "object_wait t b Signaled = Some (Owned t 1, WAIT_OBJECT_0)"
| "object_wait t b Abandoned = Some (Owned t 1, WAIT_ABANDONED)"
| "object_wait t b (Owned u n) =
     (if u = t then Some (Owned t (Suc n), WAIT_OBJECT_0)
      else if b then None else Some (Owned u n, WAIT_TIMEOUT))"

fun object_release :: "thread \<Rightarrow> mutex_object \<Rightarrow> mutex_object \<times> bool" where
  "object_release t (Owned u n) =
     (if u = t then ((if n \<le> 1 then Signaled else Owned u (n - 1)), True) else (Owned u n, False))"
| "object_release t s = (s, False)"

fun object_exit :: "nat \<Rightarrow> mutex_object \<Rightarrow> mutex_object" where
  "object_exit p (Owned u n) = (if fst u = p then Abandoned else Owned u n)"
| "object_exit p s = s"

definition windows :: "mutex_object win32" where
  "windows =
     \<lparr>CreateMutexA = (\<lambda>name. Some Signaled), CloseHandle = (\<lambda>w. w), WaitForSingleObject = object_wait,
      ReleaseMutex = object_release, GetLastError = (\<lambda>w. 0), win32_exit = object_exit\<rparr>"

lemma object_release_not_own: "\<forall>n. w \<noteq> Owned t n \<Longrightarrow> object_release t w = (w, False)"
  by (cases w) auto

interpretation wm: win32_mutex windows "\<lambda>w. w"
  by unfold_locales (auto simp: windows_def object_release_not_own split: mutex_object.split)

interpretation win32: checked_lockable "Win32_lock windows True" "Win32_unlock windows True"
  "win32_process_exit windows" "\<lambda>m. object_holder (mutex_handle m)" "\<lambda>m. win32_sound (mutex_handle m) m"
  by (rule wm.Win32_checked_lockable)

section \<open>Properties\<close>




text \<open>
  \<open>unlock\<close> forgets \<open>_currentLockingThread\<close> only after \<open>ReleaseMutex\<close>. When another thread of the
  process locks the mutex in between, its name is erased: it can then lock the mutex a second time
  without an exception, and after its \<open>unlock\<close> it still holds the mutex, so that everybody else blocks.
\<close>

theorem Win32_unlock_race:
  assumes "win32_mutex api status" "win32_sound (status (mutex_handle m)) m"
    "object_holder (status (mutex_handle m)) = Some t" "fst u = fst t" "u \<noteq> t" "v \<noteq> u"
  shows "\<exists>m1 m2 m3 m4. unlock_release api t m = (m1, Inr ()) \<and>
    Win32_RobustMutex_lock api u m1 = Some (m2, Inr ()) \<and>
    Win32_RobustMutex_lock api u (unlock_reset t m2) = Some (m3, Inr ()) \<and>
    Win32_RobustMutex_unlock api u m3 = (m4, Inr ()) \<and> Win32_RobustMutex_lock api v m4 = None"
proof -
  note a = win32_mutex.wait_signaled [OF assms(1)] win32_mutex.wait_own [OF assms(1)]
    win32_mutex.release_last [OF assms(1)] win32_mutex.release_more [OF assms(1)]
    win32_mutex.wait_other [OF assms(1)]
  have m: "status (mutex_handle m) = Owned t 1" "\<And>p. currentLockingThread m p = (if fst t = p then Some t else None)"
    using win32_sound_owner [OF assms(2,3)] by auto
  obtain w1 where 1: "ReleaseMutex api t (mutex_handle m) = (w1, True)" "status w1 = Signaled"
    using a(3) [OF m(1)] by blast
  obtain w2 where 2: "WaitForSingleObject api u True w1 = Some (w2, WAIT_OBJECT_0)" "status w2 = Owned u 1"
    using a(1) [OF 1(2)] by blast
  obtain w3 where 3: "WaitForSingleObject api u True w2 = Some (w3, WAIT_OBJECT_0)" "status w3 = Owned u (Suc 1)"
    using a(2) [OF 2(2)] by blast
  obtain w4 where 4: "ReleaseMutex api u w3 = (w4, True)" "status w4 = Owned u (Suc 0)"
    using a(4) [of w3 u 0] 3(2) by auto
  have 5: "WaitForSingleObject api v True w4 = None" using a(5) [OF 4(2), of v True] assms(6) by auto
  let ?c = "currentLockingThread m"
  let ?m2 = "m\<lparr>mutex_handle := w2, currentLockingThread := ?c(fst t := Some u)\<rparr>"
  let ?m3 = "m\<lparr>mutex_handle := w3, currentLockingThread := ?c(fst t := Some u)\<rparr>"
  let ?m4 = "m\<lparr>mutex_handle := w4, currentLockingThread := ?c(fst t := None)\<rparr>"
  have "unlock_release api t m = (m\<lparr>mutex_handle := w1\<rparr>, Inr ())"
    using 1(1) by (simp add: unlock_release_def)
  moreover have "Win32_RobustMutex_lock api u (m\<lparr>mutex_handle := w1\<rparr>) = Some (?m2, Inr ())"
    using 2(1) m(2) [of "fst t"] assms(4,5) by (simp add: Win32_RobustMutex_lock_def)
  moreover have "Win32_RobustMutex_lock api u (unlock_reset t ?m2) = Some (?m3, Inr ())"
    using 3(1) assms(4) by (simp add: Win32_RobustMutex_lock_def unlock_reset_def)
  moreover have "Win32_RobustMutex_unlock api u ?m3 = (?m4, Inr ())"
    using 4(1) assms(4) by (simp add: Win32_RobustMutex_unlock_def unlock_release_def unlock_reset_def)
  moreover have "Win32_RobustMutex_lock api v ?m4 = None"
    using 5 m(2) [of "fst v"] by (auto simp: Win32_RobustMutex_lock_def)
  ultimately show ?thesis by blast
qed

definition locked_win32 :: "mutex_object win32_state" where
  "locked_win32 = \<lparr>mutex_handle = Owned (1, 1) 1, currentLockingThread = (\<lambda>p. None)(1 := Some (1, 1))\<rparr>"

theorem Win32_unlock_race_witness:
  "\<exists>m1 m2. unlock_release windows (1, 1) locked_win32 = (m1, Inr ()) \<and>
     Win32_RobustMutex_lock windows (1, 2) m1 = Some (m2, Inr ())"
proof -
  have "win32_sound (mutex_handle locked_win32) locked_win32" "object_holder (mutex_handle locked_win32) = Some (1, 1)"
    by (auto simp: locked_win32_def win32_sound_def)
  with Win32_unlock_race [OF wm.win32_mutex_axioms, of locked_win32 "(1, 1)" "(1, 2)" "(2, 2)"]
  show ?thesis by auto
qed

end
