(* ===== verification/Linux_Shared_Memory.thy ===== *)
theory Linux_Shared_Memory
  imports Posix_Api Disposer
begin

text \<open>
  \<open>src/ipc/linux/SharedMemory.cpp\<close> and the public class of \<open>include/azul/ipc/SharedMemory.hpp\<close>: a named
  block of memory that its owner creates and other processes open. The functions of the system are a
  parameter with the contract \<open>posix_shared_memory\<close>.

  The two \<open>Disposer\<close> members hold what has to be released; a function that a \<open>Disposer\<close> calls is a
  value of \<open>shm_cleanup\<close>.
\<close>

section \<open>The class SharedMemory\<close>

datatype shm_cleanup = Close_File nat bool string | Unmap nat u64

fun run_cleanup :: "'k posix_shm \<Rightarrow> shm_cleanup \<Rightarrow> 'k \<Rightarrow> 'k" where
  "run_cleanup api (Close_File fd isOwner name) k =
     (let k = close_fd api fd k in if isOwner then fst (shm_unlink api name k) else k)"
| "run_cleanup api (Unmap address sz) k = munmap api address sz k"

definition dispose :: "'k posix_shm \<Rightarrow> shm_cleanup disposer \<Rightarrow> 'k \<Rightarrow> 'k" where
  "dispose api d k = fold (run_cleanup api) (Disposer_dtor d) k"

definition Linux_CreateSharedMemory ::
  "'k posix_shm \<Rightarrow> bool \<Rightarrow> string \<Rightarrow> shm_cleanup disposer \<Rightarrow> 'k \<Rightarrow> 'k \<times> shm_cleanup disposer \<times> (cpp_error + nat)"
where
  "Linux_CreateSharedMemory api isOwner name d k =
     (let flags = (if isOwner then [O_RDWR, O_CREAT, O_EXCL] else [O_RDWR]);
          finish = (\<lambda>(k, fd).
            case fd of
              Inl e \<Rightarrow> (k, d, Inl (runtime_error_code ''shm_open failed, error: '' (Code e)))
            | Inr fd \<Rightarrow> (k, Disposer_Set d (Some (Close_File fd isOwner name)), Inr fd))
      in case shm_open api name flags 416 k of
           (k, r) \<Rightarrow>
             if r = Inl EEXIST
             then (case shm_unlink api name k of
                     (k, Inl e) \<Rightarrow> (k, d, Inl (runtime_error_code
                        ''shm_unlink of previously generated shared memory failed, error: '' (Code e)))
                   | (k, Inr _) \<Rightarrow> finish (shm_open api name flags 416 k))
             else finish (k, r))"

definition Linux_AllocateSharedMemory ::
  "'k posix_shm \<Rightarrow> nat \<Rightarrow> u64 \<Rightarrow> bool \<Rightarrow> shm_cleanup disposer \<Rightarrow> 'k \<Rightarrow> 'k \<times> shm_cleanup disposer \<times> (cpp_error + nat)"
where
  "Linux_AllocateSharedMemory api fd sz isOwner d k =
     (case (if isOwner then ftruncate api fd sz k else (k, Inr ())) of
        (k, Inl e) \<Rightarrow> (k, d, Inl (runtime_error_code ''ftruncate failed, error: '' (Code e)))
      | (k, Inr _) \<Rightarrow>
          (case mmap api sz fd k of
             (k, Inl e) \<Rightarrow> (k, d, Inl (runtime_error_code ''mmap failed, error: '' (Code e)))
           | (k, Inr address) \<Rightarrow> (k, Disposer_Set d (Some (Unmap address sz)), Inr address)))"

record shared_memory =
  fd_disposer :: "shm_cleanup disposer"
  mem_fd :: nat
  allocation_disposer :: "shm_cleanup disposer"
  mem_address :: nat
  mem_size :: u64

text \<open>The constructor; when it throws, the members constructed so far are destroyed in reverse order.\<close>

definition Linux_SharedMemory_ctor ::
  "'k posix_shm \<Rightarrow> string \<Rightarrow> u64 \<Rightarrow> bool \<Rightarrow> 'k \<Rightarrow> 'k \<times> (cpp_error + shared_memory)"
where
  "Linux_SharedMemory_ctor api name sz isOwner k =
     (case Linux_CreateSharedMemory api isOwner name Disposer_default k of
        (k, d1, Inl e) \<Rightarrow> (dispose api d1 k, Inl e)
      | (k, d1, Inr fd) \<Rightarrow>
          (case Linux_AllocateSharedMemory api fd sz isOwner Disposer_default k of
             (k, d2, Inl e) \<Rightarrow> (dispose api d1 (dispose api d2 k), Inl e)
           | (k, d2, Inr address) \<Rightarrow>
               (k, Inr \<lparr>fd_disposer = d1, mem_fd = fd, allocation_disposer = d2,
                        mem_address = address, mem_size = sz\<rparr>)))"

text \<open>The destructor destroys the members in the reverse order of their declaration.\<close>

definition SharedMemory_dtor :: "'k posix_shm \<Rightarrow> shared_memory \<Rightarrow> 'k \<Rightarrow> 'k" where
  "SharedMemory_dtor api mem k = dispose api (fd_disposer mem) (dispose api (allocation_disposer mem) k)"

text \<open>The public class: a default-constructed object has no \<open>_impl\<close>.\<close>

definition Linux_Address :: "shared_memory option \<Rightarrow> cpp_error + nat" where
  "Linux_Address impl =
     (case impl of None \<Rightarrow> Inl (runtime_error ''Not initialized.'') | Some mem \<Rightarrow> Inr (mem_address mem))"

definition Linux_Size :: "shared_memory option \<Rightarrow> cpp_error + u64" where
  "Linux_Size impl =
     (case impl of None \<Rightarrow> Inl (runtime_error ''Not initialized.'') | Some mem \<Rightarrow> Inr (mem_size mem))"

section \<open>What the class owns\<close>

lemmas dispose_simps = dispose_def Disposer_dtor_def Disposer_Set_def Disposer_default_def

text \<open>The result of a call that may throw.\<close>

fun outcome :: "'e + 'a \<Rightarrow> 'a option" where
  "outcome (Inl e) = None"
| "outcome (Inr x) = Some x"

text \<open>
  What \<open>CreateSharedMemory\<close> leaves: no descriptor after an exception, otherwise a new descriptor of the
  object the name stands for, and the cleanup for it.
\<close>

definition opened :: "bool \<Rightarrow> string \<Rightarrow> shm_view \<Rightarrow> shm_view \<Rightarrow> shm_cleanup disposer \<Rightarrow> nat option \<Rightarrow> bool" where
  "opened isOwner n v v' d r \<longleftrightarrow> mapped v' = mapped v \<and>
     (\<forall>m. m \<noteq> n \<longrightarrow> object_of v' m = object_of v m) \<and>
     (case r of
        None \<Rightarrow> behind v' = behind v \<and> Disposer_dtor d = []
      | Some fd \<Rightarrow> behind v fd = None \<and> Disposer_dtor d = [Close_File fd isOwner n] \<and>
          (\<exists>x. object_of v' n = Some x \<and> behind v' = (behind v)(fd \<mapsto> x)))"

text \<open>What \<open>AllocateSharedMemory\<close> leaves: no mapping after an exception, otherwise one of the file.\<close>

definition allocated :: "nat \<Rightarrow> shm_view \<Rightarrow> shm_view \<Rightarrow> u64 \<Rightarrow> shm_cleanup disposer \<Rightarrow> nat option \<Rightarrow> bool" where
  "allocated fd v v' sz d r \<longleftrightarrow> object_of v' = object_of v \<and> behind v' = behind v \<and>
     (case r of
        None \<Rightarrow> mapped v' = mapped v \<and> Disposer_dtor d = []
      | Some a \<Rightarrow> mapped v a = None \<and> Disposer_dtor d = [Unmap a sz] \<and>
          (\<exists>x. behind v fd = Some x \<and> mapped v' = (mapped v)(a \<mapsto> x)))"

text \<open>The same descriptors and mappings, and the same names except perhaps one.\<close>

definition same_except :: "string \<Rightarrow> shm_view \<Rightarrow> shm_view \<Rightarrow> bool" where
  "same_except n v v' \<longleftrightarrow> mapped v' = mapped v \<and> behind v' = behind v \<and>
     (\<forall>m. m \<noteq> n \<longrightarrow> object_of v' m = object_of v m)"

context posix_shared_memory
begin

text \<open>Cleanups release what they name; unlinking may fail, and then the name stays.\<close>

lemma run_cleanup_view:
  "mapped (view (run_cleanup api (Close_File fd b n) k)) = mapped (view k)"
  "behind (view (run_cleanup api (Close_File fd b n) k)) = (behind (view k))(fd := None)"
  "m \<noteq> n \<or> \<not> b \<Longrightarrow> object_of (view (run_cleanup api (Close_File fd b n) k)) m = object_of (view k) m"
  "view (run_cleanup api (Unmap a s) k) = (view k)\<lparr>mapped := (mapped (view k))(a := None)\<rparr>"
proof -
  obtain k' r where u: "shm_unlink api n (close_fd api fd k) = (k', r)" by fastforce
  then have "view k' = view (close_fd api fd k) \<or>
      view k' = (view (close_fd api fd k))\<lparr>object_of := (object_of (view (close_fd api fd k)))(n := None)\<rparr>"
    using unlink_fails unlink_done by (cases r) auto
  then show "mapped (view (run_cleanup api (Close_File fd b n) k)) = mapped (view k)"
    "behind (view (run_cleanup api (Close_File fd b n) k)) = (behind (view k))(fd := None)"
    "m \<noteq> n \<or> \<not> b \<Longrightarrow> object_of (view (run_cleanup api (Close_File fd b n) k)) m = object_of (view k) m"
    using u by (auto simp: close_view Let_def)
qed (simp add: munmap_view)

lemma open_spec:
  assumes "shm_open api n fl mode k = (k', Inr fd)"
  shows "behind (view k) fd = None" "mapped (view k') = mapped (view k)"
    "\<exists>x. object_of (view k') n = Some x \<and> behind (view k') = (behind (view k))(fd \<mapsto> x)"
    "m \<noteq> n \<Longrightarrow> object_of (view k') m = object_of (view k) m"
  using open_old [OF assms] open_new [OF assms] by (cases "object_of (view k) n"; auto)+

lemma open_opened:
  assumes "shm_open api n fl mode k = (k', r)"
  shows "case r of
      Inl e \<Rightarrow> opened b n (view k) (view k') Disposer_default None
    | Inr fd \<Rightarrow> opened b n (view k) (view k') (Disposer_Set Disposer_default (Some (Close_File fd b n))) (Some fd)"
  using assms open_fails [of n fl mode k k'] open_spec [of n fl mode k k']
  by (cases r) (auto simp: opened_def dispose_simps)

lemma unlink_keeps:
  assumes "shm_unlink api n k = (k', r)"
  shows "mapped (view k') = mapped (view k)" "behind (view k') = behind (view k)"
    "m \<noteq> n \<Longrightarrow> object_of (view k') m = object_of (view k) m"
  using assms unlink_fails unlink_done by (cases r; fastforce)+

lemma opened_after_unlink:
  assumes "shm_unlink api n k = (k', u)" "opened b n (view k') v d r"
  shows "opened b n (view k) v d r"
  using unlink_keeps [OF assms(1)] assms(2) by (auto simp: opened_def split: option.splits)

lemma Linux_Create_opened:
  assumes "Linux_CreateSharedMemory api b n Disposer_default k = (k', d, r)"
  shows "opened b n (view k) (view k') d (outcome r)"
proof -
  let ?fl = "if b then [O_RDWR, O_CREAT, O_EXCL] else [O_RDWR]"
  obtain k1 r1 where o: "shm_open api n ?fl 416 k = (k1, r1)" by fastforce
  note o1 = open_opened [OF o, of b]
  show ?thesis
  proof (cases "r1 = Inl EEXIST")
    case False
    then show ?thesis
      using assms o o1 by (cases r1) (auto simp: Linux_CreateSharedMemory_def Let_def)
  next
    case True
    then have v: "view k1 = view k" using o open_fails by blast
    obtain k2 u where u: "shm_unlink api n k1 = (k2, u)" by fastforce
    show ?thesis
    proof (cases u)
      case (Inl e)
      then have "view k2 = view k" using u v unlink_fails by simp
      then show ?thesis
        using assms o True u Inl by (auto simp: Linux_CreateSharedMemory_def opened_def dispose_simps)
    next
      case (Inr x)
      obtain k3 r3 where o3: "shm_open api n ?fl 416 k2 = (k3, r3)" by fastforce
      note o4 = open_opened [OF o3, of b]
      have "opened b n (view k2) (view k') d (outcome r)"
        using assms o True u Inr o3 o4 by (cases r3) (auto simp: Linux_CreateSharedMemory_def Let_def)
      then show ?thesis using opened_after_unlink [OF u] v by simp
    qed
  qed
qed

lemma mmap_allocated:
  assumes "mmap api sz fd k = (k', r)"
  shows "case r of
      Inl e \<Rightarrow> allocated fd (view k) (view k') sz Disposer_default None
    | Inr a \<Rightarrow> allocated fd (view k) (view k') sz (Disposer_Set Disposer_default (Some (Unmap a sz))) (Some a)"
  using assms mmap_fails [of sz fd k k'] mmap_done [of sz fd k k']
  by (cases r) (auto simp: allocated_def dispose_simps)

lemma Linux_Allocate_allocated:
  assumes "Linux_AllocateSharedMemory api fd sz b Disposer_default k = (k', d, r)"
  shows "allocated fd (view k) (view k') sz d (outcome r)"
proof -
  obtain k1 r1 where t: "(if b then ftruncate api fd sz k else (k, Inr ())) = (k1, r1)" by fastforce
  then have v: "view k1 = view k" using ftruncate_view [of fd sz k] by (auto split: if_splits)
  obtain k2 r2 where m: "mmap api sz fd k1 = (k2, r2)" by fastforce
  show ?thesis
  proof (cases r1)
    case (Inl e)
    then show ?thesis
      using assms t v by (auto simp: Linux_AllocateSharedMemory_def allocated_def dispose_simps)
  next
    case (Inr x)
    then show ?thesis
      using assms t v m mmap_allocated [OF m] by (cases r2) (auto simp: Linux_AllocateSharedMemory_def)
  qed
qed

lemma dtor_unlinks:
  assumes "\<And>k'. object_of (view k') n \<noteq> None \<Longrightarrow> \<exists>k''. shm_unlink api n k' = (k'', Inr ())"
    and "Disposer_dtor d1 = [Close_File fd True n]"
  shows "object_of (view (dispose api d1 k)) n = None"
proof (cases "object_of (view (close_fd api fd k)) n")
  case None
  obtain k' r where r: "shm_unlink api n (close_fd api fd k) = (k', r)" by fastforce
  then have "object_of (view k') n = None"
    using unlink_fails unlink_done None by (cases r) auto
  then show ?thesis using r assms(2) by (simp add: dispose_def)
next
  case (Some x)
  then obtain k' where k': "shm_unlink api n (close_fd api fd k) = (k', Inr ())"
    using assms(1) by fastforce
  then show ?thesis using unlink_done [OF k'] assms(2) by (simp add: dispose_def)
qed

text \<open>Both steps together, whatever platform they are from.\<close>

lemma ctor_throws:
  assumes "opened b n v (view k1) d1 r1"
    and "case r1 of None \<Rightarrow> k' = dispose api d1 k1
      | Some fd \<Rightarrow> \<exists>k2 d2. allocated fd (view k1) (view k2) sz d2 None \<and>
          k' = dispose api d1 (dispose api d2 k2)"
  shows "same_except n v (view k')"
proof (cases r1)
  case None
  then show ?thesis using assms by (simp add: opened_def same_except_def dispose_def)
next
  case (Some fd)
  then obtain k2 d2 where a: "allocated fd (view k1) (view k2) sz d2 None"
    "k' = dispose api d1 (dispose api d2 k2)" using assms(2) Some by auto
  then have "k' = run_cleanup api (Close_File fd b n) k2"
    using assms(1) Some by (simp add: opened_def allocated_def dispose_def)
  then show ?thesis
    using assms(1) Some a(1) by (auto simp: opened_def allocated_def same_except_def run_cleanup_view simp del: run_cleanup.simps)
qed

lemma ctor_then_dtor:
  assumes "opened b n v (view k1) d1 (Some fd)" "allocated fd (view k1) (view k2) sz d2 (Some a)"
    "same_except n (view k2) (view k3)"
  shows "same_except n v (view (dispose api d1 (dispose api d2 k3)))"
proof -
  have "dispose api d1 (dispose api d2 k3) = run_cleanup api (Close_File fd b n) (run_cleanup api (Unmap a sz) k3)"
    using assms by (simp add: opened_def allocated_def dispose_def)
  moreover have "(mapped (view k2))(a := None) = mapped v" "(behind (view k2))(fd := None) = behind v"
    using assms(1,2) by (auto simp: opened_def allocated_def fun_upd_idem_iff)
  ultimately show ?thesis
    using assms by (auto simp: opened_def allocated_def same_except_def run_cleanup_view simp del: run_cleanup.simps)
qed

end

section \<open>Properties\<close>

lemma Linux_ctor_spec:
  assumes "posix_shared_memory api view" "Linux_SharedMemory_ctor api n sz b k = (k', r)"
  shows "case r of
      Inl e \<Rightarrow> same_except n (view k) (view k')
    | Inr mem \<Rightarrow> \<exists>k1. Linux_CreateSharedMemory api b n Disposer_default k = (k1, fd_disposer mem, Inr (mem_fd mem)) \<and>
        opened b n (view k) (view k1) (fd_disposer mem) (Some (mem_fd mem)) \<and>
        allocated (mem_fd mem) (view k1) (view k') sz (allocation_disposer mem) (Some (mem_address mem))"
proof -
  obtain k1 d1 r1 where c: "Linux_CreateSharedMemory api b n Disposer_default k = (k1, d1, r1)"
    using prod_cases3 by blast
  note o = posix_shared_memory.Linux_Create_opened [OF assms(1) c]
  note t = posix_shared_memory.ctor_throws [OF assms(1) o]
  show ?thesis
  proof (cases r1)
    case (Inl e)
    then show ?thesis using assms(2) c t by (auto simp: Linux_SharedMemory_ctor_def)
  next
    case (Inr fd)
    obtain k2 d2 r2 where a: "Linux_AllocateSharedMemory api fd sz b Disposer_default k1 = (k2, d2, r2)"
      using prod_cases3 by blast
    note l = posix_shared_memory.Linux_Allocate_allocated [OF assms(1) a]
    show ?thesis
    proof (cases r2)
      case (Inl e)
      then have "r = Inl e" "k' = dispose api d1 (dispose api d2 k2)"
        using assms(2) c Inr a by (auto simp: Linux_SharedMemory_ctor_def)
      then show ?thesis using t [of k' sz] l Inl Inr by auto
    next
      case (Inr address)
      then show ?thesis
        using assms(2) c \<open>r1 = Inr fd\<close> a o l by (auto simp: Linux_SharedMemory_ctor_def)
    qed
  qed
qed


definition no_tables :: shm_tables where
  "no_tables = \<lparr>names = [], files = [], maps = []\<rparr>"

definition owner_mem :: shared_memory where
  "owner_mem =
     \<lparr>fd_disposer = \<lparr>func = Some (Close_File 1 True ''m'')\<rparr>, mem_fd = 1,
      allocation_disposer = \<lparr>func = Some (Unmap 4 64)\<rparr>, mem_address = 4, mem_size = 64\<rparr>"

definition with_owner :: shm_tables where
  "with_owner = \<lparr>names = [(''m'', 1)], files = [(1, 1)], maps = [(4, 1)]\<rparr>"

lemma owner_run: "Linux_SharedMemory_ctor tables ''m'' 64 True no_tables = (with_owner, Inr owner_mem)"
  by code_simp


lemma Linux_client_keeps_name:
  assumes "posix_shared_memory api view"
    "Linux_CreateSharedMemory api False n Disposer_default k = (k', d, Inr fd)" "object_of (view k) n = Some x"
  shows "object_of (view k') n = Some x"
proof -
  obtain k1 r1 where o: "shm_open api n [O_RDWR] 416 k = (k1, r1)" by fastforce
  have "r1 \<noteq> Inl EEXIST" using posix_shared_memory.open_exists [OF assms(1), of n "[O_RDWR]" 416 k k1] o by auto
  then have "k1 = k' \<and> r1 = Inr fd"
    using assms(2) o by (cases r1) (auto simp: Linux_CreateSharedMemory_def)
  then show ?thesis using posix_shared_memory.open_old [OF assms(1), of n "[O_RDWR]" 416 k k' fd x] o assms(3) by auto
qed

text \<open>
  The memory is shared: what a client maps after the owner has created the memory is the object the
  owner has mapped, at another address of its own.
\<close>

theorem Linux_SharedMemory_is_shared:
  assumes "posix_shared_memory api view" "Linux_SharedMemory_ctor api n sz True k = (k1, Inr owner)"
    "Linux_SharedMemory_ctor api n sz' False k1 = (k2, Inr client)"
  shows "\<exists>x. mapped (view k2) (mem_address owner) = Some x \<and> mapped (view k2) (mem_address client) = Some x \<and>
    mem_address client \<noteq> mem_address owner"
proof -
  obtain k0 where o: "opened True n (view k) (view k0) (fd_disposer owner) (Some (mem_fd owner))"
    "allocated (mem_fd owner) (view k0) (view k1) sz (allocation_disposer owner) (Some (mem_address owner))"
    using Linux_ctor_spec [OF assms(1,2)] by auto
  then obtain x where x: "object_of (view k1) n = Some x" "mapped (view k1) (mem_address owner) = Some x"
    by (auto simp: opened_def allocated_def)
  obtain k3 where c: "Linux_CreateSharedMemory api False n Disposer_default k1 =
        (k3, fd_disposer client, Inr (mem_fd client))"
    "opened False n (view k1) (view k3) (fd_disposer client) (Some (mem_fd client))"
    "allocated (mem_fd client) (view k3) (view k2) sz' (allocation_disposer client) (Some (mem_address client))"
    using Linux_ctor_spec [OF assms(1,3)] by auto
  have "object_of (view k3) n = Some x" using Linux_client_keeps_name [OF assms(1) c(1) x(1)] .
  then show ?thesis using c(2,3) x(2) by (auto simp: opened_def allocated_def)
qed

definition client_mem :: shared_memory where
  "client_mem =
     \<lparr>fd_disposer = \<lparr>func = Some (Close_File 9 False ''m'')\<rparr>, mem_fd = 9,
      allocation_disposer = \<lparr>func = Some (Unmap 19 64)\<rparr>, mem_address = 19, mem_size = 64\<rparr>"

definition with_client :: shm_tables where
  "with_client = \<lparr>names = [(''m'', 1)], files = [(9, 1), (1, 1)], maps = [(19, 1), (4, 1)]\<rparr>"

lemma client_run: "Linux_SharedMemory_ctor tables ''m'' 64 False with_owner = (with_client, Inr client_mem)"
  by code_simp

theorem Linux_SharedMemory_is_shared_witness:
  "\<exists>x. mapped (tables_view with_client) 4 = Some x \<and> mapped (tables_view with_client) 19 = Some x"
  using Linux_SharedMemory_is_shared [OF shm.posix_shared_memory_axioms owner_run client_run]
  by (auto simp: owner_mem_def client_mem_def)

text \<open>
  A second owner of the same name silently replaces the memory: both constructors succeed but map
  different objects, so the users of the first one are cut off; and the destructor of the first owner
  then removes the name of the memory of the second.
\<close>

theorem second_owner_replaces_memory:
  assumes "posix_shared_memory api view" "Linux_SharedMemory_ctor api n sz True k = (k1, Inr first)"
    "Linux_SharedMemory_ctor api n sz' True k1 = (k2, Inr second)"
    and u: "\<And>k'. object_of (view k') n \<noteq> None \<Longrightarrow> \<exists>k''. shm_unlink api n k' = (k'', Inr ())"
  shows "mapped (view k2) (mem_address first) \<noteq> mapped (view k2) (mem_address second) \<and>
    mapped (view k2) (mem_address second) \<noteq> None \<and> mapped (view k2) (mem_address first) \<noteq> None \<and>
    object_of (view (SharedMemory_dtor api first k2)) n = None"
proof -
  note api = assms(1)
  obtain k0 where o: "opened True n (view k) (view k0) (fd_disposer first) (Some (mem_fd first))"
    "allocated (mem_fd first) (view k0) (view k1) sz (allocation_disposer first) (Some (mem_address first))"
    using Linux_ctor_spec [OF assms(1,2)] by auto
  then obtain x where x: "object_of (view k1) n = Some x" "mapped (view k1) (mem_address first) = Some x"
    by (auto simp: opened_def allocated_def)
  obtain k3 where c: "Linux_CreateSharedMemory api True n Disposer_default k1 =
        (k3, fd_disposer second, Inr (mem_fd second))"
    "opened True n (view k1) (view k3) (fd_disposer second) (Some (mem_fd second))"
    "allocated (mem_fd second) (view k3) (view k2) sz' (allocation_disposer second) (Some (mem_address second))"
    using Linux_ctor_spec [OF assms(1,3)] by auto
  obtain k4 r4 where s: "shm_open api n [O_RDWR, O_CREAT, O_EXCL] 416 k1 = (k4, r4)" by fastforce
  have "r4 \<noteq> Inr fd" for fd
    using posix_shared_memory.open_old [OF api, of n "[O_RDWR, O_CREAT, O_EXCL]" 416 k1 k4 fd x] s x(1) by auto
  then obtain err where err: "r4 = Inl err" by (cases r4) auto
  then have "err = EEXIST"
    using c(1) s by (cases "err = EEXIST") (simp_all add: Linux_CreateSharedMemory_def)
  then have e: "r4 = Inl EEXIST" "view k4 = view k1"
    using err s posix_shared_memory.open_fails [OF api, of n "[O_RDWR, O_CREAT, O_EXCL]" 416 k1 k4] by simp_all
  obtain k5 where k5: "shm_unlink api n k4 = (k5, Inr ())" using u [of k4] e(2) x(1) by auto
  then have v: "object_of (view k5) n = None" "mapped (view k5) = mapped (view k1)"
    using posix_shared_memory.unlink_done [OF api k5] e(2) by simp_all
  have s': "shm_open api n [O_RDWR, O_CREAT, O_EXCL] 416 k5 = (k3, Inr (mem_fd second))"
    using c(1) s e(1) k5
    by (cases "shm_open api n [O_RDWR, O_CREAT, O_EXCL] 416 k5")
      (auto simp: Linux_CreateSharedMemory_def split: sum.splits)
  obtain y where y: "y \<notin> ran (mapped (view k1))" "object_of (view k3) n = Some y"
    using posix_shared_memory.open_new [OF api s' v(1)] v(2) by auto
  then have "y \<noteq> x" using x(2) by (auto simp: ran_def)
  moreover have "mapped (view k2) (mem_address second) = Some y" "mapped (view k2) (mem_address first) = Some x"
    "object_of (view k2) n = Some y"
    using c(2,3) y(2) x(2) by (auto simp: opened_def allocated_def)
  moreover have "object_of (view (SharedMemory_dtor api first k2)) n = None"
    using posix_shared_memory.dtor_unlinks [OF api u] o by (simp add: SharedMemory_dtor_def opened_def allocated_def)
  ultimately show ?thesis by auto
qed

definition second_mem :: shared_memory where
  "second_mem =
     \<lparr>fd_disposer = \<lparr>func = Some (Close_File 8 True ''m'')\<rparr>, mem_fd = 8,
      allocation_disposer = \<lparr>func = Some (Unmap 32 64)\<rparr>, mem_address = 32, mem_size = 64\<rparr>"

definition with_second :: shm_tables where
  "with_second = \<lparr>names = [(''m'', 8)], files = [(8, 8), (1, 1)], maps = [(32, 8), (4, 1)]\<rparr>"

lemma second_run: "Linux_SharedMemory_ctor tables ''m'' 64 True with_owner = (with_second, Inr second_mem)"
  by code_simp

theorem second_owner_replaces_memory_witness:
  "object_of (tables_view (SharedMemory_dtor tables owner_mem with_second)) ''m'' = None"
  using second_owner_replaces_memory [OF shm.posix_shared_memory_axioms owner_run second_run]
  by (auto simp: tables_def tables_view_def split: option.splits)

end
