(* ===== verification/Darwin_Shared_Memory.thy ===== *)
theory Darwin_Shared_Memory
  imports Linux_Shared_Memory
begin

text \<open>
  \<open>src/ipc/darwin/SharedMemory.cpp\<close>, \<open>Hash.hpp\<close> and \<open>Exceptions.hpp\<close>: the shared memory on macOS, over
  the same calls of POSIX. The name of the object is the hash of the name of the memory; the two
  library functions that compute it are parameters.
\<close>

section \<open>Names and exceptions\<close>

record name_functions =
  CC_SHA1 :: "string \<Rightarrow> string"
  sasl_encode64 :: "string \<Rightarrow> nat \<Rightarrow> errno + string"

definition sha1_hash :: "name_functions \<Rightarrow> string \<Rightarrow> string" where
  "sha1_hash lib data = CC_SHA1 lib data"

text \<open>The second argument of \<open>sasl_encode64\<close> is the size of the buffer for the result.\<close>

definition base64_encode :: "name_functions \<Rightarrow> string \<Rightarrow> cpp_error + string" where
  "base64_encode lib data =
     (case sasl_encode64 lib data (length data * 8 div 6 + 10) of
        Inl e \<Rightarrow> Inl (runtime_error_code ''Error while calling sasl_encode64: '' (Code e))
      | Inr s \<Rightarrow> Inr s)"

datatype shm_error = ResourceMissingError | Thrown cpp_error

section \<open>The class SharedMemory\<close>

text \<open>\<open>CreateSharedMemory\<close>, from the first \<open>shm_open\<close> on.\<close>

definition Darwin_open ::
  "'k posix_shm \<Rightarrow> bool \<Rightarrow> string \<Rightarrow> shm_cleanup disposer \<Rightarrow> 'k \<Rightarrow> 'k \<times> shm_cleanup disposer \<times> (shm_error + nat)"
where
  "Darwin_open api isOwner name d k =
     (let flags = (if isOwner then [O_RDWR, O_CREAT] else [O_RDWR]);
          finish = (\<lambda>(k, fd).
            case fd of
              Inl e \<Rightarrow> (k, d, Inl (Thrown (runtime_error_code ''shm_open failed, error: '' (Code e))))
            | Inr fd \<Rightarrow> (k, Disposer_Set d (Some (Close_File fd isOwner name)), Inr fd))
      in case shm_open api name flags 420 k of
           (k, r) \<Rightarrow>
             if r = Inl ENOENT then (k, d, Inl ResourceMissingError)
             else if r = Inl EEXIST
             then (case shm_unlink api name k of
                     (k, Inl e) \<Rightarrow> (k, d, Inl (Thrown (runtime_error_code
                        ''shm_unlink of previously generated shared memory failed, error: '' (Code e))))
                   | (k, Inr _) \<Rightarrow> finish (shm_open api name flags 420 k))
             else finish (k, r))"

definition Darwin_CreateSharedMemory ::
  "'k posix_shm \<Rightarrow> name_functions \<Rightarrow> bool \<Rightarrow> string \<Rightarrow> shm_cleanup disposer \<Rightarrow> 'k \<Rightarrow>
     'k \<times> shm_cleanup disposer \<times> (shm_error + nat)"
where
  "Darwin_CreateSharedMemory api lib isOwner full_name d k =
     (case base64_encode lib (sha1_hash lib full_name) of
        Inl e \<Rightarrow> (k, d, Inl (Thrown e))
      | Inr encoded_name \<Rightarrow>
          (let name = ''/'' @ encoded_name;
               k = (if isOwner then fst (shm_unlink api name k) else k)
           in Darwin_open api isOwner name d k))"

text \<open>Only an owner sets the size, and only of an object that has none yet.\<close>

definition Darwin_AllocateSharedMemory ::
  "'k posix_shm \<Rightarrow> nat \<Rightarrow> u64 \<Rightarrow> bool \<Rightarrow> shm_cleanup disposer \<Rightarrow> 'k \<Rightarrow> 'k \<times> shm_cleanup disposer \<times> (shm_error + nat)"
where
  "Darwin_AllocateSharedMemory api fd sz isOwner d k =
     (case (if isOwner \<and> fstat_size api fd k = Some 0 then ftruncate api fd sz k else (k, Inr ())) of
        (k, Inl e) \<Rightarrow> (k, d, Inl (Thrown (runtime_error_code ''ftruncate failed, error: '' (Code e))))
      | (k, Inr _) \<Rightarrow>
          (case mmap api sz fd k of
             (k, Inl e) \<Rightarrow> (k, d, Inl (Thrown (runtime_error_code ''mmap failed, error: '' (Code e))))
           | (k, Inr address) \<Rightarrow> (k, Disposer_Set d (Some (Unmap address sz)), Inr address)))"

definition Darwin_SharedMemory_ctor ::
  "'k posix_shm \<Rightarrow> name_functions \<Rightarrow> string \<Rightarrow> u64 \<Rightarrow> bool \<Rightarrow> 'k \<Rightarrow> 'k \<times> (shm_error + shared_memory)"
where
  "Darwin_SharedMemory_ctor api lib name sz isOwner k =
     (case Darwin_CreateSharedMemory api lib isOwner name Disposer_default k of
        (k, d1, Inl e) \<Rightarrow> (dispose api d1 k, Inl e)
      | (k, d1, Inr fd) \<Rightarrow>
          (case Darwin_AllocateSharedMemory api fd sz isOwner Disposer_default k of
             (k, d2, Inl e) \<Rightarrow> (dispose api d1 (dispose api d2 k), Inl e)
           | (k, d2, Inr address) \<Rightarrow>
               (k, Inr \<lparr>fd_disposer = d1, mem_fd = fd, allocation_disposer = d2,
                        mem_address = address, mem_size = sz\<rparr>)))"

text \<open>The public class.\<close>

definition Darwin_Address :: "shared_memory option \<Rightarrow> cpp_error + nat" where
  "Darwin_Address impl =
     (case impl of None \<Rightarrow> Inl (runtime_error ''Not initialized.'') | Some mem \<Rightarrow> Inr (mem_address mem))"

definition Darwin_Size :: "shared_memory option \<Rightarrow> cpp_error + u64" where
  "Darwin_Size impl =
     (case impl of None \<Rightarrow> Inl (runtime_error ''Not initialized.'') | Some mem \<Rightarrow> Inr (mem_size mem))"

section \<open>What the class owns\<close>

text \<open>The name of the object behind a memory; the empty name when the encoding fails.\<close>

definition object_name :: "name_functions \<Rightarrow> string \<Rightarrow> string" where
  "object_name lib full_name =
     (case base64_encode lib (sha1_hash lib full_name) of Inl e \<Rightarrow> [] | Inr s \<Rightarrow> ''/'' @ s)"

context posix_shared_memory
begin

lemma Darwin_open_opened:
  assumes "Darwin_open api b n Disposer_default k = (k', d, r)"
  shows "opened b n (view k) (view k') d (outcome r)"
proof -
  let ?fl = "if b then [O_RDWR, O_CREAT] else [O_RDWR]"
  obtain k1 r1 where o: "shm_open api n ?fl 420 k = (k1, r1)" by fastforce
  note o1 = open_opened [OF o, of b]
  show ?thesis
  proof (cases "r1 = Inl EEXIST")
    case False
    then show ?thesis
      using assms o o1 by (cases r1) (auto simp: Darwin_open_def Let_def split: if_splits)
  next
    case True
    then have v: "view k1 = view k" using o open_fails by blast
    obtain k2 u where u: "shm_unlink api n k1 = (k2, u)" by fastforce
    show ?thesis
    proof (cases u)
      case (Inl e)
      then have "view k2 = view k" using u v unlink_fails by simp
      then show ?thesis
        using assms o True u Inl by (auto simp: Darwin_open_def opened_def dispose_simps)
    next
      case (Inr x)
      obtain k3 r3 where o3: "shm_open api n ?fl 420 k2 = (k3, r3)" by fastforce
      note o4 = open_opened [OF o3, of b]
      have "opened b n (view k2) (view k') d (outcome r)"
        using assms o True u Inr o3 o4 by (cases r3) (auto simp: Darwin_open_def Let_def)
      then show ?thesis using opened_after_unlink [OF u] v by simp
    qed
  qed
qed

lemma Darwin_Create_opened:
  assumes "Darwin_CreateSharedMemory api lib b full_name Disposer_default k = (k', d, r)"
  shows "opened b (object_name lib full_name) (view k) (view k') d (outcome r)"
proof (cases "base64_encode lib (sha1_hash lib full_name)")
  case (Inl e)
  then show ?thesis using assms by (auto simp: Darwin_CreateSharedMemory_def opened_def dispose_simps)
next
  case (Inr s)
  obtain k9 u9 where u9: "shm_unlink api (''/'' @ s) k = (k9, u9)" by fastforce
  have "Darwin_open api b (''/'' @ s) Disposer_default (if b then k9 else k) = (k', d, r)"
    using assms Inr u9 by (cases b) (simp_all add: Darwin_CreateSharedMemory_def Let_def)
  from Darwin_open_opened [OF this]
  have "opened b (''/'' @ s) (view k) (view k') d (outcome r)"
    using opened_after_unlink [OF u9] by (auto split: if_splits)
  then show ?thesis using Inr by (simp add: object_name_def)
qed

lemma Darwin_Allocate_allocated:
  assumes "Darwin_AllocateSharedMemory api fd sz b Disposer_default k = (k', d, r)"
  shows "allocated fd (view k) (view k') sz d (outcome r)"
proof -
  obtain k1 r1 where t: "(if b \<and> fstat_size api fd k = Some 0 then ftruncate api fd sz k else (k, Inr ())) = (k1, r1)"
    by fastforce
  then have v: "view k1 = view k" using ftruncate_view [of fd sz k] by (auto split: if_splits)
  obtain k2 r2 where m: "mmap api sz fd k1 = (k2, r2)" by fastforce
  show ?thesis
  proof (cases r1)
    case (Inl e)
    then show ?thesis
      using assms t v by (auto simp: Darwin_AllocateSharedMemory_def allocated_def dispose_simps)
  next
    case (Inr x)
    then show ?thesis
      using assms t v m mmap_allocated [OF m] by (cases r2) (auto simp: Darwin_AllocateSharedMemory_def)
  qed
qed

end

text \<open>A client opens the object that the name stands for.\<close>

lemma Darwin_client_keeps_name:
  assumes "posix_shared_memory api view"
    "Darwin_CreateSharedMemory api lib False name Disposer_default k = (k', d, Inr fd)"
    "object_of (view k) (object_name lib name) = Some x"
  shows "object_of (view k') (object_name lib name) = Some x"
proof -
  obtain s where s: "base64_encode lib (sha1_hash lib name) = Inr s"
    using assms(2) by (auto simp: Darwin_CreateSharedMemory_def split: sum.splits)
  obtain k1 r1 where o: "shm_open api (''/'' @ s) [O_RDWR] 420 k = (k1, r1)" by fastforce
  have "r1 \<noteq> Inl EEXIST"
    using posix_shared_memory.open_exists [OF assms(1), of "''/'' @ s" "[O_RDWR]" 420 k k1] o by auto
  then have "k1 = k' \<and> r1 = Inr fd"
    using assms(2) o s by (cases r1) (auto simp: Darwin_CreateSharedMemory_def Darwin_open_def Let_def split: if_splits)
  then show ?thesis
    using posix_shared_memory.open_old [OF assms(1), of "''/'' @ s" "[O_RDWR]" 420 k k' fd x] o assms(3) s
    by (auto simp: object_name_def)
qed

lemma Darwin_ctor_spec:
  assumes "posix_shared_memory api view" "Darwin_SharedMemory_ctor api lib name sz b k = (k', r)"
  shows "case r of
      Inl e \<Rightarrow> same_except (object_name lib name) (view k) (view k')
    | Inr mem \<Rightarrow> \<exists>k1. Darwin_CreateSharedMemory api lib b name Disposer_default k = (k1, fd_disposer mem, Inr (mem_fd mem)) \<and>
        opened b (object_name lib name) (view k) (view k1) (fd_disposer mem) (Some (mem_fd mem)) \<and>
        allocated (mem_fd mem) (view k1) (view k') sz (allocation_disposer mem) (Some (mem_address mem))"
proof -
  obtain k1 d1 r1 where c: "Darwin_CreateSharedMemory api lib b name Disposer_default k = (k1, d1, r1)"
    using prod_cases3 by blast
  note o = posix_shared_memory.Darwin_Create_opened [OF assms(1) c]
  note t = posix_shared_memory.ctor_throws [OF assms(1) o]
  show ?thesis
  proof (cases r1)
    case (Inl e)
    then show ?thesis using assms(2) c t by (auto simp: Darwin_SharedMemory_ctor_def)
  next
    case (Inr fd)
    obtain k2 d2 r2 where a: "Darwin_AllocateSharedMemory api fd sz b Disposer_default k1 = (k2, d2, r2)"
      using prod_cases3 by blast
    note l = posix_shared_memory.Darwin_Allocate_allocated [OF assms(1) a]
    show ?thesis
    proof (cases r2)
      case (Inl e)
      then have "r = Inl e" "k' = dispose api d1 (dispose api d2 k2)"
        using assms(2) c Inr a by (auto simp: Darwin_SharedMemory_ctor_def)
      then show ?thesis using t [of k' sz] l Inl Inr by auto
    next
      case (Inr address)
      then show ?thesis
        using assms(2) c \<open>r1 = Inr fd\<close> a o l by (auto simp: Darwin_SharedMemory_ctor_def)
    qed
  qed
qed

text \<open>The destructor of an object that the constructor made takes back what it acquired.\<close>

lemma Darwin_ctor_then_dtor:
  assumes "posix_shared_memory api view" "Darwin_SharedMemory_ctor api lib name sz b k = (k', Inr mem)"
    "same_except (object_name lib name) (view k') (view k'')"
  shows "same_except (object_name lib name) (view k) (view (SharedMemory_dtor api mem k''))"
  using Darwin_ctor_spec [OF assms(1,2)] posix_shared_memory.ctor_then_dtor [OF assms(1) _ _ assms(3)]
  by (auto simp: SharedMemory_dtor_def)

section \<open>Properties\<close>

text \<open>
  On macOS, too, the constructor and the destructor of the shared memory leak neither descriptors
  nor mappings, and touch no name but the one of the memory.
\<close>

theorem Darwin_SharedMemory_leaks_nothing:
  assumes "posix_shared_memory api view" "Darwin_SharedMemory_ctor api lib name sz b k = (k', r)"
  shows "case r of
      Inl e \<Rightarrow> same_except (object_name lib name) (view k) (view k')
    | Inr mem \<Rightarrow> \<forall>k''. same_except (object_name lib name) (view k') (view k'') \<longrightarrow>
        same_except (object_name lib name) (view k) (view (SharedMemory_dtor api mem k''))"
  using Darwin_ctor_spec [OF assms] Darwin_ctor_then_dtor [OF assms(1)] assms(2) by (cases r) auto

definition toy_names :: name_functions where
  "toy_names = \<lparr>CC_SHA1 = (\<lambda>s. s), sasl_encode64 = (\<lambda>s n. if length s < n then Inr s else Inl EINVAL)\<rparr>"

lemma darwin_client_run:
  "Darwin_SharedMemory_ctor tables toy_names ''m'' 64 False no_tables = (no_tables, Inl ResourceMissingError)"
  by code_simp

theorem Darwin_SharedMemory_leaks_nothing_witness:
  "same_except ''/m'' (tables_view no_tables) (tables_view no_tables)"
  using Darwin_SharedMemory_leaks_nothing [OF shm.posix_shared_memory_axioms darwin_client_run]
  by (simp add: object_name_def base64_encode_def sha1_hash_def toy_names_def)

end
