(* ===== verification/Win32_Shared_Memory.thy ===== *)
theory Win32_Shared_Memory
  imports Azul_Prelude Disposer "HOL-Library.Word"
begin

unbundle bit_operations_syntax

text \<open>
  \<open>src/ipc/win32/SharedMemory.cpp\<close>: the shared memory on Windows, a named file mapping. The functions
  of the system are a parameter; \<open>win32_mappings\<close> states what is documented of them.
\<close>

section \<open>The Windows functions\<close>

record 'k win32_memory =
  CreateFileMappingA :: "u32 \<Rightarrow> u32 \<Rightarrow> string \<Rightarrow> 'k \<Rightarrow> 'k \<times> nat option"
  OpenFileMappingA :: "string \<Rightarrow> 'k \<Rightarrow> 'k \<times> nat option"
  MapViewOfFile :: "nat \<Rightarrow> u64 \<Rightarrow> 'k \<Rightarrow> 'k \<times> nat option"
  CloseMapping :: "nat \<Rightarrow> 'k \<Rightarrow> 'k"
  LastError :: "'k \<Rightarrow> nat"

text \<open>The handles a process has open, and the addresses where it has views.\<close>

locale win32_mappings =
  fixes api :: "'k win32_memory" and handles views :: "'k \<Rightarrow> nat set"
  assumes create: "CreateFileMappingA api hi lo n k = (k', r) \<Longrightarrow> views k' = views k \<and>
      (case r of None \<Rightarrow> handles k' = handles k | Some h \<Rightarrow> h \<notin> handles k \<and> handles k' = insert h (handles k))"
    and open_existing: "OpenFileMappingA api n k = (k', r) \<Longrightarrow> views k' = views k \<and>
      (case r of None \<Rightarrow> handles k' = handles k | Some h \<Rightarrow> h \<notin> handles k \<and> handles k' = insert h (handles k))"
    and map_view: "MapViewOfFile api h sz k = (k', r) \<Longrightarrow> handles k' = handles k \<and>
      (case r of None \<Rightarrow> views k' = views k | Some a \<Rightarrow> a \<notin> views k \<and> views k' = insert a (views k))"
    and close_mapping: "handles (CloseMapping api h k) = handles k - {h} \<and> views (CloseMapping api h k) = views k"

section \<open>The class SharedMemory\<close>

definition size_high :: "u64 \<Rightarrow> u32" where
  "size_high sz = ucast (drop_bit 32 sz)"

definition size_low :: "u64 \<Rightarrow> u32" where
  "size_low sz = ucast (sz AND 0xffffffff)"

text \<open>
  The 64-bit size goes to \<open>CreateFileMappingA\<close> as two 32-bit words. The \<open>_disposer\<close> closes the
  handle.
\<close>

definition Win32_CreateSharedMemory ::
  "'k win32_memory \<Rightarrow> string \<Rightarrow> u64 \<Rightarrow> bool \<Rightarrow> nat disposer \<Rightarrow> 'k \<Rightarrow> 'k \<times> nat disposer \<times> (cpp_error + nat)"
where
  "Win32_CreateSharedMemory api name sz isOwner d k =
     (case (if isOwner
            then CreateFileMappingA api (size_high sz) (size_low sz) name k
            else OpenFileMappingA api name k) of
        (k, None) \<Rightarrow> (k, d, Inl (runtime_error_code ''CreateFileMappingA failed, Error: '' (Code (Errno (LastError api k)))))
      | (k, Some handle) \<Rightarrow>
          (let d = Disposer_Set d (Some handle) in
           case MapViewOfFile api handle sz k of
             (k, None) \<Rightarrow> (k, d, Inl (runtime_error_code ''MapViewOfFile failed, Error: '' (Code (Errno (LastError api k)))))
           | (k, Some address) \<Rightarrow> (k, d, Inr address)))"

record win32_shared_memory =
  handle_disposer :: "nat disposer"
  win32_address :: nat
  win32_size :: u64

definition Win32_SharedMemory_ctor ::
  "'k win32_memory \<Rightarrow> string \<Rightarrow> u64 \<Rightarrow> bool \<Rightarrow> 'k \<Rightarrow> 'k \<times> (cpp_error + win32_shared_memory)"
where
  "Win32_SharedMemory_ctor api name sz isOwner k =
     (case Win32_CreateSharedMemory api name sz isOwner Disposer_default k of
        (k, d, Inl e) \<Rightarrow> (fold (CloseMapping api) (Disposer_dtor d) k, Inl e)
      | (k, d, Inr address) \<Rightarrow>
          (k, Inr \<lparr>handle_disposer = d, win32_address = address, win32_size = sz\<rparr>))"

definition Win32_SharedMemory_dtor :: "'k win32_memory \<Rightarrow> win32_shared_memory \<Rightarrow> 'k \<Rightarrow> 'k" where
  "Win32_SharedMemory_dtor api mem k = fold (CloseMapping api) (Disposer_dtor (handle_disposer mem)) k"

text \<open>The public class.\<close>

definition Win32_Address :: "win32_shared_memory option \<Rightarrow> cpp_error + nat" where
  "Win32_Address impl =
     (case impl of None \<Rightarrow> Inl (runtime_error ''Not initialized.'') | Some mem \<Rightarrow> Inr (win32_address mem))"

definition Win32_Size :: "win32_shared_memory option \<Rightarrow> cpp_error + u64" where
  "Win32_Size impl =
     (case impl of None \<Rightarrow> Inl (runtime_error ''Not initialized.'') | Some mem \<Rightarrow> Inr (win32_size mem))"

section \<open>Properties\<close>

text \<open>
  The two 32-bit words that \<open>CreateFileMappingA\<close> receives are the high and the low half of the size:
  every 64-bit size is recovered from them.
\<close>

theorem mapping_size_roundtrip:
  "unat (size_high sz) * 2 ^ 32 + unat (size_low sz) = unat sz"
proof -
  have b: "unat sz < 2 ^ 64" using unsigned_less [of sz] by simp
  have "sz AND 0xffffffff = take_bit 32 sz" by (simp add: take_bit_eq_mask mask_eq_exp_minus_1)
  then have "unat (size_low sz) = unat sz mod 2 ^ 32"
    by (simp add: size_low_def unsigned_ucast_eq unsigned_take_bit_eq take_bit_eq_mod unat_mod)
  moreover have "unat (size_high sz) = unat sz div 2 ^ 32"
    using b by (simp add: size_high_def unsigned_ucast_eq unsigned_drop_bit_eq take_bit_eq_mod drop_bit_eq_div unat_div less_mult_imp_div_less)
  ultimately show ?thesis by simp
qed

text \<open>The call that makes or opens the mapping.\<close>

definition obtain_mapping :: "'k win32_memory \<Rightarrow> string \<Rightarrow> u64 \<Rightarrow> bool \<Rightarrow> 'k \<Rightarrow> 'k \<times> nat option" where
  "obtain_mapping api name sz isOwner k =
     (if isOwner then CreateFileMappingA api (size_high sz) (size_low sz) name k
      else OpenFileMappingA api name k)"

lemma obtain_mapping_spec:
  assumes "win32_mappings api handles views" "obtain_mapping api n sz b k = (k', r)"
  shows "views k' = views k \<and>
    (case r of None \<Rightarrow> handles k' = handles k | Some h \<Rightarrow> h \<notin> handles k \<and> handles k' = insert h (handles k))"
  using win32_mappings.create [OF assms(1)] win32_mappings.open_existing [OF assms(1)] assms(2)
  by (cases b) (simp_all add: obtain_mapping_def)

text \<open>The construction and, from any state that has the same handles and views, the destruction.\<close>

lemma Win32_memory_then_dtor:
  assumes "win32_mappings api handles views" "Win32_SharedMemory_ctor api n sz b k = (k', r)"
  shows "case r of
      Inl e \<Rightarrow> handles k' = handles k \<and> views k' = views k
    | Inr mem \<Rightarrow> win32_address mem \<notin> views k \<and>
        (\<forall>k''. handles k'' = handles k' \<and> views k'' = views k' \<longrightarrow>
          handles (Win32_SharedMemory_dtor api mem k'') = handles k \<and>
          views (Win32_SharedMemory_dtor api mem k'') = insert (win32_address mem) (views k))"
proof -
  obtain k1 r1 where o: "obtain_mapping api n sz b k = (k1, r1)" by fastforce
  note o1 = obtain_mapping_spec [OF assms(1) o] and c = win32_mappings.close_mapping [OF assms(1)]
  note defs = Win32_SharedMemory_ctor_def Win32_CreateSharedMemory_def obtain_mapping_def [symmetric]
    Disposer_dtor_def Disposer_Set_def Disposer_default_def Win32_SharedMemory_dtor_def
  show ?thesis
  proof (cases r1)
    case None
    then show ?thesis using assms(2) o o1 by (auto simp: defs)
  next
    case (Some h)
    obtain k2 r2 where m: "MapViewOfFile api h sz k1 = (k2, r2)" by fastforce
    note m1 = win32_mappings.map_view [OF assms(1) m]
    show ?thesis using assms(2) o o1 Some m m1 c by (cases r2) (auto simp: defs)
  qed
qed

text \<open>
  On Windows the handle is always closed, also when the constructor throws, but the view that
  the constructor maps is never unmapped: it stays in the address space of the process.
\<close>

theorem Win32_SharedMemory_leaks_its_view:
  assumes "win32_mappings api handles views" "Win32_SharedMemory_ctor api n sz b k = (k', r)"
  shows "case r of
      Inl e \<Rightarrow> handles k' = handles k \<and> views k' = views k
    | Inr mem \<Rightarrow> handles (Win32_SharedMemory_dtor api mem k') = handles k \<and>
        win32_address mem \<notin> views k \<and> views (Win32_SharedMemory_dtor api mem k') = insert (win32_address mem) (views k)"
  using Win32_memory_then_dtor [OF assms] by (cases r) auto

text \<open>A system that satisfies the contract: the handles and the views of a process.\<close>

definition win32_tables :: "(nat list \<times> nat list) win32_memory" where
  "win32_tables =
     \<lparr>CreateFileMappingA = (\<lambda>hi lo n (hs, vs). ((Suc (sum_list hs) # hs, vs), Some (Suc (sum_list hs)))),
      OpenFileMappingA = (\<lambda>n (hs, vs). ((Suc (sum_list hs) # hs, vs), Some (Suc (sum_list hs)))),
      MapViewOfFile = (\<lambda>h sz (hs, vs). ((hs, Suc (sum_list vs) # vs), Some (Suc (sum_list vs)))),
      CloseMapping = (\<lambda>h (hs, vs). (removeAll h hs, vs)), LastError = (\<lambda>k. 0)\<rparr>"

lemma Suc_sum_list_fresh: "Suc (sum_list xs) \<notin> set xs" for xs :: "nat list"
  using member_le_sum_list [of "Suc (sum_list xs)" xs] by auto

interpretation wt: win32_mappings win32_tables "\<lambda>k. set (fst k)" "\<lambda>k. set (snd k)"
  by unfold_locales (auto simp: win32_tables_def Suc_sum_list_fresh split: prod.splits)

theorem Win32_SharedMemory_leaks_its_view_witness:
  "1 \<in> set (snd (Win32_SharedMemory_dtor win32_tables
     \<lparr>handle_disposer = \<lparr>func = Some 1\<rparr>, win32_address = 1, win32_size = 64\<rparr> ([1], [1])))"
proof -
  have "Win32_SharedMemory_ctor win32_tables ''m'' 64 True ([], []) =
      (([1], [1]), Inr \<lparr>handle_disposer = \<lparr>func = Some 1\<rparr>, win32_address = 1, win32_size = 64\<rparr>)"
    by code_simp
  from Win32_SharedMemory_leaks_its_view [OF wt.win32_mappings_axioms this] show ?thesis by simp
qed

end
