(* ===== verification/Linux_Condition.thy ===== *)
theory Linux_Condition
  imports Linux_Mutex "HOL-Library.Signed_Division"
begin

text \<open>
  \<open>src/ipc/linux/ConditionVariable.cpp\<close>: the condition variable on Linux, a POSIX condition variable in
  shared memory. The functions of the system are a parameter; a wait is seen at its return, with the
  states of the condition variable and of the mutex at that time.
\<close>

section \<open>The deadline of a timed wait\<close>

text \<open>The members of \<open>timespec\<close> are signed 64-bit integers; no sum below leaves their range.\<close>

record timespec =
  tv_sec :: int
  tv_nsec :: int

definition getAbsoluteTime :: "timespec \<Rightarrow> int \<Rightarrow> timespec" where
  "getAbsoluteTime now ms =
     (let additionalSeconds = ms sdiv 1000;
          ms = ms - additionalSeconds * 1000;
          time = now\<lparr>tv_sec := tv_sec now + additionalSeconds, tv_nsec := tv_nsec now + ms * 1000000\<rparr>
      in if tv_nsec time > 1000000000
         then time\<lparr>tv_nsec := tv_nsec time - 1000000000, tv_sec := tv_sec time + 1\<rparr>
         else time)"

text \<open>The time in nanoseconds.\<close>

definition nanoseconds :: "timespec \<Rightarrow> int" where
  "nanoseconds time = tv_sec time * 1000000000 + tv_nsec time"

section \<open>The class ConditionVariable\<close>

record ('c, 'm) pthread_cond =
  pthread_cond_init :: "'c \<times> c_result"
  pthread_cond_destroy :: "'c \<Rightarrow> 'c"
  pthread_cond_signal :: "'c \<Rightarrow> 'c"
  pthread_cond_broadcast :: "'c \<Rightarrow> 'c"
  pthread_cond_wait :: "thread \<Rightarrow> 'c \<times> 'm \<Rightarrow> ('c \<times> 'm) \<times> c_result"
  pthread_cond_timedwait :: "thread \<Rightarrow> timespec \<Rightarrow> 'c \<times> 'm \<Rightarrow> ('c \<times> 'm) \<times> c_result"

text \<open>
  How a wait leaves a robust mutex: it locks it again, also when it reports that the previous owner
  died; \<open>EINVAL\<close> is for arguments that it refuses, such as a deadline whose \<open>tv_nsec\<close> is no fraction
  of a second.
\<close>

locale posix_cond =
  fixes capi :: "('c, 'm) pthread_cond" and status :: "'m \<Rightarrow> mutex_status"
  assumes wait_locked: "pthread_cond_wait capi t (c, m) = ((c', m'), Zero) \<Longrightarrow> status m' = Locked t"
    and wait_dead: "pthread_cond_wait capi t (c, m) = ((c', m'), Code EOWNERDEAD) \<Longrightarrow> status m' = Inconsistent t"
    and timedwait_locked: "pthread_cond_timedwait capi t d (c, m) = ((c', m'), Zero) \<Longrightarrow> status m' = Locked t"
    and timedwait_timeout:
      "pthread_cond_timedwait capi t d (c, m) = ((c', m'), Code ETIMEDOUT) \<Longrightarrow> status m' = Locked t"
    and timedwait_dead:
      "pthread_cond_timedwait capi t d (c, m) = ((c', m'), Code EOWNERDEAD) \<Longrightarrow> status m' = Inconsistent t"
    and timedwait_invalid: "tv_nsec d < 0 \<or> 1000000000 \<le> tv_nsec d \<Longrightarrow>
      pthread_cond_timedwait capi t d (c, m) = ((c, m), Code EINVAL)"

text \<open>The constructor: an owner initialises the memory, and its \<open>_conditionDisposer\<close> then destroys it.\<close>

definition Linux_Condition_ctor :: "('c, 'm) pthread_cond \<Rightarrow> bool \<Rightarrow> 'c \<Rightarrow> 'c \<times> bool \<times> (cpp_error + unit)" where
  "Linux_Condition_ctor capi isOwner c =
     (if isOwner
      then (case pthread_cond_init capi of (c, result) \<Rightarrow>
              if result \<noteq> Zero
              then (c, False, Inl (runtime_error_code ''pthread_cond init failed, error: '' result))
              else (c, True, Inr ()))
      else (c, False, Inr ()))"

definition Linux_Condition_NotifyOne :: "('c, 'm) pthread_cond \<Rightarrow> 'c \<Rightarrow> 'c" where
  "Linux_Condition_NotifyOne capi c = pthread_cond_signal capi c"

definition Linux_Condition_NotifyAll :: "('c, 'm) pthread_cond \<Rightarrow> 'c \<Rightarrow> 'c" where
  "Linux_Condition_NotifyAll capi c = pthread_cond_broadcast capi c"

definition Linux_Condition_Wait ::
  "('c, 'm) pthread_cond \<Rightarrow> thread \<Rightarrow> 'c \<times> 'm \<Rightarrow> ('c \<times> 'm) \<times> (cpp_error + unit)"
where
  "Linux_Condition_Wait capi t s =
     (case pthread_cond_wait capi t s of (s, result) \<Rightarrow>
        (s, if result = Code EINVAL then Inl (runtime_error_code ''pthread_cond_wait failed, error: '' result)
            else Inr ()))"

text \<open>\<open>now\<close> is what \<open>timespec_get\<close> gives.\<close>

definition Linux_Condition_WaitFor ::
  "('c, 'm) pthread_cond \<Rightarrow> thread \<Rightarrow> timespec \<Rightarrow> int \<Rightarrow> 'c \<times> 'm \<Rightarrow> ('c \<times> 'm) \<times> (cpp_error + cv_status)"
where
  "Linux_Condition_WaitFor capi t now ms s =
     (let deadline = getAbsoluteTime now ms in
      case pthread_cond_timedwait capi t deadline s of (s, result) \<Rightarrow>
        (s, if result = Zero then Inr no_timeout
            else if result = Code ETIMEDOUT then Inr timeout
            else Inl (runtime_error_code ''pthread_cond_timedwait failed, error: '' result)))"

text \<open>
  The public class. The waits also read the \<open>_impl\<close> of the mutex, without a test: for a mutex that is
  not initialised this is undefined.
\<close>

definition Linux_NotifyOne :: "('c, 'm) pthread_cond \<Rightarrow> bool \<Rightarrow> 'c \<Rightarrow> 'c \<times> (cpp_error + unit)" where
  "Linux_NotifyOne capi impl c =
     (if \<not> impl then (c, Inl (runtime_error ''Not initialized.''))
      else (Linux_Condition_NotifyOne capi c, Inr ()))"

definition Linux_NotifyAll :: "('c, 'm) pthread_cond \<Rightarrow> bool \<Rightarrow> 'c \<Rightarrow> 'c \<times> (cpp_error + unit)" where
  "Linux_NotifyAll capi impl c =
     (if \<not> impl then (c, Inl (runtime_error ''Not initialized.''))
      else (Linux_Condition_NotifyAll capi c, Inr ()))"

definition Linux_Wait ::
  "('c, 'm) pthread_cond \<Rightarrow> bool \<Rightarrow> bool \<Rightarrow> thread \<Rightarrow> 'c \<times> 'm \<Rightarrow> ('c \<times> 'm) \<times> (cpp_error + unit)"
where
  "Linux_Wait capi impl mutex_impl t s =
     (if \<not> impl then (s, Inl (runtime_error ''Not initialized.''))
      else if \<not> mutex_impl then (s, Inl undefined_behaviour)
      else Linux_Condition_Wait capi t s)"

definition Linux_WaitFor ::
  "('c, 'm) pthread_cond \<Rightarrow> bool \<Rightarrow> bool \<Rightarrow> thread \<Rightarrow> timespec \<Rightarrow> int \<Rightarrow> 'c \<times> 'm \<Rightarrow>
     ('c \<times> 'm) \<times> (cpp_error + cv_status)"
where
  "Linux_WaitFor capi impl mutex_impl t now ms s =
     (if \<not> impl then (s, Inl (runtime_error ''Not initialized.''))
      else if \<not> mutex_impl then (s, Inl undefined_behaviour)
      else Linux_Condition_WaitFor capi t now ms s)"

section \<open>Properties\<close>

lemma sdiv_1000: "0 \<le> (n :: int) \<Longrightarrow> n sdiv 1000 = n div 1000"
  by (cases "n = 0") (simp_all add: signed_divide_int_def)

lemma getAbsoluteTime_nonneg:
  assumes "0 \<le> ms"
  shows "getAbsoluteTime now ms =
    (if tv_nsec now + ms mod 1000 * 1000000 > 1000000000
     then now\<lparr>tv_sec := tv_sec now + ms div 1000 + 1,
              tv_nsec := tv_nsec now + ms mod 1000 * 1000000 - 1000000000\<rparr>
     else now\<lparr>tv_sec := tv_sec now + ms div 1000, tv_nsec := tv_nsec now + ms mod 1000 * 1000000\<rparr>)"
proof -
  have "ms - ms sdiv 1000 * 1000 = ms mod 1000" using assms by (simp only: sdiv_1000 minus_div_mult_eq_mod)
  then show ?thesis unfolding getAbsoluteTime_def Let_def using assms by (simp only: sdiv_1000) simp
qed

text \<open>
  C33. The deadline is exactly the current time plus the timeout, and its fraction lies between 0 and a
  full second. But it can be the full second, when the two fractions add up to it: the test for the
  carry is \<open>>\<close>, not \<open>>=\<close>.
\<close>

theorem getAbsoluteTime_bounds:
  assumes "0 \<le> ms" "0 \<le> tv_nsec now" "tv_nsec now < 1000000000"
  shows "nanoseconds (getAbsoluteTime now ms) = nanoseconds now + ms * 1000000 \<and>
    0 \<le> tv_nsec (getAbsoluteTime now ms) \<and> tv_nsec (getAbsoluteTime now ms) \<le> 1000000000 \<and>
    (tv_nsec (getAbsoluteTime now ms) = 1000000000 \<longleftrightarrow> tv_nsec now + ms mod 1000 * 1000000 = 1000000000)"
proof -
  have "ms div 1000 * 1000000000 + ms mod 1000 * 1000000 = ms * 1000000"
    using div_mult_mod_eq [of ms 1000] by linarith
  moreover have "0 \<le> ms mod 1000" "ms mod 1000 < 1000" by simp_all
  ultimately show ?thesis
    using assms by (auto simp: getAbsoluteTime_nonneg nanoseconds_def)
qed

theorem getAbsoluteTime_bounds_witness:
  "tv_nsec (getAbsoluteTime \<lparr>tv_sec = 7, tv_nsec = 999000000\<rparr> 1) = 1000000000"
  using getAbsoluteTime_bounds [of 1 "\<lparr>tv_sec = 7, tv_nsec = 999000000\<rparr>"] by simp

text \<open>
  At such a moment \<open>WaitFor\<close> throws without having waited.
\<close>

theorem WaitFor_throws_on_full_second:
  assumes "posix_cond capi status" "0 \<le> ms" "0 \<le> tv_nsec now" "tv_nsec now < 1000000000"
    "tv_nsec now + ms mod 1000 * 1000000 = 1000000000"
  shows "Linux_WaitFor capi True True t now ms s =
    (s, Inl (runtime_error_code ''pthread_cond_timedwait failed, error: '' (Code EINVAL)))"
proof -
  have "tv_nsec (getAbsoluteTime now ms) = 1000000000"
    using assms(2,5) by (simp add: getAbsoluteTime_nonneg)
  then show ?thesis
    using posix_cond.timedwait_invalid [OF assms(1), of "getAbsoluteTime now ms" t "fst s" "snd s"]
    by (simp add: Linux_WaitFor_def Linux_Condition_WaitFor_def)
qed

text \<open>
  A library that satisfies the contract: its state says how the next waits end. A notification lets the
  first wait that has no other end return; a wait without an entry wakes up spuriously or, with a
  deadline, when the time is over.
\<close>

datatype wait_end = Notified | Owner_Died | Time_Over

definition scripted_wait :: "thread \<Rightarrow> wait_end list \<times> mutex_status \<Rightarrow> (wait_end list \<times> mutex_status) \<times> c_result" where
  "scripted_wait t s =
     (case fst s of
        Owner_Died # c \<Rightarrow> ((c, Inconsistent t), Code EOWNERDEAD)
      | c \<Rightarrow> ((tl c, Locked t), Zero))"

definition scripted_timedwait ::
  "thread \<Rightarrow> timespec \<Rightarrow> wait_end list \<times> mutex_status \<Rightarrow> (wait_end list \<times> mutex_status) \<times> c_result"
where
  "scripted_timedwait t d s =
     (if tv_nsec d < 0 \<or> 1000000000 \<le> tv_nsec d then (s, Code EINVAL)
      else case fst s of
        Owner_Died # c \<Rightarrow> ((c, Inconsistent t), Code EOWNERDEAD)
      | Notified # c \<Rightarrow> ((c, Locked t), Zero)
      | c \<Rightarrow> ((tl c, Locked t), Code ETIMEDOUT))"

definition scripted_cond :: "(wait_end list, mutex_status) pthread_cond" where
  "scripted_cond =
     \<lparr>pthread_cond_init = ([], Zero), pthread_cond_destroy = (\<lambda>c. []),
      pthread_cond_signal = (\<lambda>c. c @ [Notified]), pthread_cond_broadcast = (\<lambda>c. c @ [Notified]),
      pthread_cond_wait = scripted_wait, pthread_cond_timedwait = scripted_timedwait\<rparr>"

interpretation sc: posix_cond scripted_cond "\<lambda>m. m"
  by unfold_locales
    (auto simp: scripted_cond_def scripted_wait_def scripted_timedwait_def split: if_splits list.splits wait_end.splits)

theorem WaitFor_throws_on_full_second_witness:
  "Linux_WaitFor scripted_cond True True (1, 1) \<lparr>tv_sec = 7, tv_nsec = 999000000\<rparr> 1 ([Notified], Locked (1, 1)) =
    (([Notified], Locked (1, 1)), Inl (runtime_error_code ''pthread_cond_timedwait failed, error: '' (Code EINVAL)))"
  using WaitFor_throws_on_full_second
    [OF sc.posix_cond_axioms, of 1 "\<lparr>tv_sec = 7, tv_nsec = 999000000\<rparr>" "(1, 1)" "([Notified], Locked (1, 1))"] by simp

text \<open>
  A wait that takes the mutex over from a dead owner is told so, but \<open>Wait\<close> returns as if nothing
  had happened and never makes the mutex consistent: the next \<open>unlock\<close> makes it unusable, and every
  later \<open>lock\<close> throws. \<open>WaitFor\<close> throws in that case, with the mutex held.
\<close>

theorem Wait_ignores_dead_owner:
  assumes "posix_robust api status" "posix_cond capi status"
    "pthread_cond_wait capi t (c, m) = ((c', m'), Code EOWNERDEAD)"
  shows "Linux_Wait capi True True t (c, m) = ((c', m'), Inr ()) \<and>
    (\<exists>m''. Linux_unlock api True t m' = (m'', Inr ()) \<and>
      (\<forall>u. \<exists>e. Linux_lock api True u m'' = Some (m'', Inl e)))"
proof -
  have "status m' = Inconsistent t" using posix_cond.wait_dead [OF assms(2,3)] .
  then obtain m'' where m'': "Linux_unlock api True t m' = (m'', Inr ())" "status m'' = Not_Recoverable"
    using posix_robust.Linux_inconsistent(3) [OF assms(1)] by blast
  then show ?thesis
    using assms(3) posix_robust.Linux_not_recoverable(1) [OF assms(1) m''(2)]
    by (auto simp: Linux_Wait_def Linux_Condition_Wait_def)
qed

theorem Wait_ignores_dead_owner_witness:
  "Linux_Wait scripted_cond True True (1, 1) ([Owner_Died], Locked (1, 1)) = (([], Inconsistent (1, 1)), Inr ())"
  using Wait_ignores_dead_owner
    [OF pk.posix_robust_axioms sc.posix_cond_axioms, of "(1, 1)" "[Owner_Died]" "Locked (1, 1)"]
  by (simp add: scripted_cond_def scripted_wait_def)

end
