(* ===== verification/Condition_Protocol.thy ===== *)
theory Condition_Protocol
  imports Ipc_Mutex
begin

text \<open>
  How the condition variables of \<open>src/ipc/win32/ConditionVariable.cpp\<close> and
  \<open>src/ipc/darwin/ConditionVariable.cpp\<close> use their two mutexes. Both keep the waiting threads in a
  queue in shared memory, under a mutex of their own (\<open>_threadQueueMutex\<close>), besides the mutex of the
  user. What they do with the queue and with the object a thread sleeps on differs: those critical
  sections are the fields of \<open>cv_ops\<close>, and the two platforms provide them.

  A mutex is its holder: this is the contract of \<open>RobustMutex\<close> (theory \<open>Ipc_Mutex\<close>).
\<close>

section \<open>The system\<close>

text \<open>The timeout of \<open>WaitFor\<close> is a number of milliseconds, \<open>std::chrono::milliseconds::rep\<close>.\<close>

datatype cv_call = CV_Wait | CV_WaitFor int | CV_NotifyOne | CV_NotifyAll

fun is_wait :: "cv_call \<Rightarrow> bool" where
  "is_wait CV_NotifyOne = False"
| "is_wait CV_NotifyAll = False"
| "is_wait _ = True"

text \<open>
  Where a thread is: outside, or inside with the mutex of the user; in a call before it has the mutex
  of the queue (with or without the mutex of the user); asleep; awake and without a mutex; with the
  mutex of the queue, before it has the mutex of the user again.
\<close>

datatype cv_point =
    Outside
  | Inside
  | Calling cv_call bool
  | Sleeping cv_call
  | Woken cv_call
  | Relocking cv_call

text \<open>
  The parts of the calls. \<open>op_enter\<close>: a wait up to the unlocking of the two mutexes. \<open>op_sleep\<close>: what it
  does without a mutex, \<open>None\<close> while it blocks; the flag says that the timeout has elapsed. An exception
  leaves the call at once, without a mutex; the loop of a wait can go on. \<open>op_leave\<close>: what it does with both mutexes again; it returns,
  throws, or releases both mutexes and sleeps again.
\<close>

type_synonym cv_result = "cpp_error + cv_status option"

datatype sleep_end = Threw cpp_error | Awake | Still_Asleep
datatype leave = Sleep_Again | Leave cv_result

record 'd cv_ops =
  op_enter :: "thread \<Rightarrow> cv_call \<Rightarrow> 'd \<Rightarrow> 'd \<times> (cpp_error + unit)"
  op_sleep :: "thread \<Rightarrow> cv_call \<Rightarrow> bool \<Rightarrow> 'd \<Rightarrow> ('d \<times> sleep_end) option"
  op_leave :: "thread \<Rightarrow> cv_call \<Rightarrow> 'd \<Rightarrow> 'd \<times> leave"
  op_notify_one :: "thread \<Rightarrow> 'd \<Rightarrow> 'd \<times> (cpp_error + unit)"
  op_notify_all :: "thread \<Rightarrow> 'd \<Rightarrow> 'd \<times> (cpp_error + unit)"

definition op_notify :: "'d cv_ops \<Rightarrow> cv_call \<Rightarrow> thread \<Rightarrow> 'd \<Rightarrow> 'd \<times> (cpp_error + unit)" where
  "op_notify ops c = (if c = CV_NotifyOne then op_notify_one ops else op_notify_all ops)"

text \<open>\<open>returned\<close> is the result of the last call of a thread.\<close>

record 'd cv_system =
  user_mutex :: "thread option"
  queue_mutex :: "thread option"
  point :: "thread \<Rightarrow> cv_point"
  returned :: "thread \<Rightarrow> cv_result option"
  data :: 'd

definition go :: "thread \<Rightarrow> cv_point \<Rightarrow> 'd cv_system \<Rightarrow> 'd cv_system" where
  "go t p S = S\<lparr>point := (point S)(t := p)\<rparr>"

definition give :: "thread \<Rightarrow> cv_result \<Rightarrow> 'd cv_system \<Rightarrow> 'd cv_system" where
  "give t r S = S\<lparr>returned := (returned S)(t \<mapsto> r)\<rparr>"

datatype cv_move =
    Lock_User thread
  | Unlock_User thread
  | Call thread cv_call
  | Section thread
  | Wake thread bool
  | Take_Queue thread
  | Take_User thread

fun no_status :: "cpp_error + unit \<Rightarrow> cv_result" where
  "no_status (Inl e) = Inl e"
| "no_status (Inr _) = Inr None"

text \<open>
  The moves of a thread, \<open>None\<close> when it has to wait. \<open>Section\<close> is the first critical section of a
  call: all of \<open>NotifyOne\<close> and \<open>NotifyAll\<close>; of the waits, the part up to \<open>lock.unlock()\<close>, which
  releases both mutexes unless an exception leaves the wait before. After the sleep the code calls
  \<open>lock.lock()\<close> and then \<open>mutex.lock()\<close>; the mutex of the queue is released at the end of the call.
\<close>

fun cv_step :: "'d cv_ops \<Rightarrow> cv_move \<Rightarrow> 'd cv_system \<Rightarrow> 'd cv_system option" where
  "cv_step ops (Lock_User t) S =
     (if point S t = Outside \<and> user_mutex S = None
      then Some (go t Inside (S\<lparr>user_mutex := Some t\<rparr>)) else None)"
| "cv_step ops (Unlock_User t) S =
     (if point S t = Inside then Some (go t Outside (S\<lparr>user_mutex := None\<rparr>)) else None)"
| "cv_step ops (Call t c) S =
     (case point S t of
        Inside \<Rightarrow> Some (go t (Calling c True) S)
      | Outside \<Rightarrow> (if is_wait c then None else Some (go t (Calling c False) S))
      | _ \<Rightarrow> None)"
| "cv_step ops (Section t) S =
     (case point S t of
        Calling c held \<Rightarrow>
          (if queue_mutex S \<noteq> None then None
           else if \<not> is_wait c
           then (case op_notify ops c t (data S) of
                   (d, r) \<Rightarrow> Some (give t (no_status r) (go t (if held then Inside else Outside) (S\<lparr>data := d\<rparr>))))
           else
             (case op_enter ops t c (data S) of
                (d, Inl e) \<Rightarrow> Some (give t (Inl e) (go t Inside (S\<lparr>data := d\<rparr>)))
              | (d, Inr _) \<Rightarrow> Some (go t (Sleeping c) (S\<lparr>data := d, user_mutex := None\<rparr>))))
      | _ \<Rightarrow> None)"
| "cv_step ops (Wake t elapsed) S =
     (case point S t of
        Sleeping c \<Rightarrow>
          (case op_sleep ops t c elapsed (data S) of
             None \<Rightarrow> None
           | Some (d, Threw e) \<Rightarrow> Some (give t (Inl e) (go t Outside (S\<lparr>data := d\<rparr>)))
           | Some (d, Awake) \<Rightarrow> Some (go t (Woken c) (S\<lparr>data := d\<rparr>))
           | Some (d, Still_Asleep) \<Rightarrow> Some (S\<lparr>data := d\<rparr>))
      | _ \<Rightarrow> None)"
| "cv_step ops (Take_Queue t) S =
     (case point S t of
        Woken c \<Rightarrow>
          (if queue_mutex S = None then Some (go t (Relocking c) (S\<lparr>queue_mutex := Some t\<rparr>)) else None)
      | _ \<Rightarrow> None)"
| "cv_step ops (Take_User t) S =
     (case point S t of
        Relocking c \<Rightarrow>
          (if user_mutex S \<noteq> None then None
           else
             (case op_leave ops t c (data S) of
                (d, Sleep_Again) \<Rightarrow> Some (go t (Sleeping c) (S\<lparr>data := d, queue_mutex := None\<rparr>))
              | (d, Leave r) \<Rightarrow>
                  Some (give t r (go t Inside (S\<lparr>data := d, queue_mutex := None, user_mutex := Some t\<rparr>)))))
      | _ \<Rightarrow> None)"

lemmas move_simps = go_def give_def op_notify_def

fun cv_run :: "'d cv_ops \<Rightarrow> cv_move list \<Rightarrow> 'd cv_system \<Rightarrow> 'd cv_system option" where
  "cv_run ops [] S = Some S"
| "cv_run ops (m # ms) S = (case cv_step ops m S of None \<Rightarrow> None | Some S' \<Rightarrow> cv_run ops ms S')"

definition cv_start :: "'d \<Rightarrow> 'd cv_system" where
  "cv_start d =
     \<lparr>user_mutex = None, queue_mutex = None, point = (\<lambda>t. Outside), returned = (\<lambda>t. None), data = d\<rparr>"

inductive cv_reachable :: "'d cv_ops \<Rightarrow> 'd \<Rightarrow> 'd cv_system \<Rightarrow> bool" for ops d where
  cv_init: "cv_reachable ops d (cv_start d)"
| cv_next: "cv_reachable ops d S \<Longrightarrow> cv_step ops m S = Some S' \<Longrightarrow> cv_reachable ops d S'"

lemma cv_run_append:
  "cv_run ops (ms @ ms') S = (case cv_run ops ms S of None \<Rightarrow> None | Some S' \<Rightarrow> cv_run ops ms' S')"
  by (induction ms arbitrary: S) (auto split: option.splits)

lemma cv_run_reachable: "cv_run ops ms S = Some S' \<Longrightarrow> cv_reachable ops d S \<Longrightarrow> cv_reachable ops d S'"
  by (induction ms arbitrary: S) (auto split: option.splits intro: cv_next)

text \<open>The moves one by one, as a rule of case distinction for a step that is possible.\<close>

lemma cv_step_cases [consumes 1, case_names Lock Unlock Call_Inside Call_Outside Notified Refused Asleep
    Threw Awake Still Queue Again Back]:
  assumes "cv_step ops m S = Some S'"
  obtains
    (Lock) t where "point S t = Outside" "user_mutex S = None" "S' = go t Inside (S\<lparr>user_mutex := Some t\<rparr>)"
  | (Unlock) t where "point S t = Inside" "S' = go t Outside (S\<lparr>user_mutex := None\<rparr>)"
  | (Call_Inside) t c where "point S t = Inside" "S' = go t (Calling c True) S"
  | (Call_Outside) t c where "point S t = Outside" "\<not> is_wait c" "S' = go t (Calling c False) S"
  | (Notified) t c held d r where "point S t = Calling c held" "queue_mutex S = None" "\<not> is_wait c"
      "op_notify ops c t (data S) = (d, r)"
      "S' = give t (no_status r) (go t (if held then Inside else Outside) (S\<lparr>data := d\<rparr>))"
  | (Refused) t c held d e where "point S t = Calling c held" "queue_mutex S = None" "is_wait c"
      "op_enter ops t c (data S) = (d, Inl e)" "S' = give t (Inl e) (go t Inside (S\<lparr>data := d\<rparr>))"
  | (Asleep) t c held d where "point S t = Calling c held" "queue_mutex S = None" "is_wait c"
      "op_enter ops t c (data S) = (d, Inr ())" "S' = go t (Sleeping c) (S\<lparr>data := d, user_mutex := None\<rparr>)"
  | (Threw) t c b d e where "point S t = Sleeping c" "op_sleep ops t c b (data S) = Some (d, sleep_end.Threw e)"
      "S' = give t (Inl e) (go t Outside (S\<lparr>data := d\<rparr>))"
  | (Awake) t c b d where "point S t = Sleeping c" "op_sleep ops t c b (data S) = Some (d, sleep_end.Awake)"
      "S' = go t (Woken c) (S\<lparr>data := d\<rparr>)"
  | (Still) t c b d where "point S t = Sleeping c" "op_sleep ops t c b (data S) = Some (d, Still_Asleep)"
      "S' = S\<lparr>data := d\<rparr>"
  | (Queue) t c where "point S t = Woken c" "queue_mutex S = None"
      "S' = go t (Relocking c) (S\<lparr>queue_mutex := Some t\<rparr>)"
  | (Again) t c d where "point S t = Relocking c" "user_mutex S = None"
      "op_leave ops t c (data S) = (d, Sleep_Again)" "S' = go t (Sleeping c) (S\<lparr>data := d, queue_mutex := None\<rparr>)"
  | (Back) t c d r where "point S t = Relocking c" "user_mutex S = None"
      "op_leave ops t c (data S) = (d, Leave r)"
      "S' = give t r (go t Inside (S\<lparr>data := d, queue_mutex := None, user_mutex := Some t\<rparr>))"
proof (cases m)
  case (Section t)
  obtain c held where c: "point S t = Calling c held" using assms Section by (cases "point S t") auto
  have q: "queue_mutex S = None" using assms Section c by (cases "queue_mutex S") auto
  obtain d r where e: "op_enter ops t c (data S) = (d, r)" by fastforce
  show ?thesis
  proof (cases "is_wait c")
    case True
    then show ?thesis using assms Section c q e Refused[OF c q True, of d] Asleep[OF c q True, of d] by (cases r) auto
  next
    case False
    then show ?thesis using assms Section c q Notified[OF c q False] by (auto split: prod.splits)
  qed
next
  case (Lock_User t)
  then show ?thesis using assms Lock by (auto split: if_splits)
next
  case (Unlock_User t)
  then show ?thesis using assms Unlock by (auto split: if_splits)
next
  case (Call t c)
  then show ?thesis using assms Call_Inside[of t c] Call_Outside[of t c] by (cases "point S t") (auto split: if_splits)
next
  case (Wake t b)
  then obtain c where "point S t = Sleeping c" using assms by (cases "point S t") auto
  then show ?thesis using assms Wake Threw Awake Still by (auto split: option.splits prod.splits sleep_end.splits)
next
  case (Take_Queue t)
  then obtain c where "point S t = Woken c" using assms by (cases "point S t") auto
  then show ?thesis using assms Take_Queue Queue by (auto split: if_splits)
next
  case (Take_User t)
  then obtain c where c: "point S t = Relocking c" using assms by (cases "point S t") auto
  then have "user_mutex S = None" using assms Take_User by (cases "user_mutex S") auto
  then show ?thesis
    using assms Take_User c Again[OF c] Back[OF c] by (auto split: prod.splits leave.splits)
qed

section \<open>The mutexes exclude\<close>

fun holds_user :: "cv_point \<Rightarrow> bool" where
  "holds_user Inside = True"
| "holds_user (Calling c held) = held"
| "holds_user _ = False"

fun holds_queue :: "cv_point \<Rightarrow> bool" where
  "holds_queue (Relocking c) = True"
| "holds_queue _ = False"

text \<open>A thread that is inside holds the mutex of the user; a wait is only called with it.\<close>

definition cv_ok :: "'d cv_system \<Rightarrow> bool" where
  "cv_ok S \<longleftrightarrow> (\<forall>t. holds_user (point S t) = (user_mutex S = Some t)) \<and>
     (\<forall>t. holds_queue (point S t) = (queue_mutex S = Some t)) \<and>
     (\<forall>t c. point S t = Calling c False \<longrightarrow> \<not> is_wait c)"

lemma cv_ok_start: "cv_ok (cv_start d)"
  by (simp add: cv_ok_def cv_start_def)

lemma cv_okD:
  assumes "cv_ok S"
  shows "holds_user (point S t) \<longleftrightarrow> user_mutex S = Some t"
    and "holds_queue (point S t) \<longleftrightarrow> queue_mutex S = Some t"
    and "point S t = Calling c False \<Longrightarrow> \<not> is_wait c"
  using assms unfolding cv_ok_def by blast+

text \<open>Every move changes the place of one thread and, of the mutexes, only what this thread holds.\<close>

lemma cv_ok_update:
  assumes ok: "cv_ok S" and p: "point S' = (point S)(t := p)"
    and u: "\<And>v. v \<noteq> t \<Longrightarrow> user_mutex S' = Some v \<longleftrightarrow> user_mutex S = Some v"
    and q: "\<And>v. v \<noteq> t \<Longrightarrow> queue_mutex S' = Some v \<longleftrightarrow> queue_mutex S = Some v"
    and "holds_user p \<longleftrightarrow> user_mutex S' = Some t" "holds_queue p \<longleftrightarrow> queue_mutex S' = Some t"
    and "\<And>c. p = Calling c False \<Longrightarrow> \<not> is_wait c"
  shows "cv_ok S'"
  unfolding cv_ok_def
proof (intro conjI allI impI)
  show "holds_user (point S' v) = (user_mutex S' = Some v)" for v
    by (cases "v = t") (use assms cv_okD(1)[OF ok, of v] in simp_all)
  show "holds_queue (point S' v) = (queue_mutex S' = Some v)" for v
    by (cases "v = t") (use assms cv_okD(2)[OF ok, of v] in simp_all)
  show "\<not> is_wait c" if "point S' v = Calling c False" for v c
    by (cases "v = t") (use that assms cv_okD(3)[OF ok, of v c] in simp_all)
qed

lemma cv_ok_step:
  assumes s: "cv_step ops m S = Some S'" and ok: "cv_ok S"
  shows "cv_ok S'"
  using s
proof (cases rule: cv_step_cases)
  case (Lock t)
  show ?thesis by (rule cv_ok_update[OF ok, of S' t Inside]) (use Lock cv_okD[OF ok, of t] in \<open>auto simp: move_simps\<close>)
next
  case (Unlock t)
  show ?thesis by (rule cv_ok_update[OF ok, of S' t Outside]) (use Unlock cv_okD[OF ok, of t] in \<open>auto simp: move_simps\<close>)
next
  case (Call_Inside t c)
  show ?thesis by (rule cv_ok_update[OF ok, of S' t "Calling c True"]) (use Call_Inside cv_okD[OF ok, of t] in \<open>auto simp: move_simps\<close>)
next
  case (Call_Outside t c)
  show ?thesis by (rule cv_ok_update[OF ok, of S' t "Calling c False"]) (use Call_Outside cv_okD[OF ok, of t] in \<open>auto simp: move_simps\<close>)
next
  case (Notified t c held d r)
  show ?thesis by (rule cv_ok_update[OF ok, of S' t "if held then Inside else Outside"])
      (use Notified cv_okD[OF ok, of t] in \<open>auto simp: move_simps\<close>)
next
  case (Refused t c held d e)
  then have "held" using cv_okD(3)[OF ok, of t c] by (cases held) auto
  then show ?thesis by (intro cv_ok_update[OF ok, of S' t Inside]) (use Refused cv_okD[OF ok, of t] in \<open>auto simp: move_simps\<close>)
next
  case (Asleep t c held d)
  then have "held" using cv_okD(3)[OF ok, of t c] by (cases held) auto
  then show ?thesis by (intro cv_ok_update[OF ok, of S' t "Sleeping c"]) (use Asleep cv_okD[OF ok, of t] in \<open>auto simp: move_simps\<close>)
next
  case (Threw t c b d e)
  show ?thesis by (rule cv_ok_update[OF ok, of S' t Outside]) (use Threw cv_okD[OF ok, of t] in \<open>auto simp: move_simps\<close>)
next
  case (Awake t c b d)
  show ?thesis by (rule cv_ok_update[OF ok, of S' t "Woken c"]) (use Awake cv_okD[OF ok, of t] in \<open>auto simp: move_simps\<close>)
next
  case (Still t c b d)
  then show ?thesis using ok by (simp add: cv_ok_def)
next
  case (Queue t c)
  show ?thesis by (rule cv_ok_update[OF ok, of S' t "Relocking c"]) (use Queue cv_okD[OF ok, of t] in \<open>auto simp: move_simps\<close>)
next
  case (Again t c d)
  show ?thesis by (rule cv_ok_update[OF ok, of S' t "Sleeping c"]) (use Again cv_okD[OF ok, of t] in \<open>auto simp: move_simps\<close>)
next
  case (Back t c d r)
  show ?thesis by (rule cv_ok_update[OF ok, of S' t Inside]) (use Back cv_okD[OF ok, of t] in \<open>auto simp: move_simps\<close>)
qed

lemma cv_reachable_ok: "cv_reachable ops d S \<Longrightarrow> cv_ok S"
  by (induction rule: cv_reachable.induct) (auto intro: cv_ok_start cv_ok_step)

section \<open>The order of the mutexes\<close>

text \<open>
  A thread \<open>t\<close> on its way back from a wait has the mutex of the queue and wants the one of the user;
  a thread \<open>u\<close> inside that calls the condition variable has the mutex of the user and wants the one
  of the queue.
\<close>

definition crossed :: "thread \<Rightarrow> thread \<Rightarrow> 'd cv_system \<Rightarrow> bool" where
  "crossed t u S \<longleftrightarrow> (\<exists>c. point S t = Relocking c) \<and> (\<exists>c. point S u = Calling c True)"

lemma crossed_step:
  assumes "cv_step ops m S = Some S'" "cv_ok S" "crossed t u S"
  shows "point S' t = point S t \<and> point S' u = point S u"
proof -
  obtain c c' where p: "point S t = Relocking c" "point S u = Calling c' True"
    using assms(3) by (auto simp: crossed_def)
  have h: "queue_mutex S = Some t" "user_mutex S = Some u"
    using cv_okD(2)[OF assms(2), of t] cv_okD(1)[OF assms(2), of u] p by simp_all
  show ?thesis
    using assms(1) by (cases rule: cv_step_cases) (use p h in \<open>auto simp: move_simps\<close>)
qed

lemma crossed_forever:
  assumes "cv_run ops ms S = Some S'" "cv_ok S" "crossed t u S"
  shows "point S' t = point S t \<and> point S' u = point S u"
  using assms
proof (induction ms arbitrary: S)
  case (Cons m ms)
  then obtain S1 where S1: "cv_step ops m S = Some S1" "cv_run ops ms S1 = Some S'"
    by (auto split: option.splits)
  have k: "point S1 t = point S t \<and> point S1 u = point S u" using crossed_step S1(1) Cons.prems by blast
  then have "crossed t u S1" using Cons.prems(3) by (simp add: crossed_def)
  then show ?case using Cons.IH[OF S1(2)] cv_ok_step[OF S1(1)] Cons.prems(2) k by simp
qed simp

text \<open>
  It takes one sleeping thread that can wake up, and one thread that is inside and calls the condition
  variable, to get there.
\<close>

lemma crossing:
  assumes "queue_mutex S = None" "point S t = Sleeping c" "point S u = Inside"
    "op_sleep ops t c b (data S) = Some (d, Awake)"
  shows "\<exists>S'. cv_run ops [Wake t b, Take_Queue t, Call u c'] S = Some S' \<and> crossed t u S'"
  using assms by (auto simp: crossed_def move_simps)

end
