(* ===== verification/Condition_Wakeup.thy ===== *)
theory Condition_Wakeup
  imports Condition_Protocol Ipc_Queue
begin

text \<open>
  What the two condition variables with a queue of waiting threads share: the use of the queue, and the
  contract \<open>wakeup\<close> of their critical sections, from which no sleeping thread is forgotten.
\<close>

section \<open>The queue of the waiting threads\<close>

text \<open>\<open>Front\<close> and \<open>Pop\<close>, as a notification calls them. The items are thread ids.\<close>

definition take_waiter :: "nat queue \<Rightarrow> cpp_error + nat \<times> nat queue" where
  "take_waiter q =
     (case Front q of
        Inl e \<Rightarrow> Inl e
      | Inr x \<Rightarrow> (case Pop q of Inl e \<Rightarrow> Inl e | Inr q' \<Rightarrow> Inr (x, q')))"

lemma take_waiter_Cons:
  assumes "queue_inv q" "queue_list q = x # xs"
  shows "\<exists>q'. take_waiter q = Inr (x, q') \<and> queue_inv q' \<and> queue_list q' = xs"
  using ring.front_ok [OF assms(1)] ring.pop_ok [OF assms(1)] assms(2) by (auto simp: take_waiter_def)

lemma take_waiter_Count:
  assumes "take_waiter q = Inr (x, q')" "0 < Count q"
  shows "unat (Count q') < unat (Count q)"
proof -
  have "Count q' = Count q - 1"
    using assms by (auto simp: take_waiter_def Pop_def Count_def split: sum.splits if_splits)
  then show ?thesis
    using assms(2) unat_pred [of "Count q"] by (simp add: word_less_nat_alt)
qed

lemma PushBack_result:
  assumes "queue_inv q" "PushBack q x = Inr q'"
  shows "queue_inv q' \<and> queue_list q' = queue_list q @ [x]"
  using assms PushBack_space [of q x] PushBack_full [of q x] by fastforce

lemma Remove_result:
  assumes "queue_inv q"
  shows "\<exists>b q'. Remove q x = Inr (b, q') \<and> queue_inv q' \<and> set (queue_list q) - {x} \<subseteq> set (queue_list q') \<and>
    set (queue_list q') \<subseteq> set (queue_list q)"
proof (cases "x \<in> set (queue_list q)")
  case True
  obtain q' where q': "Remove q x = Inr (True, q')" "queue_inv q'" "queue_list q' = remove_swap x (queue_list q)"
    using Remove_found [OF assms True] by blast
  have "set (queue_list q) - {x} \<subseteq> set_mset (mset (queue_list q) - {#x#})"
    by (metis True insert_DiffM set_mset_add_mset_insert set_mset_mset Diff_subset_conv insert_is_Un order_refl in_multiset_in_set)
  moreover have "set_mset (mset (queue_list q) - {#x#}) \<subseteq> set (queue_list q)" by (auto dest: in_diffD)
  ultimately show ?thesis using q' mset_remove_swap [OF True] by (metis set_mset_mset)
next
  case False
  then show ?thesis using Remove_missing [OF assms] assms by auto
qed

section \<open>What holds of every sleeping thread\<close>

text \<open>
  \<open>waiting\<close> holds of a thread that begins to sleep, and nothing but what the thread does itself ends it.
\<close>

locale sleepers =
  fixes ops :: "'d cv_ops" and inv :: "'d \<Rightarrow> bool" and waiting :: "'d \<Rightarrow> thread \<Rightarrow> bool"
  assumes enter_waits: "inv d \<Longrightarrow> is_wait c \<Longrightarrow> op_enter ops t c d = (d', r) \<Longrightarrow> inv d' \<and> (r = Inr () \<longrightarrow> waiting d' t) \<and>
      (\<forall>u. u \<noteq> t \<longrightarrow> waiting d u \<longrightarrow> waiting d' u)"
    and sleep_waits: "inv d \<Longrightarrow> waiting d t \<Longrightarrow> is_wait c \<Longrightarrow> op_sleep ops t c b d = Some (d', e) \<Longrightarrow>
      inv d' \<and> (e = Still_Asleep \<longrightarrow> waiting d' t) \<and> (\<forall>u. u \<noteq> t \<longrightarrow> waiting d u \<longrightarrow> waiting d' u)"
    and leave_waits: "inv d \<Longrightarrow> op_leave ops t c d = (d', l) \<Longrightarrow>
      inv d' \<and> (l = Sleep_Again \<longrightarrow> waiting d' t) \<and> (\<forall>u. u \<noteq> t \<longrightarrow> waiting d u \<longrightarrow> waiting d' u)"
    and notify_waits: "inv d \<Longrightarrow> op_notify ops c t d = (d', r) \<Longrightarrow>
      inv d' \<and> (\<forall>u. waiting d u \<longrightarrow> waiting d' u)"
begin

definition all_waiting :: "'d cv_system \<Rightarrow> bool" where
  "all_waiting S \<longleftrightarrow> inv (data S) \<and> (\<forall>t c. point S t = Sleeping c \<longrightarrow> is_wait c \<and> waiting (data S) t) \<and>
     (\<forall>t c. point S t = Woken c \<or> point S t = Relocking c \<longrightarrow> is_wait c)"

lemma all_waitingD:
  assumes "all_waiting S"
  shows "inv (data S)" and "point S t = Sleeping c \<Longrightarrow> is_wait c \<and> waiting (data S) t"
  using assms unfolding all_waiting_def by blast+

lemma all_waiting_step:
  assumes "cv_step ops m S = Some S'" "all_waiting S"
  shows "all_waiting S'"
  using assms(1)
proof (cases rule: cv_step_cases)
  case (Notified t c held d r)
  then show ?thesis using assms(2) notify_waits [of "data S" c t d r] by (auto simp: all_waiting_def move_simps)
next
  case (Refused t c held d e)
  then show ?thesis using assms(2) enter_waits [of "data S" c t d "Inl e"] by (auto simp: all_waiting_def move_simps)
next
  case (Asleep t c held d)
  then show ?thesis using assms(2) enter_waits [of "data S" c t d "Inr ()"] by (auto simp: all_waiting_def move_simps)
next
  case (Threw t c b d e)
  then show ?thesis
    using assms(2) all_waitingD(2) [OF assms(2), of t c] sleep_waits [of "data S" t c b d "Threw e"] by (auto simp: all_waiting_def move_simps)
next
  case (Awake t c b d)
  then show ?thesis
    using assms(2) all_waitingD(2) [OF assms(2), of t c] sleep_waits [of "data S" t c b d "Awake"] by (auto simp: all_waiting_def move_simps)
next
  case (Still t c b d)
  have w: "inv d" "waiting d t" "\<And>u. u \<noteq> t \<Longrightarrow> waiting (data S) u \<Longrightarrow> waiting d u"
    using Still all_waitingD [OF assms(2)] sleep_waits [of "data S" t c b d Still_Asleep] by blast+
  have "waiting d u" if "waiting (data S) u" for u using w(2,3) that by (cases "u = t") auto
  then show ?thesis using assms(2) Still w(1) by (simp add: all_waiting_def)
next
  case (Again t c d)
  then show ?thesis
    using assms(2) leave_waits [of "data S" t c d Sleep_Again] by (auto simp: all_waiting_def move_simps)
next
  case (Back t c d r)
  then show ?thesis
    using assms(2) leave_waits [of "data S" t c d "Leave r"] by (auto simp: all_waiting_def move_simps)
qed (use assms(2) in \<open>auto simp: all_waiting_def move_simps\<close>)

lemma all_waiting_reachable:
  assumes "cv_reachable ops d S" "inv d"
  shows "all_waiting S"
  using assms
proof (induction rule: cv_reachable.induct)
  case (cv_next S m S')
  then show ?case using all_waiting_step by blast
qed (simp add: all_waiting_def cv_start_def)

end

section \<open>No sleeping thread is forgotten\<close>

text \<open>
  \<open>queued\<close>: the id of the thread is in the queue. \<open>signalled\<close>: its sleep can end. A thread that is
  \<open>waiting\<close> is queued or signalled.
\<close>

locale wakeup = sleepers ops inv waiting
  for ops :: "'d cv_ops" and inv :: "'d \<Rightarrow> bool" and waiting :: "'d \<Rightarrow> thread \<Rightarrow> bool" +
  fixes queued signalled :: "'d \<Rightarrow> thread \<Rightarrow> bool"
  assumes waiting_cases: "inv d \<Longrightarrow> waiting d t \<Longrightarrow> queued d t \<or> signalled d t"
    and notify_all_empties: "inv d \<Longrightarrow> op_notify_all ops t d = (d', Inr ()) \<Longrightarrow> \<not> queued d' u"
    and signalled_wakes: "inv d \<Longrightarrow> waiting d t \<Longrightarrow> signalled d t \<Longrightarrow> is_wait c \<Longrightarrow>
      \<exists>d'. op_sleep ops t c b d = Some (d', Awake)"
begin

lemma sleeper_not_forgotten:
  assumes "all_waiting S" "point S t = Sleeping c"
  shows "queued (data S) t \<or> signalled (data S) t"
  using all_waitingD [OF assms(1)] assms(2) waiting_cases by blast

text \<open>A sleeping thread that is signalled can go on; with the mutexes free, up to the end of the call.\<close>

lemma sleeper_can_wake:
  assumes "all_waiting S" "point S t = Sleeping c" "signalled (data S) t"
  shows "\<exists>d'. op_sleep ops t c b (data S) = Some (d', Awake)"
  using all_waitingD [OF assms(1)] assms(2,3) signalled_wakes by blast

lemma notify_all_wakes_sleepers:
  assumes "all_waiting S" "point S u = Calling CV_NotifyAll held"
    "cv_step ops (Section u) S = Some S'" "returned S' u = Some (Inr None)" "point S' t = Sleeping c"
  shows "\<exists>S''. cv_step ops (Wake t False) S' = Some S'' \<and> point S'' t = Woken c"
proof -
  have q: "queue_mutex S = None" using assms(2,3) by (cases "queue_mutex S") auto
  obtain d' r where n: "op_notify_all ops u (data S) = (d', r)" by fastforce
  then have r: "r = Inr ()" "data S' = d'"
    using assms(2-4) q by (cases r; auto simp: move_simps)+
  have S': "all_waiting S'" by (rule all_waiting_step [OF assms(3,1)])
  have "\<not> queued (data S') t"
    using notify_all_empties [OF all_waitingD(1) [OF assms(1)], of u d' t] n r by simp
  then have "signalled (data S') t" using sleeper_not_forgotten [OF S' assms(5)] by blast
  then show ?thesis using sleeper_can_wake [OF S' assms(5), of False] assms(5) by (auto simp: move_simps)
qed

lemmas not_forgotten = sleeper_not_forgotten [OF all_waiting_reachable]
lemmas can_wake = sleeper_can_wake [OF all_waiting_reachable]
lemmas notify_all_wakes = notify_all_wakes_sleepers [OF all_waiting_reachable]

text \<open>One signalled sleeper and one thread inside that calls again: both are stuck for ever.\<close>

lemma lock_order_deadlock:
  assumes "cv_reachable ops d S" "inv d" "point S t = Sleeping c" "signalled (data S) t"
    "point S u = Inside" "queue_mutex S = None"
  shows "\<exists>S'. cv_run ops [Wake t False, Take_Queue t, Call u c'] S = Some S' \<and>
    (\<forall>ms S''. cv_run ops ms S' = Some S'' \<longrightarrow>
       point S'' t = Relocking c \<and> point S'' u = Calling c' True)"
proof -
  obtain d' where d': "op_sleep ops t c False (data S) = Some (d', Awake)"
    using can_wake [OF assms(1-4)] by blast
  let ?S = "go u (Calling c' True) (go t (Relocking c) (S\<lparr>data := d', queue_mutex := Some t\<rparr>))"
  have run: "cv_run ops [Wake t False, Take_Queue t, Call u c'] S = Some ?S"
    using assms(3,5,6) d' by (auto simp: move_simps)
  have c: "crossed t u ?S" using assms(3,5) by (auto simp: crossed_def move_simps)
  have "cv_ok ?S" using cv_reachable_ok [OF cv_run_reachable [OF run assms(1)]] .
  then have "point S'' t = Relocking c \<and> point S'' u = Calling c' True" if "cv_run ops ms ?S = Some S''" for ms S''
    using crossed_forever [OF that _ c] assms(3,5) by (auto simp: move_simps)
  then show ?thesis using run by blast
qed

end

end
