(* ===== verification/Win32_Condition.thy ===== *)
theory Win32_Condition
  imports Condition_Wakeup Win32_Mutex "HOL-Library.Countable"
begin

text \<open>
  \<open>src/ipc/win32/ConditionVariable.cpp\<close>: the condition variable on Windows, a queue of thread ids in
  shared memory and a named semaphore for each thread. The semaphore functions are a parameter;
  \<open>win32_semaphores\<close> states what is documented of them.
\<close>

section \<open>The Windows functions\<close>

text \<open>
  \<open>WaitForSemaphore\<close> is \<open>WaitForSingleObject\<close> with a timeout in milliseconds; the flag says that this
  time has elapsed, and \<open>None\<close> that the call blocks. \<open>TestSemaphore\<close> is the call with the timeout 0,
  which does not block. \<open>get_id\<close> is \<open>std::this_thread::get_id()\<close>, and \<open>show_id\<close> the text of an id.
\<close>

record 's win32_host =
  CreateSemaphoreA :: "string \<Rightarrow> 's \<Rightarrow> 's \<times> nat option"
  ReleaseSemaphore :: "nat \<Rightarrow> 's \<Rightarrow> 's \<times> bool"
  TestSemaphore :: "nat \<Rightarrow> 's \<Rightarrow> 's \<times> wait_status"
  WaitForSemaphore :: "nat \<Rightarrow> u32 \<Rightarrow> bool \<Rightarrow> 's \<Rightarrow> ('s \<times> wait_status) option"
  SemaphoreError :: "'s \<Rightarrow> nat"
  get_id :: "thread \<Rightarrow> nat"
  show_id :: "nat \<Rightarrow> string"

definition INFINITE :: u32 where
  "INFINITE = 0xFFFFFFFF"

text \<open>
  A handle stands for a named semaphore, which counts up to 1. An id identifies a thread in the system.
  The last law, that a semaphore can always be created, is what the code relies on to signal a thread.
\<close>

locale win32_semaphores =
  fixes host :: "'s win32_host"
    and object_of :: "'s \<Rightarrow> nat \<Rightarrow> string option" and sem_count :: "'s \<Rightarrow> string \<Rightarrow> nat"
  assumes create: "CreateSemaphoreA host n k = (k', Some h) \<Longrightarrow> sem_count k' = sem_count k \<and>
      object_of k' h = Some n \<and> (\<forall>h' m. object_of k h' = Some m \<longrightarrow> object_of k' h' = Some m)"
    and release: "object_of k h = Some n \<Longrightarrow> ReleaseSemaphore host h k = (k', b) \<Longrightarrow>
      object_of k' = object_of k \<and> sem_count k' = (sem_count k)(n := 1)"
    and test: "object_of k h = Some n \<Longrightarrow> TestSemaphore host h k = (k', s) \<Longrightarrow>
      object_of k' = object_of k \<and> sem_count k' = (sem_count k)(n := 0)"
    and wait_signalled: "object_of k h = Some n \<Longrightarrow> 0 < sem_count k n \<Longrightarrow>
      \<exists>k'. WaitForSemaphore host h ms e k = Some (k', WAIT_OBJECT_0) \<and> object_of k' = object_of k \<and>
        sem_count k' = (sem_count k)(n := sem_count k n - 1)"
    and wait_empty: "object_of k h = Some n \<Longrightarrow> sem_count k n = 0 \<Longrightarrow>
      WaitForSemaphore host h ms e k =
        (if ms = 0 \<or> e \<and> ms \<noteq> INFINITE then Some (k, WAIT_TIMEOUT) else None)"
    and ids: "get_id host t = get_id host u \<longleftrightarrow> t = u"
    and texts: "show_id host i = show_id host j \<longleftrightarrow> i = j"
    and creates: "\<exists>k' h. CreateSemaphoreA host n k = (k', Some h)"

section \<open>The class ConditionVariable\<close>

text \<open>
  The members: \<open>_semaphores\<close> of the instance in each process, the queue in shared memory, the name; the
  state of the semaphores; and of each thread the local variables \<open>semaphore\<close> and \<open>result\<close> of a wait.
\<close>

record 's win32_cv =
  semaphores :: "nat \<Rightarrow> nat \<Rightarrow> nat option"
  threadQueue :: "nat queue"
  cv_name :: string
  cv_kernel :: 's
  local_semaphore :: "thread \<Rightarrow> nat"
  local_result :: "thread \<Rightarrow> wait_status"

definition threadQueueSTORAGE_SIZE :: u32 where
  "threadQueueSTORAGE_SIZE = 128 * 1024"

text \<open>The queue of a new object; \<open>sizeof(std::thread::id)\<close> is 4.\<close>

definition Win32_thread_queue :: "nat queue_memory \<Rightarrow> bool \<Rightarrow> nat queue" where
  "Win32_thread_queue mem isOwner = Queue_ctor mem threadQueueSTORAGE_SIZE 4 isOwner"

definition semaphore_name :: "'s win32_host \<Rightarrow> nat \<Rightarrow> 's win32_cv \<Rightarrow> string" where
  "semaphore_name host i d = cv_name d @ show_id host i"

definition GetSemaphore :: "'s win32_host \<Rightarrow> nat \<Rightarrow> nat \<Rightarrow> 's win32_cv \<Rightarrow> 's win32_cv \<times> (cpp_error + nat)" where
  "GetSemaphore host p i d =
     (case semaphores d p i of
        None \<Rightarrow>
          (case CreateSemaphoreA host (semaphore_name host i d) (cv_kernel d) of
             (k, None) \<Rightarrow> (d\<lparr>cv_kernel := k\<rparr>, Inl (runtime_error_code ''CreateSemaphoreA failed, error: ''
                            (Code (Errno (SemaphoreError host k)))))
           | (k, Some h) \<Rightarrow>
               (d\<lparr>cv_kernel := k, semaphores := (semaphores d)(p := (semaphores d p)(i \<mapsto> h))\<rparr>, Inr h))
      | Some h \<Rightarrow> (d\<lparr>cv_kernel := fst (TestSemaphore host h (cv_kernel d))\<rparr>, Inr h))"

text \<open>\<open>NotifyOne\<close> after the test of the count, and the body of the loop of \<open>NotifyAll\<close>.\<close>

definition notify_front :: "'s win32_host \<Rightarrow> nat \<Rightarrow> 's win32_cv \<Rightarrow> 's win32_cv \<times> (cpp_error + unit)" where
  "notify_front host p d =
     (case take_waiter (threadQueue d) of
        Inl e \<Rightarrow> (d, Inl e)
      | Inr (i, q) \<Rightarrow>
          (case GetSemaphore host p i (d\<lparr>threadQueue := q\<rparr>) of
             (d, Inl e) \<Rightarrow> (d, Inl e)
           | (d, Inr h) \<Rightarrow> (d\<lparr>cv_kernel := fst (ReleaseSemaphore host h (cv_kernel d))\<rparr>, Inr ())))"

definition Win32_Condition_NotifyOne ::
  "'s win32_host \<Rightarrow> thread \<Rightarrow> 's win32_cv \<Rightarrow> 's win32_cv \<times> (cpp_error + unit)"
where
  "Win32_Condition_NotifyOne host t d =
     (if 0 < Count (threadQueue d) then notify_front host (fst t) d else (d, Inr ()))"

lemma GetSemaphore_frame:
  assumes "GetSemaphore host p i d = (d', r)"
  shows "threadQueue d' = threadQueue d" "cv_name d' = cv_name d" "local_semaphore d' = local_semaphore d"
    "local_result d' = local_result d"
  using assms by (auto simp: GetSemaphore_def split: option.splits prod.splits)

lemma notify_front_Count:
  assumes "notify_front host p d = (d', Inr ())" "0 < Count (threadQueue d)"
  shows "unat (Count (threadQueue d')) < unat (Count (threadQueue d))"
proof -
  obtain i q where q: "take_waiter (threadQueue d) = Inr (i, q)"
    using assms(1) by (auto simp: notify_front_def split: sum.splits)
  obtain d1 r where g: "GetSemaphore host p i (d\<lparr>threadQueue := q\<rparr>) = (d1, r)" by fastforce
  have "threadQueue d' = q"
    using assms(1) q g GetSemaphore_frame(1) [OF g] by (auto simp: notify_front_def split: sum.splits)
  then show ?thesis using take_waiter_Count [OF q assms(2)] by simp
qed

function Win32_Condition_NotifyAll ::
  "'s win32_host \<Rightarrow> thread \<Rightarrow> 's win32_cv \<Rightarrow> 's win32_cv \<times> (cpp_error + unit)"
where
  "Win32_Condition_NotifyAll host t d =
     (if 0 < Count (threadQueue d)
      then (case notify_front host (fst t) d of
              (d', Inl e) \<Rightarrow> (d', Inl e)
            | (d', Inr _) \<Rightarrow> Win32_Condition_NotifyAll host t d')
      else (d, Inr ()))"
  by pat_completeness auto
termination
  by (relation "measure (\<lambda>(host, t, d). unat (Count (threadQueue d)))")
    (auto intro: notify_front_Count)

declare Win32_Condition_NotifyAll.simps [simp del]

text \<open>\<open>Wait\<close> and \<open>WaitFor\<close> up to the unlocking of the mutexes.\<close>

definition Win32_enter ::
  "'s win32_host \<Rightarrow> thread \<Rightarrow> 's win32_cv \<Rightarrow> 's win32_cv \<times> (cpp_error + unit)"
where
  "Win32_enter host t d =
     (case GetSemaphore host (fst t) (get_id host t) d of
        (d, Inl e) \<Rightarrow> (d, Inl e)
      | (d, Inr h) \<Rightarrow>
          (let d = d\<lparr>local_semaphore := (local_semaphore d)(t := h)\<rparr> in
           case PushBack (threadQueue d) (get_id host t) of
             Inl e \<Rightarrow> (d, Inl e)
           | Inr q \<Rightarrow> (d\<lparr>threadQueue := q\<rparr>, Inr ())))"

text \<open>The sleep: without an end, or for \<open>static_cast<DWORD>(timeout.count())\<close> milliseconds.\<close>

fun sleep_millis :: "cv_call \<Rightarrow> u32" where
  "sleep_millis (CV_WaitFor n) = word_of_int n"
| "sleep_millis _ = INFINITE"

definition Win32_sleep ::
  "'s win32_host \<Rightarrow> thread \<Rightarrow> cv_call \<Rightarrow> bool \<Rightarrow> 's win32_cv \<Rightarrow> ('s win32_cv \<times> sleep_end) option"
where
  "Win32_sleep host t c elapsed d =
     (case WaitForSemaphore host (local_semaphore d t) (sleep_millis c) elapsed (cv_kernel d) of
        None \<Rightarrow> None
      | Some (k, s) \<Rightarrow> Some (d\<lparr>cv_kernel := k, local_result := (local_result d)(t := s)\<rparr>, Awake))"

text \<open>The end of the waits, after both mutexes have been locked again.\<close>

definition wait_failed :: "'s win32_host \<Rightarrow> thread \<Rightarrow> 's win32_cv \<Rightarrow> 's win32_cv \<times> cpp_error" where
  "wait_failed host t d =
     (case Remove (threadQueue d) (get_id host t) of
        Inl e \<Rightarrow> (d, e)
      | Inr (_, q) \<Rightarrow> (d\<lparr>threadQueue := q\<rparr>, runtime_error_code ''WaitForSingleObject failed, error: ''
                       (Code (Errno (SemaphoreError host (cv_kernel d))))))"

definition Win32_Wait_end :: "'s win32_host \<Rightarrow> thread \<Rightarrow> 's win32_cv \<Rightarrow> 's win32_cv \<times> leave" where
  "Win32_Wait_end host t d =
     (if local_result d t = WAIT_FAILED
      then (case wait_failed host t d of (d, e) \<Rightarrow> (d, Leave (Inl e)))
      else (d, Leave (Inr None)))"

definition Win32_WaitFor_end :: "'s win32_host \<Rightarrow> thread \<Rightarrow> 's win32_cv \<Rightarrow> 's win32_cv \<times> leave" where
  "Win32_WaitFor_end host t d =
     (if local_result d t = WAIT_FAILED
      then (case wait_failed host t d of (d, e) \<Rightarrow> (d, Leave (Inl e)))
      else if local_result d t = WAIT_OBJECT_0 then (d, Leave (Inr (Some no_timeout)))
      else (d, Leave (Inr (Some timeout))))"

text \<open>The public class: a default-constructed object has no \<open>_impl\<close>. The waits up to their sleep.\<close>

definition Win32_NotifyOne ::
  "'s win32_host \<Rightarrow> bool \<Rightarrow> thread \<Rightarrow> 's win32_cv \<Rightarrow> 's win32_cv \<times> (cpp_error + unit)"
where
  "Win32_NotifyOne host impl t d =
     (if \<not> impl then (d, Inl (runtime_error ''Not initialized.'')) else Win32_Condition_NotifyOne host t d)"

definition Win32_NotifyAll ::
  "'s win32_host \<Rightarrow> bool \<Rightarrow> thread \<Rightarrow> 's win32_cv \<Rightarrow> 's win32_cv \<times> (cpp_error + unit)"
where
  "Win32_NotifyAll host impl t d =
     (if \<not> impl then (d, Inl (runtime_error ''Not initialized.'')) else Win32_Condition_NotifyAll host t d)"

definition Win32_Wait ::
  "'s win32_host \<Rightarrow> bool \<Rightarrow> thread \<Rightarrow> 's win32_cv \<Rightarrow> 's win32_cv \<times> (cpp_error + unit)"
where
  "Win32_Wait host impl t d =
     (if \<not> impl then (d, Inl (runtime_error ''Not initialized.'')) else Win32_enter host t d)"

definition Win32_WaitFor ::
  "'s win32_host \<Rightarrow> bool \<Rightarrow> thread \<Rightarrow> 's win32_cv \<Rightarrow> 's win32_cv \<times> (cpp_error + unit)"
where
  "Win32_WaitFor host impl t d =
     (if \<not> impl then (d, Inl (runtime_error ''Not initialized.'')) else Win32_enter host t d)"

fun Win32_end :: "'s win32_host \<Rightarrow> thread \<Rightarrow> cv_call \<Rightarrow> 's win32_cv \<Rightarrow> 's win32_cv \<times> leave" where
  "Win32_end host t (CV_WaitFor n) d = Win32_WaitFor_end host t d"
| "Win32_end host t _ d = Win32_Wait_end host t d"

fun Win32_begin ::
  "'s win32_host \<Rightarrow> thread \<Rightarrow> cv_call \<Rightarrow> 's win32_cv \<Rightarrow> 's win32_cv \<times> (cpp_error + unit)"
where
  "Win32_begin host t (CV_WaitFor n) d = Win32_WaitFor host True t d"
| "Win32_begin host t _ d = Win32_Wait host True t d"

definition win32_ops :: "'s win32_host \<Rightarrow> 's win32_cv cv_ops" where
  "win32_ops host =
     \<lparr>op_enter = Win32_begin host, op_sleep = Win32_sleep host, op_leave = Win32_end host,
      op_notify_one = Win32_NotifyOne host True, op_notify_all = Win32_NotifyAll host True\<rparr>"

section \<open>The contract of the critical sections holds\<close>

definition win32_inv :: "'s win32_host \<Rightarrow> ('s \<Rightarrow> nat \<Rightarrow> string option) \<Rightarrow> 's win32_cv \<Rightarrow> bool" where
  "win32_inv host object_of d \<longleftrightarrow> queue_inv (threadQueue d) \<and>
     (\<forall>p i h. semaphores d p i = Some h \<longrightarrow> object_of (cv_kernel d) h = Some (semaphore_name host i d))"

definition win32_queued :: "'s win32_host \<Rightarrow> 's win32_cv \<Rightarrow> thread \<Rightarrow> bool" where
  "win32_queued host d t \<longleftrightarrow> get_id host t \<in> set (queue_list (threadQueue d))"

definition win32_signalled ::
  "'s win32_host \<Rightarrow> ('s \<Rightarrow> string \<Rightarrow> nat) \<Rightarrow> 's win32_cv \<Rightarrow> thread \<Rightarrow> bool"
where
  "win32_signalled host sem_count d t \<longleftrightarrow> 0 < sem_count (cv_kernel d) (semaphore_name host (get_id host t) d)"

definition win32_waiting ::
  "'s win32_host \<Rightarrow> ('s \<Rightarrow> nat \<Rightarrow> string option) \<Rightarrow> ('s \<Rightarrow> string \<Rightarrow> nat) \<Rightarrow> 's win32_cv \<Rightarrow> thread \<Rightarrow> bool"
where
  "win32_waiting host object_of sem_count d t \<longleftrightarrow>
     object_of (cv_kernel d) (local_semaphore d t) = Some (semaphore_name host (get_id host t) d) \<and>
     (win32_queued host d t \<or> win32_signalled host sem_count d t)"

text \<open>What no operation changes: the name, and what an open handle stands for.\<close>

definition same_objects ::
  "('s \<Rightarrow> nat \<Rightarrow> string option) \<Rightarrow> 's win32_cv \<Rightarrow> 's win32_cv \<Rightarrow> bool"
where
  "same_objects object_of d d' \<longleftrightarrow> cv_name d' = cv_name d \<and>
     (\<forall>h m. object_of (cv_kernel d) h = Some m \<longrightarrow> object_of (cv_kernel d') h = Some m)"

lemma same_objects_name: "same_objects ob d d' \<Longrightarrow> semaphore_name host i d' = semaphore_name host i d"
  by (simp add: same_objects_def semaphore_name_def)

lemma same_objects_trans: "same_objects ob d d' \<Longrightarrow> same_objects ob d' d'' \<Longrightarrow> same_objects ob d d''"
  by (auto simp: same_objects_def)

lemmas win32_defs = win32_inv_def win32_queued_def win32_signalled_def win32_waiting_def

context win32_semaphores
begin

lemma name_eq: "semaphore_name host i d = semaphore_name host j d \<longleftrightarrow> i = j"
  by (simp add: semaphore_name_def texts)

lemma GetSemaphore_spec:
  assumes "win32_inv host object_of d"
  shows "\<exists>d' h. GetSemaphore host p i d = (d', Inr h) \<and> win32_inv host object_of d' \<and>
    threadQueue d' = threadQueue d \<and> local_semaphore d' = local_semaphore d \<and> local_result d' = local_result d \<and>
    same_objects object_of d d' \<and> object_of (cv_kernel d') h = Some (semaphore_name host i d) \<and>
    (\<forall>n. n \<noteq> semaphore_name host i d \<longrightarrow> sem_count (cv_kernel d') n = sem_count (cv_kernel d) n)"
proof (cases "semaphores d p i")
  case None
  obtain k h where k: "CreateSemaphoreA host (semaphore_name host i d) (cv_kernel d) = (k, Some h)"
    using creates by blast
  show ?thesis
    using create [OF k] assms None k
    by (auto simp: GetSemaphore_def win32_inv_def same_objects_def semaphore_name_def)
next
  case (Some h)
  obtain k s where k: "TestSemaphore host h (cv_kernel d) = (k, s)" by fastforce
  have "object_of (cv_kernel d) h = Some (semaphore_name host i d)"
    using assms Some by (simp add: win32_inv_def)
  then show ?thesis
    using test [OF _ k] assms Some k
    by (auto simp: GetSemaphore_def win32_inv_def same_objects_def semaphore_name_def)
qed

text \<open>The first thing a wait does with its semaphore never signals it.\<close>

lemma GetSemaphore_lowers:
  assumes "win32_inv host object_of d" "GetSemaphore host p i d = (d', Inr h)"
  shows "sem_count (cv_kernel d') n \<le> sem_count (cv_kernel d) n"
proof (cases "semaphores d p i")
  case None
  then show ?thesis using assms(2) create by (auto simp: GetSemaphore_def split: prod.splits option.splits)
next
  case (Some g)
  obtain k s where k: "TestSemaphore host g (cv_kernel d) = (k, s)" by fastforce
  have "object_of (cv_kernel d) g = Some (semaphore_name host i d)"
    using assms(1) Some by (simp add: win32_inv_def)
  then show ?thesis using test [OF _ k] assms(2) Some k by (auto simp: GetSemaphore_def)
qed

lemma notify_front_spec:
  assumes "win32_inv host object_of d" "queue_list (threadQueue d) = i # xs"
  shows "\<exists>d'. notify_front host p d = (d', Inr ()) \<and> win32_inv host object_of d' \<and>
    queue_list (threadQueue d') = xs \<and> local_semaphore d' = local_semaphore d \<and> local_result d' = local_result d \<and>
    same_objects object_of d d' \<and> sem_count (cv_kernel d') (semaphore_name host i d) = 1 \<and>
    (\<forall>n. n \<noteq> semaphore_name host i d \<longrightarrow> sem_count (cv_kernel d') n = sem_count (cv_kernel d) n)"
proof -
  obtain q where q: "take_waiter (threadQueue d) = Inr (i, q)" "queue_inv q" "queue_list q = xs"
    using take_waiter_Cons [OF _ assms(2)] assms(1) by (auto simp: win32_inv_def)
  let ?d = "d\<lparr>threadQueue := q\<rparr>"
  have n: "semaphore_name host i ?d = semaphore_name host i d" for i by (simp add: semaphore_name_def)
  have "win32_inv host object_of ?d" using assms(1) q(2) by (simp add: win32_inv_def n)
  from GetSemaphore_spec [OF this, of p i] obtain d1 h where
    g: "GetSemaphore host p i ?d = (d1, Inr h)" "win32_inv host object_of d1" "threadQueue d1 = q"
      "local_semaphore d1 = local_semaphore d" "local_result d1 = local_result d" "same_objects object_of ?d d1"
      "object_of (cv_kernel d1) h = Some (semaphore_name host i d)"
      "\<And>m. m \<noteq> semaphore_name host i d \<Longrightarrow> sem_count (cv_kernel d1) m = sem_count (cv_kernel d) m"
    by (auto simp: n)
  obtain k b where k: "ReleaseSemaphore host h (cv_kernel d1) = (k, b)" by fastforce
  note r = release [OF g(7) k]
  show ?thesis
    using q g r k by (auto simp: notify_front_def win32_inv_def same_objects_def semaphore_name_def)
qed

text \<open>A notification moves the front of the queue to the signalled threads.\<close>

lemma notify_front_waiting:
  assumes "win32_inv host object_of d" "queue_list (threadQueue d) = i # xs" "notify_front host p d = (d', r)"
    "win32_waiting host object_of sem_count d u"
  shows "win32_waiting host object_of sem_count d' u"
proof -
  note s = notify_front_spec [OF assms(1,2), of p]
  have n: "semaphore_name host j d' = semaphore_name host j d" for j
    using s assms(3) same_objects_name by (metis prod.inject)
  show ?thesis
  proof (cases "get_id host u = i")
    case True
    then show ?thesis using s assms(3,4) by (auto simp: win32_defs n same_objects_def)
  next
    case False
    then have "semaphore_name host (get_id host u) d \<noteq> semaphore_name host i d" by (simp add: name_eq)
    then show ?thesis using s assms False by (auto simp: win32_defs n same_objects_def)
  qed
qed

lemma Count_Cons:
  assumes "0 < Count q"
  obtains i xs where "queue_list q = i # xs"
  using assms Count_pos_iff [of q] by (cases "queue_list q") auto

lemma NotifyAll_spec:
  assumes "win32_inv host object_of d"
  shows "\<exists>d'. Win32_Condition_NotifyAll host t d = (d', Inr ()) \<and> win32_inv host object_of d' \<and>
    queue_list (threadQueue d') = [] \<and>
    (\<forall>u. win32_waiting host object_of sem_count d u \<longrightarrow> win32_waiting host object_of sem_count d' u)"
  using assms
proof (induction "length (queue_list (threadQueue d))" arbitrary: d rule: less_induct)
  case less
  show ?case
  proof (cases "queue_list (threadQueue d)")
    case Nil
    then show ?thesis
      using less.prems Count_pos_iff [of "threadQueue d"] by (simp add: Win32_Condition_NotifyAll.simps [of host t d])
  next
    case (Cons i xs)
    then obtain d1 where d1: "notify_front host (fst t) d = (d1, Inr ())" "win32_inv host object_of d1"
      "queue_list (threadQueue d1) = xs"
      using notify_front_spec [OF less.prems Cons, of "fst t"] by blast
    have w: "win32_waiting host object_of sem_count d1 u" if "win32_waiting host object_of sem_count d u" for u
      using notify_front_waiting [OF less.prems Cons d1(1) that] .
    have c: "0 < Count (threadQueue d)" using Cons Count_pos_iff by (metis list.distinct(1))
    show ?thesis
      using less.hyps [OF _ d1(2)] d1 w c Cons by (auto simp: Win32_Condition_NotifyAll.simps [of host t d])
  qed
qed

lemma NotifyOne_spec:
  assumes "win32_inv host object_of d"
  shows "\<exists>d'. Win32_Condition_NotifyOne host t d = (d', Inr ()) \<and> win32_inv host object_of d' \<and>
    (\<forall>u. win32_waiting host object_of sem_count d u \<longrightarrow> win32_waiting host object_of sem_count d' u)"
proof (cases "queue_list (threadQueue d)")
  case Nil
  then show ?thesis
    using assms Count_pos_iff [of "threadQueue d"] by (simp add: Win32_Condition_NotifyOne_def)
next
  case (Cons i xs)
  then have "0 < Count (threadQueue d)" using Count_pos_iff by (metis list.distinct(1))
  then show ?thesis
    using notify_front_spec [OF assms Cons, of "fst t"] notify_front_waiting [OF assms Cons, of "fst t"]
    by (auto simp: Win32_Condition_NotifyOne_def)
qed

lemma begin_eq: "is_wait c \<Longrightarrow> Win32_begin host t c d = Win32_enter host t d"
  by (cases c) (simp_all add: Win32_Wait_def Win32_WaitFor_def)

lemma enter_spec:
  assumes "win32_inv host object_of d" "Win32_enter host t d = (d', r)"
  shows "win32_inv host object_of d' \<and> (r = Inr () \<longrightarrow> win32_waiting host object_of sem_count d' t) \<and>
    (\<forall>u. u \<noteq> t \<longrightarrow> win32_waiting host object_of sem_count d u \<longrightarrow> win32_waiting host object_of sem_count d' u)"
proof -
  let ?i = "get_id host t"
  obtain d1 h where
    g: "GetSemaphore host (fst t) ?i d = (d1, Inr h)" "win32_inv host object_of d1" "threadQueue d1 = threadQueue d"
      "local_semaphore d1 = local_semaphore d" "same_objects object_of d d1"
      "object_of (cv_kernel d1) h = Some (semaphore_name host ?i d)"
      "\<And>m. m \<noteq> semaphore_name host ?i d \<Longrightarrow> sem_count (cv_kernel d1) m = sem_count (cv_kernel d) m"
    using GetSemaphore_spec [OF assms(1), of "fst t" ?i] by blast
  have other: "semaphore_name host (get_id host u) d \<noteq> semaphore_name host ?i d" if "u \<noteq> t" for u
    using that by (simp add: name_eq ids)
  show ?thesis
  proof (cases "PushBack (threadQueue d) ?i")
    case (Inl e)
    then show ?thesis
      using assms(2) g other
      by (auto simp: Win32_enter_def win32_defs same_objects_def semaphore_name_def Let_def)
  next
    case (Inr q)
    have "queue_inv q \<and> queue_list q = queue_list (threadQueue d) @ [?i]"
      using PushBack_result [OF _ Inr] assms(1) by (simp add: win32_inv_def)
    then show ?thesis
      using assms(2) g other Inr
      by (auto simp: Win32_enter_def win32_defs same_objects_def semaphore_name_def Let_def)
  qed
qed

lemma sleep_spec:
  assumes "win32_inv host object_of d" "win32_waiting host object_of sem_count d t"
    "Win32_sleep host t c b d = Some (d', e)"
  shows "win32_inv host object_of d' \<and> e = Awake \<and>
    (\<forall>u. u \<noteq> t \<longrightarrow> win32_waiting host object_of sem_count d u \<longrightarrow> win32_waiting host object_of sem_count d' u)"
proof -
  let ?n = "semaphore_name host (get_id host t) d" and ?k = "cv_kernel d"
  have o: "object_of ?k (local_semaphore d t) = Some ?n" using assms(2) by (simp add: win32_waiting_def)
  obtain k s where k: "WaitForSemaphore host (local_semaphore d t) (sleep_millis c) b ?k = Some (k, s)"
    using assms(3) by (auto simp: Win32_sleep_def split: option.splits)
  have s: "object_of k = object_of ?k" "\<And>m. m \<noteq> ?n \<Longrightarrow> sem_count k m = sem_count ?k m"
    using wait_signalled [OF o, of "sleep_millis c" b] wait_empty [OF o, of "sleep_millis c" b] k
    by (cases "sem_count ?k ?n = 0"; auto split: if_splits)+
  have other: "semaphore_name host (get_id host u) d \<noteq> ?n" if "u \<noteq> t" for u
    using that by (simp add: name_eq ids)
  show ?thesis
    using assms k s other by (auto simp: Win32_sleep_def win32_defs semaphore_name_def)
qed

lemma end_spec:
  assumes "win32_inv host object_of d" "Win32_end host t c d = (d', l)"
  shows "win32_inv host object_of d' \<and> l \<noteq> Sleep_Again \<and>
    (\<forall>u. u \<noteq> t \<longrightarrow> win32_waiting host object_of sem_count d u \<longrightarrow> win32_waiting host object_of sem_count d' u)"
proof -
  obtain b q where q: "Remove (threadQueue d) (get_id host t) = Inr (b, q)" "queue_inv q"
    "set (queue_list (threadQueue d)) - {get_id host t} \<subseteq> set (queue_list q)"
    using Remove_result [of "threadQueue d" "get_id host t"] assms(1) by (auto simp: win32_inv_def)
  have "d' = d \<or> d' = d\<lparr>threadQueue := q\<rparr>" "l \<noteq> Sleep_Again"
    using assms(2) q(1)
    by (cases c; auto simp: Win32_Wait_end_def Win32_WaitFor_end_def wait_failed_def split: if_splits)+
  moreover have "get_id host u \<in> set (queue_list q)"
    if "u \<noteq> t" "get_id host u \<in> set (queue_list (threadQueue d))" for u
    using that q(3) ids by blast
  ultimately show ?thesis
    using assms(1) q(2) by (auto simp: win32_defs semaphore_name_def)
qed

lemma wakes:
  assumes "win32_waiting host object_of sem_count d t" "win32_signalled host sem_count d t"
  shows "\<exists>d'. Win32_sleep host t c b d = Some (d', Awake)"
  using wait_signalled [of "cv_kernel d" "local_semaphore d t" _ "sleep_millis c" b] assms
  by (fastforce simp: win32_waiting_def win32_signalled_def Win32_sleep_def)

text \<open>A thread that waits and is not signalled: what its sleep does when the time has elapsed or not.\<close>

lemma sleep_unsignalled:
  assumes "win32_waiting host object_of sem_count d t" "\<not> win32_signalled host sem_count d t"
  shows "Win32_sleep host t c b d =
    (if sleep_millis c = 0 \<or> b \<and> sleep_millis c \<noteq> INFINITE
     then Some (d\<lparr>local_result := (local_result d)(t := WAIT_TIMEOUT)\<rparr>, Awake) else None)"
  using wait_empty [of "cv_kernel d" "local_semaphore d t" _ "sleep_millis c" b] assms
  by (fastforce simp: win32_waiting_def win32_signalled_def Win32_sleep_def)

text \<open>With a full queue a wait ends at once, with an exception.\<close>

lemma enter_full:
  assumes "win32_inv host object_of d" "\<not> length (queue_list (threadQueue d)) < unat (Size (threadQueue d))"
  shows "\<exists>d'. Win32_enter host t d = (d', Inl (runtime_error ''no space available'')) \<and>
    threadQueue d' = threadQueue d"
proof -
  have "queue_inv (threadQueue d)" using assms(1) by (simp add: win32_inv_def)
  then show ?thesis
    using GetSemaphore_spec [OF assms(1), of "fst t" "get_id host t"] PushBack_full [OF _ assms(2)]
    by (auto simp: Win32_enter_def Let_def)
qed

text \<open>One wait of a thread that is alone and times out leaves its id in the queue.\<close>

lemma timed_out_wait:
  assumes "win32_inv host object_of (data S)" "\<not> win32_signalled host sem_count (data S) t"
    "point S t = Inside" "user_mutex S = Some t" "queue_mutex S = None"
    "word_of_int ms \<noteq> INFINITE" "length (queue_list (threadQueue (data S))) < unat (Size (threadQueue (data S)))"
  shows "\<exists>S'. cv_run (win32_ops host)
      [Call t (CV_WaitFor ms), Section t, Wake t True, Take_Queue t, Take_User t] S = Some S' \<and>
    win32_inv host object_of (data S') \<and> \<not> win32_signalled host sem_count (data S') t \<and>
    point S' t = Inside \<and> user_mutex S' = Some t \<and> queue_mutex S' = None \<and>
    returned S' t = Some (Inr (Some timeout)) \<and>
    queue_list (threadQueue (data S')) = queue_list (threadQueue (data S)) @ [get_id host t] \<and>
    Size (threadQueue (data S')) = Size (threadQueue (data S))"
proof -
  let ?d = "data S" and ?i = "get_id host t"
  obtain d1 h where
    g: "GetSemaphore host (fst t) ?i ?d = (d1, Inr h)" "win32_inv host object_of d1" "threadQueue d1 = threadQueue ?d"
      "same_objects object_of ?d d1" "object_of (cv_kernel d1) h = Some (semaphore_name host ?i ?d)"
    using GetSemaphore_spec [OF assms(1), of "fst t" ?i] by blast
  obtain q where q: "PushBack (threadQueue ?d) ?i = Inr q" "queue_inv q"
    "queue_list q = queue_list (threadQueue ?d) @ [?i]" "Size q = Size (threadQueue ?d)"
    using PushBack_space [OF _ assms(7), of ?i] assms(1) by (auto simp: win32_inv_def)
  define d2 where "d2 = d1\<lparr>local_semaphore := (local_semaphore d1)(t := h), threadQueue := q\<rparr>"
  have e: "Win32_enter host t ?d = (d2, Inr ())"
    using g(1,3) q(1) by (simp add: Win32_enter_def d2_def)
  have n: "semaphore_name host j d2 = semaphore_name host j ?d" for j
    using same_objects_name [OF g(4)] by (simp add: d2_def semaphore_name_def)
  have w: "win32_waiting host object_of sem_count d2 t" "win32_inv host object_of d2"
    using enter_spec [OF assms(1) e] by blast+
  have ns: "\<not> win32_signalled host sem_count d2 t"
    using GetSemaphore_lowers [OF assms(1) g(1), of "semaphore_name host ?i ?d"] assms(2)
    by (simp add: win32_signalled_def n) (simp add: d2_def)
  let ?d3 = "d2\<lparr>local_result := (local_result d2)(t := WAIT_TIMEOUT)\<rparr>"
  have s: "Win32_sleep host t (CV_WaitFor ms) True d2 = Some (?d3, Awake)"
    using sleep_unsignalled [OF w(1) ns] assms(6) by simp
  have "win32_inv host object_of ?d3 \<and> \<not> win32_signalled host sem_count ?d3 t \<and> threadQueue ?d3 = q"
    using w(2) ns by (simp add: win32_inv_def win32_signalled_def semaphore_name_def d2_def)
  then show ?thesis
    using assms(3-5) e s q
    by (simp add: move_simps win32_ops_def Win32_WaitFor_def Win32_WaitFor_end_def)
qed

lemma win32_wakeup:
  "wakeup (win32_ops host) (win32_inv host object_of) (win32_waiting host object_of sem_count)
     (win32_queued host) (win32_signalled host sem_count)"
proof (unfold_locales, goal_cases)
  case (1 d c t d' r)
  then show ?case using enter_spec begin_eq by (simp add: win32_ops_def)
next
  case (2 d t c b d' e)
  then show ?case using sleep_spec [of d t c b d' e] by (auto simp: win32_ops_def)
next
  case (3 d t c d' l)
  then show ?case using end_spec [of d t c d' l] by (auto simp: win32_ops_def)
next
  case (4 d c t d' r)
  then show ?case
    using NotifyOne_spec [of d t] NotifyAll_spec [of d t]
    by (auto simp: win32_ops_def op_notify_def Win32_NotifyOne_def Win32_NotifyAll_def split: if_splits)
next
  case (6 d t d' u)
  then show ?case
    using NotifyAll_spec [of d t] by (auto simp: win32_ops_def Win32_NotifyAll_def win32_queued_def)
next
  case (7 d t c b)
  then show ?case using wakes by (simp add: win32_ops_def)
qed (simp add: win32_waiting_def)

lemma NotifyAll_returns:
  assumes "win32_inv host object_of (data S)" "point S u = Calling CV_NotifyAll held"
    "cv_step (win32_ops host) (Section u) S = Some S'"
  shows "returned S' u = Some (Inr None)"
proof -
  obtain d' where "Win32_Condition_NotifyAll host u (data S) = (d', Inr ())"
    using NotifyAll_spec [OF assms(1)] by blast
  moreover have "queue_mutex S = None" using assms(2,3) by (cases "queue_mutex S") auto
  ultimately show ?thesis using assms(2,3) by (auto simp: move_simps win32_ops_def Win32_NotifyAll_def)
qed

text \<open>
  A thread times out and calls \<open>NotifyOne\<close>, with its own id still at the front of the queue: the
  semaphore of no other thread changes.
\<close>

lemma timeout_then_notify:
  assumes inv: "win32_inv host object_of (data S)"
    and w: "win32_waiting host object_of sem_count (data S) t" "win32_waiting host object_of sem_count (data S) u"
    and s: "\<not> win32_signalled host sem_count (data S) t" "\<not> win32_signalled host sem_count (data S) u"
    and p: "point S t = Sleeping (CV_WaitFor ms)" "point S u = Sleeping CV_Wait"
      "user_mutex S = None" "queue_mutex S = None" "word_of_int ms \<noteq> INFINITE"
    and q: "queue_list (threadQueue (data S)) = get_id host t # ids"
  shows "\<exists>S'. cv_run (win32_ops host)
      [Wake t True, Take_Queue t, Take_User t, Call t CV_NotifyOne, Section t] S = Some S' \<and>
    returned S' t = Some (Inr None) \<and> point S' u = Sleeping CV_Wait \<and>
    cv_step (win32_ops host) (Wake u False) S' = None"
proof -
  let ?d = "(data S)\<lparr>local_result := (local_result (data S))(t := WAIT_TIMEOUT)\<rparr>"
  have ne: "u \<noteq> t" using p(1,2) by auto
  have sl: "Win32_sleep host t (CV_WaitFor ms) True (data S) = Some (?d, Awake)"
    using sleep_unsignalled [OF w(1) s(1)] p(5) by simp
  have nm: "semaphore_name host j ?d = semaphore_name host j (data S)" for j by (simp add: semaphore_name_def)
  have inv': "win32_inv host object_of ?d" using inv by (simp add: win32_inv_def nm)
  have q': "queue_list (threadQueue ?d) = get_id host t # ids" using q by simp
  obtain d4 where d4: "notify_front host (fst t) ?d = (d4, Inr ())" "same_objects object_of ?d d4"
    "\<And>n. n \<noteq> semaphore_name host (get_id host t) ?d \<Longrightarrow> sem_count (cv_kernel d4) n = sem_count (cv_kernel ?d) n"
    using notify_front_spec [OF inv' q', of "fst t"] by blast
  have "win32_waiting host object_of sem_count ?d u" using w(2) by (simp add: win32_defs nm)
  then have w4: "win32_waiting host object_of sem_count d4 u" using notify_front_waiting [OF inv' q' d4(1)] by blast
  have "semaphore_name host (get_id host u) ?d \<noteq> semaphore_name host (get_id host t) ?d"
    using ne by (simp add: name_eq ids)
  then have s4: "\<not> win32_signalled host sem_count d4 u"
    using d4(3) s(2) same_objects_name [OF d4(2), of host "get_id host u"] by (simp add: win32_signalled_def nm)
  have c: "0 < Count (threadQueue (data S))" using q Count_pos_iff by (metis list.distinct(1))
  show ?thesis
    using p sl d4(1) c ne sleep_unsignalled [OF w4 s4, of CV_Wait False]
    by (simp add: move_simps win32_ops_def Win32_WaitFor_end_def Win32_NotifyOne_def Win32_Condition_NotifyOne_def
        INFINITE_def)
qed

end

text \<open>The queue that the owner of a condition variable makes: 32765 places, all free.\<close>

lemma Win32_thread_queue_fresh:
  assumes "32765 \<le> length (items mem)"
  shows "queue_inv (Win32_thread_queue mem True)" "queue_list (Win32_thread_queue mem True) = []"
    "Size (Win32_thread_queue mem True) = 32765"
proof -
  have s: "queue_size threadQueueSTORAGE_SIZE 4 = 32765"
    by (simp add: queue_size_def threadQueueSTORAGE_SIZE_def)
  show "queue_inv (Win32_thread_queue mem True)" "queue_list (Win32_thread_queue mem True) = []"
    using Queue_ctor_inv [of threadQueueSTORAGE_SIZE 4 mem] assms s
    by (simp_all add: Win32_thread_queue_def threadQueueSTORAGE_SIZE_def)
  show "Size (Win32_thread_queue mem True) = 32765"
    using s by (simp add: Win32_thread_queue_def Queue_ctor_def Size_def)
qed

section \<open>Properties\<close>

subsection \<open>A host\<close>

text \<open>
  Semaphores as the contract has them: a handle is a position in the list of what has been opened, and
  a semaphore is signalled or not. The text of an id is unary.
\<close>

record semaphore_table =
  opened :: "string list"
  up :: "string list"

definition table_object :: "semaphore_table \<Rightarrow> nat \<Rightarrow> string option" where
  "table_object k h = (if h < length (opened k) then Some (opened k ! h) else None)"

definition table_count :: "semaphore_table \<Rightarrow> string \<Rightarrow> nat" where
  "table_count k n = (if n \<in> set (up k) then 1 else 0)"

definition lower :: "nat \<Rightarrow> semaphore_table \<Rightarrow> semaphore_table" where
  "lower h k = k\<lparr>up := filter (\<lambda>n. n \<noteq> opened k ! h) (up k)\<rparr>"

definition semaphore_host :: "semaphore_table win32_host" where
  "semaphore_host =
     \<lparr>CreateSemaphoreA = (\<lambda>n k. (k\<lparr>opened := opened k @ [n]\<rparr>, Some (length (opened k)))),
      ReleaseSemaphore = (\<lambda>h k.
        (k\<lparr>up := List.insert (opened k ! h) (up k)\<rparr>, opened k ! h \<notin> set (up k))),
      TestSemaphore = (\<lambda>h k.
        (lower h k, if opened k ! h \<in> set (up k) then WAIT_OBJECT_0 else WAIT_TIMEOUT)),
      WaitForSemaphore = (\<lambda>h ms elapsed k.
        if opened k ! h \<in> set (up k) then Some (lower h k, WAIT_OBJECT_0)
        else if ms = 0 \<or> elapsed \<and> ms \<noteq> INFINITE then Some (k, WAIT_TIMEOUT) else None),
      SemaphoreError = (\<lambda>k. 0),
      get_id = prod_encode, show_id = (\<lambda>i. replicate i CHR ''I'')\<rparr>"

interpretation sh: win32_semaphores semaphore_host table_object table_count
proof (unfold_locales, goal_cases)
  case (4 k h n ms e)
  then show ?case
    by (auto simp: semaphore_host_def table_object_def table_count_def lower_def split: if_splits)
next
  case (7 i j)
  then show ?case by (auto simp: semaphore_host_def replicate_eq_replicate)
qed (auto simp: semaphore_host_def table_object_def table_count_def lower_def nth_append fun_eq_iff
  split: if_splits)

interpretation sw: wakeup "win32_ops semaphore_host" "win32_inv semaphore_host table_object"
  "win32_waiting semaphore_host table_object table_count" "win32_queued semaphore_host"
  "win32_signalled semaphore_host table_count"
  by (rule sh.win32_wakeup)

subsection \<open>Wake-ups\<close>

text \<open>
  No sleeping thread is forgotten: its id is in the queue, or its semaphore is signalled. And after
  any \<open>NotifyAll\<close> every sleeping thread can wake up.
\<close>

theorem Win32_no_lost_wakeup:
  assumes "win32_semaphores host object_of sem_count" "win32_inv host object_of d"
    "cv_reachable (win32_ops host) d S"
  shows "(point S t = Sleeping c \<longrightarrow>
      win32_queued host (data S) t \<or> win32_signalled host sem_count (data S) t) \<and>
    (\<forall>u S'. point S u = Calling CV_NotifyAll held \<and> cv_step (win32_ops host) (Section u) S = Some S' \<and>
       point S' t = Sleeping c \<longrightarrow>
       (\<exists>S''. cv_step (win32_ops host) (Wake t False) S' = Some S'' \<and> point S'' t = Woken c))"
proof -
  note w = win32_semaphores.win32_wakeup [OF assms(1)]
  note s = sleepers.all_waiting_reachable [OF wakeup.axioms(1) [OF w] assms(3,2)]
  show ?thesis
    using wakeup.sleeper_not_forgotten [OF w s] wakeup.notify_all_wakes_sleepers [OF w s]
      win32_semaphores.NotifyAll_returns [OF assms(1) sleepers.all_waitingD(1) [OF wakeup.axioms(1) [OF w] s]]
    by blast
qed

definition small_cv :: "semaphore_table win32_cv" where
  "small_cv =
     \<lparr>semaphores = (\<lambda>p i. None),
      threadQueue = \<lparr>memory = \<lparr>readPosition = 0, writePosition = 0, itemCount = 0, items = [0, 0, 0]\<rparr>, qsize = 3\<rparr>,
      cv_name = ''cv'', cv_kernel = \<lparr>opened = [], up = []\<rparr>, local_semaphore = (\<lambda>t. 0),
      local_result = (\<lambda>t. WAIT_OBJECT_0)\<rparr>"

lemma small_cv_inv: "win32_inv semaphore_host table_object small_cv"
  by (simp add: win32_inv_def small_cv_def queue_inv_def Let_def)

text \<open>The thread (1, 1) goes to sleep.\<close>

definition one_sleeps :: "cv_move list" where
  "one_sleeps = [Lock_User (1, 1), Call (1, 1) CV_Wait, Section (1, 1)]"

definition runs_to :: "cv_move list \<Rightarrow> (semaphore_table win32_cv cv_system \<Rightarrow> bool) \<Rightarrow> bool" where
  "runs_to ms P =
     (case cv_run (win32_ops semaphore_host) ms (cv_start small_cv) of None \<Rightarrow> False | Some S \<Rightarrow> P S)"

lemma runs_toE:
  assumes "runs_to ms P"
  obtains S where "cv_reachable (win32_ops semaphore_host) small_cv S" "P S"
    "cv_run (win32_ops semaphore_host) ms (cv_start small_cv) = Some S"
  using assms cv_run_reachable [OF _ cv_init, of "win32_ops semaphore_host" ms small_cv]
  by (auto simp: runs_to_def split: option.splits)

theorem Win32_no_lost_wakeup_witness:
  "\<exists>S. cv_run (win32_ops semaphore_host) (one_sleeps @ [Call (2, 1) CV_NotifyAll, Section (2, 1)])
      (cv_start small_cv) = Some S \<and>
    (win32_queued semaphore_host (data S) (1, 1) \<or>
     win32_signalled semaphore_host table_count (data S) (1, 1))"
proof -
  have "runs_to (one_sleeps @ [Call (2, 1) CV_NotifyAll, Section (2, 1)])
      (\<lambda>S. point S (1, 1) = Sleeping CV_Wait)"
    by code_simp
  then show ?thesis
  proof (rule runs_toE)
    fix S assume "cv_reachable (win32_ops semaphore_host) small_cv S" "point S (1, 1) = Sleeping CV_Wait"
      "cv_run (win32_ops semaphore_host) (one_sleeps @ [Call (2, 1) CV_NotifyAll, Section (2, 1)])
        (cv_start small_cv) = Some S"
    then show ?thesis
      using Win32_no_lost_wakeup [OF sh.win32_semaphores_axioms small_cv_inv] by blast
  qed
qed

text \<open>
  C24. The order of the two mutexes: a thread that was signalled locks the mutex of the queue and then
  the one of the user; a thread that holds the mutex of the user and calls the condition variable locks
  them the other way round. Whenever a signalled thread sleeps and another is inside, three moves
  bring both into a deadlock that no further move of any thread ends.
\<close>

theorem Win32_lock_order_deadlock:
  assumes "win32_semaphores host object_of sem_count" "win32_inv host object_of d"
    "cv_reachable (win32_ops host) d S" "point S t = Sleeping c" "win32_signalled host sem_count (data S) t"
    "point S u = Inside" "queue_mutex S = None"
  shows "\<exists>S'. cv_run (win32_ops host) [Wake t False, Take_Queue t, Call u c'] S = Some S' \<and>
    (\<forall>ms S''. cv_run (win32_ops host) ms S' = Some S'' \<longrightarrow>
       point S'' t = Relocking c \<and> point S'' u = Calling c' True)"
  by (rule wakeup.lock_order_deadlock [OF win32_semaphores.win32_wakeup [OF assms(1)] assms(3,2,4-7)])

text \<open>The thread (2, 1) notifies while it is inside, and is about to call the condition variable again.\<close>

definition notified_inside :: "cv_move list" where
  "notified_inside = one_sleeps @ [Lock_User (2, 1), Call (2, 1) CV_NotifyOne, Section (2, 1)]"

theorem Win32_lock_order_deadlock_witness:
  "\<exists>S S'. cv_run (win32_ops semaphore_host) notified_inside (cv_start small_cv) = Some S \<and>
    cv_run (win32_ops semaphore_host) [Wake (1, 1) False, Take_Queue (1, 1), Call (2, 1) CV_Wait] S = Some S' \<and>
    (\<forall>ms S''. cv_run (win32_ops semaphore_host) ms S' = Some S'' \<longrightarrow>
       point S'' (1, 1) = Relocking CV_Wait \<and> point S'' (2, 1) = Calling CV_Wait True)"
proof -
  have "runs_to notified_inside (\<lambda>S. point S (1, 1) = Sleeping CV_Wait \<and> point S (2, 1) = Inside \<and>
      queue_mutex S = None \<and> win32_signalled semaphore_host table_count (data S) (1, 1))"
    by code_simp
  then show ?thesis
  proof (rule runs_toE)
    fix S
    assume r: "cv_reachable (win32_ops semaphore_host) small_cv S"
      and "point S (1, 1) = Sleeping CV_Wait \<and> point S (2, 1) = Inside \<and> queue_mutex S = None \<and>
        win32_signalled semaphore_host table_count (data S) (1, 1)"
      and run: "cv_run (win32_ops semaphore_host) notified_inside (cv_start small_cv) = Some S"
    then have p: "point S (1, 1) = Sleeping CV_Wait" "point S (2, 1) = Inside" "queue_mutex S = None"
      "win32_signalled semaphore_host table_count (data S) (1, 1)" by simp_all
    obtain S' where
      "cv_run (win32_ops semaphore_host) [Wake (1, 1) False, Take_Queue (1, 1), Call (2, 1) CV_Wait] S = Some S' \<and>
       (\<forall>ms S''. cv_run (win32_ops semaphore_host) ms S' = Some S'' \<longrightarrow>
          point S'' (1, 1) = Relocking CV_Wait \<and> point S'' (2, 1) = Calling CV_Wait True)"
      using Win32_lock_order_deadlock [OF sh.win32_semaphores_axioms small_cv_inv r p(1) p(4) p(2,3), of CV_Wait]
      by (elim exE) rule
    then show ?thesis using run by (intro exI [of _ S] exI [of _ S'] conjI) auto
  qed
qed

subsection \<open>Timeouts\<close>

text \<open>
  A wait that times out leaves its id in the queue, and the next notification is for that id: a
  thread that times out and then calls \<open>NotifyOne\<close> notifies itself, and the thread that sleeps behind it
  in the queue sleeps on.
\<close>

theorem Win32_timeout_takes_a_notification:
  assumes "win32_semaphores host object_of sem_count" "win32_inv host object_of d"
    "cv_reachable (win32_ops host) d S"
    "point S t = Sleeping (CV_WaitFor ms)" "\<not> win32_signalled host sem_count (data S) t"
    "queue_list (threadQueue (data S)) = get_id host t # ids"
    "point S u = Sleeping CV_Wait" "\<not> win32_signalled host sem_count (data S) u"
    "user_mutex S = None" "queue_mutex S = None" "word_of_int ms \<noteq> INFINITE"
  shows "\<exists>S'. cv_run (win32_ops host)
      [Wake t True, Take_Queue t, Take_User t, Call t CV_NotifyOne, Section t] S = Some S' \<and>
    returned S' t = Some (Inr None) \<and> point S' u = Sleeping CV_Wait \<and>
    cv_step (win32_ops host) (Wake u False) S' = None"
proof -
  note s = wakeup.axioms(1) [OF win32_semaphores.win32_wakeup [OF assms(1)]]
  note w = sleepers.all_waiting_reachable [OF s assms(3,2)]
  note d = sleepers.all_waitingD [OF s w]
  show ?thesis
    using win32_semaphores.timeout_then_notify [OF assms(1), of S t u ms ids] d assms(4-11) by blast
qed

theorem Win32_timeout_takes_a_notification_witness:
  "\<exists>S S'. cv_run (win32_ops semaphore_host)
      ([Lock_User (2, 1), Call (2, 1) (CV_WaitFor 10), Section (2, 1)] @ one_sleeps) (cv_start small_cv) = Some S \<and>
    cv_run (win32_ops semaphore_host)
      [Wake (2, 1) True, Take_Queue (2, 1), Take_User (2, 1), Call (2, 1) CV_NotifyOne, Section (2, 1)] S = Some S' \<and>
    returned S' (2, 1) = Some (Inr None) \<and> cv_step (win32_ops semaphore_host) (Wake (1, 1) False) S' = None"
proof -
  let ?ms = "[Lock_User (2, 1), Call (2, 1) (CV_WaitFor 10), Section (2, 1)] @ one_sleeps"
  let ?P = "\<lambda>S. point S (2, 1) = Sleeping (CV_WaitFor 10) \<and>
      \<not> win32_signalled semaphore_host table_count (data S) (2, 1) \<and>
      queue_list (threadQueue (data S)) = [get_id semaphore_host (2, 1), get_id semaphore_host (1, 1)] \<and>
      point S (1, 1) = Sleeping CV_Wait \<and> \<not> win32_signalled semaphore_host table_count (data S) (1, 1) \<and>
      user_mutex S = None \<and> queue_mutex S = None"
  have "runs_to ?ms ?P"
    by code_simp
  then show ?thesis
  proof (rule runs_toE)
    fix S
    assume r: "cv_reachable (win32_ops semaphore_host) small_cv S" and "?P S"
      and run: "cv_run (win32_ops semaphore_host) ?ms (cv_start small_cv) = Some S"
    then have p: "point S (2, 1) = Sleeping (CV_WaitFor 10)"
      "\<not> win32_signalled semaphore_host table_count (data S) (2, 1)"
      "queue_list (threadQueue (data S)) = get_id semaphore_host (2, 1) # [get_id semaphore_host (1, 1)]"
      "point S (1, 1) = Sleeping CV_Wait" "\<not> win32_signalled semaphore_host table_count (data S) (1, 1)"
      "user_mutex S = None" "queue_mutex S = None"
      by simp_all
    have m: "(word_of_int 10 :: u32) \<noteq> INFINITE" by (simp add: INFINITE_def)
    obtain S' where
      "cv_run (win32_ops semaphore_host)
        [Wake (2, 1) True, Take_Queue (2, 1), Take_User (2, 1), Call (2, 1) CV_NotifyOne, Section (2, 1)] S = Some S' \<and>
       returned S' (2, 1) = Some (Inr None) \<and> point S' (1, 1) = Sleeping CV_Wait \<and>
       cv_step (win32_ops semaphore_host) (Wake (1, 1) False) S' = None"
      using Win32_timeout_takes_a_notification [OF sh.win32_semaphores_axioms small_cv_inv r p m]
      by (elim exE) rule
    then show ?thesis using run by (intro exI [of _ S] exI [of _ S'] conjI) auto
  qed
qed

text \<open>The moves of a wait that times out.\<close>

definition times_out :: "thread \<Rightarrow> int \<Rightarrow> cv_move list" where
  "times_out t ms = [Call t (CV_WaitFor ms), Section t, Wake t True, Take_Queue t, Take_User t]"

text \<open>
  Every wait that times out uses up a place of the queue. When \<open>n\<close> such waits have filled it, every
  further wait throws, until somebody notifies.
\<close>

theorem Win32_timeouts_fill_the_queue:
  assumes "win32_semaphores host object_of sem_count" "win32_inv host object_of (data S)"
    "\<not> win32_signalled host sem_count (data S) t"
    "point S t = Inside" "user_mutex S = Some t" "queue_mutex S = None" "word_of_int ms \<noteq> INFINITE"
    "length (queue_list (threadQueue (data S))) + n = unat (Size (threadQueue (data S)))" "is_wait c"
  shows "\<exists>S'. cv_run (win32_ops host) (concat (replicate n (times_out t ms)) @ [Call t c, Section t]) S = Some S' \<and>
    queue_list (threadQueue (data S')) = queue_list (threadQueue (data S)) @ replicate n (get_id host t) \<and>
    returned S' t = Some (Inl (runtime_error ''no space available''))"
  using assms(2-6,8)
proof (induction n arbitrary: S)
  case 0
  let ?d = "data S"
  have full: "\<not> length (queue_list (threadQueue ?d)) < unat (Size (threadQueue ?d))" using 0(6) by linarith
  obtain d' where "Win32_enter host t ?d = (d', Inl (runtime_error ''no space available''))"
    "threadQueue d' = threadQueue ?d"
    using win32_semaphores.enter_full [OF assms(1) 0(1) full, of t] by blast
  then show ?case
    using 0 assms(9) win32_semaphores.begin_eq [OF assms(1,9)] by (simp add: move_simps win32_ops_def)
next
  case (Suc n)
  then have "length (queue_list (threadQueue (data S))) < unat (Size (threadQueue (data S)))" by simp
  then obtain S1 where S1: "cv_run (win32_ops host)
      (times_out t ms) S = Some S1"
    "win32_inv host object_of (data S1)" "\<not> win32_signalled host sem_count (data S1) t"
    "point S1 t = Inside" "user_mutex S1 = Some t" "queue_mutex S1 = None"
    "queue_list (threadQueue (data S1)) = queue_list (threadQueue (data S)) @ [get_id host t]"
    "Size (threadQueue (data S1)) = Size (threadQueue (data S))"
    using win32_semaphores.timed_out_wait [OF assms(1) Suc.prems(1-5) assms(7)] unfolding times_out_def by blast
  have "length (queue_list (threadQueue (data S1))) + n = unat (Size (threadQueue (data S1)))"
    using S1(7,8) Suc.prems(6) by simp
  from Suc.IH [OF S1(2-6) this] show ?case using S1(1,7) by (simp add: cv_run_append)
qed

theorem Win32_timeouts_fill_the_queue_witness:
  "\<exists>S S'. cv_run (win32_ops semaphore_host) [Lock_User (1, 1)] (cv_start small_cv) = Some S \<and>
    cv_run (win32_ops semaphore_host) (concat (replicate 3 (times_out (1, 1) 10)) @
      [Call (1, 1) CV_Wait, Section (1, 1)]) S = Some S' \<and>
    returned S' (1, 1) = Some (Inl (runtime_error ''no space available''))"
proof -
  define S where "S = go (1, 1) Inside (cv_start small_cv\<lparr>user_mutex := Some (1, 1)\<rparr>)"
  have run: "cv_run (win32_ops semaphore_host) [Lock_User (1, 1)] (cv_start small_cv) = Some S"
    by (simp add: S_def cv_start_def)
  have i: "win32_inv semaphore_host table_object (data S)" using small_cv_inv by (simp add: S_def cv_start_def go_def)
  have s: "\<not> win32_signalled semaphore_host table_count (data S) (1, 1)"
    by (simp add: S_def cv_start_def go_def small_cv_def win32_signalled_def table_count_def)
  have p: "point S (1, 1) = Inside" "user_mutex S = Some (1, 1)" "queue_mutex S = None"
    by (simp_all add: S_def cv_start_def go_def)
  have m: "(word_of_int 10 :: u32) \<noteq> INFINITE" by (simp add: INFINITE_def)
  have n: "length (queue_list (threadQueue (data S))) + 3 = unat (Size (threadQueue (data S)))"
    by (simp add: S_def cv_start_def go_def small_cv_def Count_def Size_def)
  have c: "is_wait CV_Wait" by simp
  show ?thesis
    using Win32_timeouts_fill_the_queue [OF sh.win32_semaphores_axioms i s p m n c] run by blast
qed

text \<open>
  The timeout is cast to 32 bits. A wait whose number of milliseconds is -1 modulo \<open>2 ^ 32\<close>, such as
  the one for -1 milliseconds, never times out, and one whose number is a multiple of \<open>2 ^ 32\<close> does not
  sleep at all; every other wait sleeps until it is signalled or the time has elapsed.
\<close>

theorem Win32_timeout_wraps:
  assumes "win32_semaphores host object_of sem_count" "win32_waiting host object_of sem_count d t"
    "\<not> win32_signalled host sem_count d t"
  shows "(Win32_sleep host t (CV_WaitFor ms) True d = None \<longleftrightarrow> ms mod 2 ^ 32 = 2 ^ 32 - 1) \<and>
    (Win32_sleep host t (CV_WaitFor ms) False d = None \<longleftrightarrow> ms mod 2 ^ 32 \<noteq> 0)"
proof -
  have u: "uint (word_of_int ms :: u32) = ms mod 2 ^ 32" by (simp add: uint_word_of_int)
  have "uint INFINITE = 2 ^ 32 - 1" by (simp add: INFINITE_def)
  then have "(word_of_int ms :: u32) = INFINITE \<longleftrightarrow> ms mod 2 ^ 32 = 2 ^ 32 - 1"
    using u by (metis word_eq_iff_unsigned)
  moreover have "(word_of_int ms :: u32) = 0 \<longleftrightarrow> ms mod 2 ^ 32 = 0"
    using u by (metis word_eq_iff_unsigned unsigned_0)
  ultimately show ?thesis
    using win32_semaphores.sleep_unsignalled [OF assms, of "CV_WaitFor ms"] by auto
qed

theorem Win32_timeout_wraps_witness:
  "\<exists>S. cv_run (win32_ops semaphore_host) one_sleeps (cv_start small_cv) = Some S \<and>
    Win32_sleep semaphore_host (1, 1) (CV_WaitFor (-1)) True (data S) = None"
proof -
  have "runs_to one_sleeps (\<lambda>S. point S (1, 1) = Sleeping CV_Wait \<and>
      \<not> win32_signalled semaphore_host table_count (data S) (1, 1))"
    by code_simp
  then show ?thesis
  proof (rule runs_toE)
    fix S
    assume r: "cv_reachable (win32_ops semaphore_host) small_cv S"
      and p: "point S (1, 1) = Sleeping CV_Wait \<and> \<not> win32_signalled semaphore_host table_count (data S) (1, 1)"
      and run: "cv_run (win32_ops semaphore_host) one_sleeps (cv_start small_cv) = Some S"
    have "win32_waiting semaphore_host table_object table_count (data S) (1, 1)"
      using sw.all_waitingD(2) [OF sw.all_waiting_reachable [OF r small_cv_inv]] p by blast
    then show ?thesis
      using Win32_timeout_wraps [OF sh.win32_semaphores_axioms, of "data S" "(1, 1)" "-1"] p run by auto
  qed
qed

end
