(* ===== verification/Win32_Thread_Death.thy ===== *)
theory Win32_Thread_Death
  imports Win32_Condition
begin

text \<open>
  Threads that end while they hold a mutex of the condition variable on Windows, or sleep on it. The
  mutexes are robust (\<open>Win32_Mutex\<close>): what a dead thread held, the next one gets. What the thread left in
  the queue stays there.
\<close>

section \<open>The death of a thread\<close>

text \<open>
  A thread that ends between two moves, wherever it is, abandons its mutexes. Afterwards it counts as
  outside; that it may then move again (its id is free for a new thread) only allows more runs. A
  process that ends is one death for each of its threads.
\<close>

definition thread_dies :: "thread \<Rightarrow> 'd cv_system \<Rightarrow> 'd cv_system" where
  "thread_dies t S = S
     \<lparr>point := (point S)(t := Outside),
      user_mutex := (if user_mutex S = Some t then None else user_mutex S),
      queue_mutex := (if queue_mutex S = Some t then None else queue_mutex S)\<rparr>"

text \<open>The moves, and the deaths of the threads of a set.\<close>

inductive mortal_step :: "'d cv_ops \<Rightarrow> thread set \<Rightarrow> 'd cv_system \<Rightarrow> 'd cv_system \<Rightarrow> bool" for ops X where
  moves: "cv_step ops m S = Some S' \<Longrightarrow> mortal_step ops X S S'"
| dies: "t \<in> X \<Longrightarrow> mortal_step ops X S (thread_dies t S)"

text \<open>
  \<open>NotifyOne\<close> up to the call of \<open>GetSemaphore\<close>: the id has left the queue, and the semaphore is not
  released yet.
\<close>

definition Win32_notify_cut :: "'s win32_cv \<Rightarrow> 's win32_cv option" where
  "Win32_notify_cut d =
     (if 0 < Count (threadQueue d)
      then (case take_waiter (threadQueue d) of
              Inl e \<Rightarrow> None
            | Inr (i, q) \<Rightarrow> Some (d\<lparr>threadQueue := q\<rparr>))
      else None)"

lemma thread_dies_sel [simp]:
  "data (thread_dies t S) = data S" "point (thread_dies t S) = (point S)(t := Outside)"
  "queue_mutex S = None \<Longrightarrow> queue_mutex (thread_dies t S) = None"
  by (simp_all add: thread_dies_def)

context sleepers
begin

lemma all_waiting_dies: "all_waiting S \<Longrightarrow> all_waiting (thread_dies t S)"
  by (auto simp: all_waiting_def)

lemma all_waiting_mortal:
  assumes "(mortal_step ops X)\<^sup>*\<^sup>* S S'" "all_waiting S"
  shows "all_waiting S'"
  using assms
proof (induction rule: rtranclp_induct)
  case (step S1 S2)
  then have w: "all_waiting S1" by blast
  from step(2) show ?case by cases (use w all_waiting_step all_waiting_dies in blast)+
qed

lemma all_waiting_start: "inv d \<Longrightarrow> all_waiting (cv_start d)"
  by (simp add: all_waiting_def cv_start_def)

lemmas all_waiting_deaths = all_waiting_mortal [OF _ all_waiting_start]

end

section \<open>Sleeping threads that nobody knows of\<close>

text \<open>\<open>own\<close>: a thread sleeps on the semaphore of its id. \<open>lost\<close>: and its id is not in the queue, and no one has released the semaphore.\<close>

definition own ::
  "'s win32_host \<Rightarrow> ('s \<Rightarrow> nat \<Rightarrow> string option) \<Rightarrow> 's win32_cv \<Rightarrow> thread \<Rightarrow> bool"
where
  "own host object_of d t \<longleftrightarrow>
     object_of (cv_kernel d) (local_semaphore d t) = Some (semaphore_name host (get_id host t) d)"

definition lost ::
  "'s win32_host \<Rightarrow> ('s \<Rightarrow> nat \<Rightarrow> string option) \<Rightarrow> ('s \<Rightarrow> string \<Rightarrow> nat) \<Rightarrow> 's win32_cv \<Rightarrow> thread \<Rightarrow> bool"
where
  "lost host object_of sem_count d t \<longleftrightarrow>
     own host object_of d t \<and> \<not> win32_queued host d t \<and> \<not> win32_signalled host sem_count d t"

lemmas lost_defs = win32_defs own_def lost_def

context win32_semaphores
begin

text \<open>What the critical sections of other threads, and all notifications, keep of a thread.\<close>

definition keeps :: "'s win32_cv \<Rightarrow> 's win32_cv \<Rightarrow> thread \<Rightarrow> bool" where
  "keeps d d' u \<longleftrightarrow> (own host object_of d u \<longrightarrow> own host object_of d' u) \<and>
     (lost host object_of sem_count d u \<longrightarrow> lost host object_of sem_count d' u)"

lemma keepsI:
  assumes "same_objects object_of d d'" "local_semaphore d' u = local_semaphore d u"
    "get_id host u \<in> set (queue_list (threadQueue d')) \<Longrightarrow> get_id host u \<in> set (queue_list (threadQueue d))"
    "get_id host u \<notin> set (queue_list (threadQueue d)) \<Longrightarrow>
      sem_count (cv_kernel d') (semaphore_name host (get_id host u) d) =
      sem_count (cv_kernel d) (semaphore_name host (get_id host u) d)"
  shows "keeps d d' u"
  using assms same_objects_name [OF assms(1)] by (auto simp: keeps_def lost_defs same_objects_def)

lemma keeps_refl: "keeps d d u"
  by (simp add: keeps_def)

lemma keeps_trans: "keeps d d' u \<Longrightarrow> keeps d' d'' u \<Longrightarrow> keeps d d'' u"
  by (simp add: keeps_def)

lemma enter_keeps:
  assumes "win32_inv host object_of d" "Win32_enter host t d = (d', r)" "u \<noteq> t"
  shows "keeps d d' u"
proof -
  let ?i = "get_id host t"
  obtain d1 h where
    g: "GetSemaphore host (fst t) ?i d = (d1, Inr h)" "threadQueue d1 = threadQueue d"
      "local_semaphore d1 = local_semaphore d" "same_objects object_of d d1"
      "\<And>m. m \<noteq> semaphore_name host ?i d \<Longrightarrow> sem_count (cv_kernel d1) m = sem_count (cv_kernel d) m"
    using GetSemaphore_spec [OF assms(1), of "fst t" ?i] by blast
  have i: "get_id host u \<noteq> ?i" using assms(3) ids by simp
  then have other: "semaphore_name host (get_id host u) d \<noteq> semaphore_name host ?i d" by (simp add: name_eq)
  have "set (queue_list q) = insert ?i (set (queue_list (threadQueue d)))"
    if "PushBack (threadQueue d) ?i = Inr q" for q
    using PushBack_result [OF _ that] assms(1) by (simp add: win32_inv_def)
  then show ?thesis
    using assms(2,3) g i other
    by (intro keepsI) (auto simp: Win32_enter_def same_objects_def Let_def split: sum.splits)
qed

lemma sleep_keeps:
  assumes "win32_inv host object_of d" "own host object_of d t" "Win32_sleep host t c b d = Some (d', e)"
  shows "win32_inv host object_of d' \<and> e = Awake \<and> (\<forall>u. u \<noteq> t \<longrightarrow> keeps d d' u)"
proof -
  let ?n = "semaphore_name host (get_id host t) d" and ?k = "cv_kernel d"
  have o: "object_of ?k (local_semaphore d t) = Some ?n" using assms(2) by (simp add: own_def)
  obtain k s where k: "WaitForSemaphore host (local_semaphore d t) (sleep_millis c) b ?k = Some (k, s)"
    using assms(3) by (auto simp: Win32_sleep_def split: option.splits)
  have s: "object_of k = object_of ?k" "\<And>m. m \<noteq> ?n \<Longrightarrow> sem_count k m = sem_count ?k m"
    using wait_signalled [OF o, of "sleep_millis c" b] wait_empty [OF o, of "sleep_millis c" b] k
    by (cases "sem_count ?k ?n = 0"; auto split: if_splits)+
  have d': "d' = d\<lparr>cv_kernel := k, local_result := (local_result d)(t := s)\<rparr>" "e = Awake"
    using assms(3) k by (auto simp: Win32_sleep_def)
  have "semaphore_name host (get_id host u) d \<noteq> ?n" if "u \<noteq> t" for u
    using that by (simp add: name_eq ids)
  then have "keeps d d' u" if "u \<noteq> t" for u
    using that s d' by (intro keepsI) (auto simp: same_objects_def)
  then show ?thesis using assms(1) s d' by (auto simp: win32_inv_def semaphore_name_def)
qed

lemma end_keeps:
  assumes "win32_inv host object_of d" "Win32_end host t c d = (d', l)"
  shows "keeps d d' u"
proof -
  obtain b q where q: "Remove (threadQueue d) (get_id host t) = Inr (b, q)"
    "set (queue_list q) \<subseteq> set (queue_list (threadQueue d))"
    using Remove_result [of "threadQueue d" "get_id host t"] assms(1) by (auto simp: win32_inv_def)
  have "d' = d \<or> d' = d\<lparr>threadQueue := q\<rparr>"
    using assms(2) q(1)
    by (cases c; auto simp: Win32_Wait_end_def Win32_WaitFor_end_def wait_failed_def split: if_splits)
  then show ?thesis using q(2) by (intro keepsI) (auto simp: same_objects_def)
qed

lemma notify_front_keeps:
  assumes "win32_inv host object_of d" "queue_list (threadQueue d) = i # xs" "notify_front host p d = (d', r)"
  shows "keeps d d' u"
  using notify_front_spec [OF assms(1,2), of p] assms(2,3) name_eq by (intro keepsI) auto

lemma NotifyAll_keeps:
  assumes "win32_inv host object_of d" "Win32_Condition_NotifyAll host t d = (d', r)"
  shows "keeps d d' u"
  using assms
proof (induction "length (queue_list (threadQueue d))" arbitrary: d rule: less_induct)
  case less
  show ?case
  proof (cases "queue_list (threadQueue d)")
    case Nil
    then show ?thesis
      using less.prems(2) Count_pos_iff [of "threadQueue d"]
      by (simp add: Win32_Condition_NotifyAll.simps [of host t d] keeps_refl)
  next
    case (Cons i xs)
    then obtain d1 where d1: "notify_front host (fst t) d = (d1, Inr ())" "win32_inv host object_of d1"
      "queue_list (threadQueue d1) = xs"
      using notify_front_spec [OF less.prems(1) Cons, of "fst t"] by blast
    have "0 < Count (threadQueue d)" using Cons Count_pos_iff by (metis list.distinct(1))
    then have "Win32_Condition_NotifyAll host t d1 = (d', r)"
      using less.prems(2) d1(1) by (simp add: Win32_Condition_NotifyAll.simps [of host t d])
    then have "keeps d1 d' u" using less.hyps [OF _ d1(2)] d1(3) Cons by simp
    then show ?thesis using notify_front_keeps [OF less.prems(1) Cons d1(1)] keeps_trans by blast
  qed
qed

lemma NotifyOne_keeps:
  assumes "win32_inv host object_of d" "Win32_Condition_NotifyOne host t d = (d', r)"
  shows "keeps d d' u"
proof (cases "0 < Count (threadQueue d)")
  case True
  then obtain i xs where "queue_list (threadQueue d) = i # xs" by (rule Count_Cons)
  then show ?thesis using notify_front_keeps [OF assms(1)] assms(2) True by (simp add: Win32_Condition_NotifyOne_def)
qed (use assms(2) in \<open>simp add: Win32_Condition_NotifyOne_def keeps_refl\<close>)

lemma notify_keeps:
  assumes "win32_inv host object_of d" "op_notify (win32_ops host) c t d = (d', r)"
  shows "win32_inv host object_of d'" "keeps d d' u"
  using assms NotifyOne_spec [OF assms(1), of t] NotifyAll_spec [OF assms(1), of t]
    NotifyOne_keeps [OF assms(1), of t d' r u] NotifyAll_keeps [OF assms(1), of t d' r u]
  by (auto simp: win32_ops_def op_notify_def Win32_NotifyOne_def Win32_NotifyAll_def split: if_splits)

lemma win32_sleepers:
  "sleepers (win32_ops host) (win32_inv host object_of) (own host object_of)"
proof (unfold_locales, goal_cases)
  case (1 d c t d' r)
  then have e: "Win32_enter host t d = (d', r)" by (simp add: win32_ops_def begin_eq)
  show ?case
    using enter_spec [OF 1(1) e] enter_keeps [OF 1(1) e] by (auto simp: keeps_def win32_waiting_def own_def)
next
  case (2 d t c b d' e)
  then show ?case using sleep_keeps [of d t c b d' e] by (auto simp: win32_ops_def keeps_def)
next
  case (3 d t c d' l)
  then show ?case using end_spec [of d t c d' l] end_keeps [of d t c d' l] by (auto simp: win32_ops_def keeps_def)
next
  case (4 d c t d' r)
  then show ?case using notify_keeps [of d c t d' r] by (auto simp: keeps_def)
qed

lemma lost_sleeps:
  assumes "lost host object_of sem_count d t"
  shows "Win32_sleep host t CV_Wait b d = None"
  using wait_empty [of "cv_kernel d" "local_semaphore d t" _ INFINITE b] assms
  by (fastforce simp: lost_defs Win32_sleep_def INFINITE_def)

text \<open>A lost thread stays lost, whatever the others do.\<close>

lemma lost_step:
  assumes "cv_step (win32_ops host) m S = Some S'"
    "sleepers.all_waiting (win32_inv host object_of) (own host object_of) S"
    "point S t = Sleeping CV_Wait" "lost host object_of sem_count (data S) t"
  shows "point S' t = Sleeping CV_Wait \<and> lost host object_of sem_count (data S') t"
proof -
  note d = sleepers.all_waitingD [OF win32_sleepers assms(2)]
  have kept: "lost host object_of sem_count d t" if "keeps (data S) d t" for d
    using that assms(4) by (simp add: keeps_def)
  show ?thesis
    using assms(1)
  proof (cases rule: cv_step_cases)
    case (Notified v c held d r)
    then show ?thesis
      using assms(3) kept [OF notify_keeps(2) [OF d(1) Notified(4)]] by (auto simp: move_simps)
  next
    case (Refused v c held d e)
    then have "Win32_enter host v (data S) = (d, Inl e)" "t \<noteq> v"
      using assms(3) by (auto simp: win32_ops_def begin_eq)
    then show ?thesis using kept [OF enter_keeps [OF d(1)]] assms(3) Refused(5) by (auto simp: move_simps)
  next
    case (Asleep v c held d)
    then have "Win32_enter host v (data S) = (d, Inr ())" "t \<noteq> v"
      using assms(3) by (auto simp: win32_ops_def begin_eq)
    then show ?thesis using kept [OF enter_keeps [OF d(1)]] assms(3) Asleep(5) by (auto simp: move_simps)
  next
    case (Threw v c b d' e)
    then show ?thesis using sleep_keeps [OF d(1), of v c b d'] d(2) by (auto simp: win32_ops_def)
  next
    case (Awake v c b d')
    then have s: "Win32_sleep host v c b (data S) = Some (d', Awake)" "t \<noteq> v"
      using lost_sleeps [OF assms(4)] assms(3) by (auto simp: win32_ops_def)
    have "own host object_of (data S) v" using d(2) Awake(1) by blast
    then have "keeps (data S) d' t" using sleep_keeps [OF d(1) _ s(1)] s(2) by blast
    then show ?thesis using kept assms(3) Awake(3) s(2) by (auto simp: move_simps)
  next
    case (Still v c b d')
    then show ?thesis using sleep_keeps [OF d(1), of v c b d'] d(2) by (auto simp: win32_ops_def)
  next
    case (Again v c d')
    then show ?thesis using end_spec [OF d(1), of v c d'] by (auto simp: win32_ops_def)
  next
    case (Back v c d' r)
    then have "Win32_end host v c (data S) = (d', Leave r)" "t \<noteq> v"
      using assms(3) by (auto simp: win32_ops_def)
    then show ?thesis using kept [OF end_keeps [OF d(1)]] assms(3) Back(4) by (auto simp: move_simps)
  qed (use assms(3,4) in \<open>auto simp: move_simps\<close>)
qed

lemma lost_forever:
  assumes "(mortal_step (win32_ops host) (- {t}))\<^sup>*\<^sup>* S S'"
    "sleepers.all_waiting (win32_inv host object_of) (own host object_of) S"
    "point S t = Sleeping CV_Wait" "lost host object_of sem_count (data S) t"
  shows "point S' t = Sleeping CV_Wait \<and> lost host object_of sem_count (data S') t"
  using assms
proof (induction rule: rtranclp_induct)
  case (step S1 S2)
  then have w: "sleepers.all_waiting (win32_inv host object_of) (own host object_of) S1"
    using sleepers.all_waiting_mortal [OF win32_sleepers] by blast
  have p: "point S1 t = Sleeping CV_Wait" "lost host object_of sem_count (data S1) t" using step by blast+
  from step(2) show ?case by cases (use lost_step [OF _ w p] p in auto)
qed simp

end

interpretation so: sleepers "win32_ops semaphore_host" "win32_inv semaphore_host table_object"
  "own semaphore_host table_object"
  by (rule sh.win32_sleepers)

section \<open>Properties\<close>



lemma cv_run_mortal: "cv_run ops ms S = Some S' \<Longrightarrow> (mortal_step ops X)\<^sup>*\<^sup>* S S'"
  by (induction ms arbitrary: S)
    (auto split: option.splits intro: converse_rtranclp_into_rtranclp moves)



text \<open>
  C36. A thread ends within \<open>NotifyOne\<close>, after it has taken the id of a thread from the queue and before it
  releases its semaphore. Nobody knows of the sleeping thread any more: whatever the others do, and
  whether they live or die, no notification wakes it, \<open>NotifyAll\<close> included.
\<close>

theorem Win32_death_in_NotifyOne_forgets_sleeper:
  assumes "win32_semaphores host object_of sem_count" "win32_inv host object_of d"
    "(mortal_step (win32_ops host) X)\<^sup>*\<^sup>* (cv_start d) S"
    "point S t = Sleeping CV_Wait" "\<not> win32_signalled host sem_count (data S) t"
    "queue_list (threadQueue (data S)) = get_id host t # is" "get_id host t \<notin> set is"
    "point S u = Calling CV_NotifyOne held" "queue_mutex S = None"
  shows "\<exists>d'. Win32_notify_cut (data S) = Some d' \<and>
    (\<forall>S'. (mortal_step (win32_ops host) (- {t}))\<^sup>*\<^sup>* (thread_dies u (S\<lparr>data := d'\<rparr>)) S' \<longrightarrow>
      point S' t = Sleeping CV_Wait)"
proof -
  note s = win32_semaphores.win32_sleepers [OF assms(1)]
  have a: "sleepers.all_waiting (win32_inv host object_of) (own host object_of) S"
    by (rule sleepers.all_waiting_deaths [OF s assms(3,2)])
  note inv = sleepers.all_waitingD [OF s a]
  have "queue_inv (threadQueue (data S))" using inv(1) by (simp add: win32_inv_def)
  then obtain q where q: "take_waiter (threadQueue (data S)) = Inr (get_id host t, q)" "queue_inv q" "queue_list q = is"
    using take_waiter_Cons assms(6) by blast
  let ?d = "data S\<lparr>threadQueue := q\<rparr>"
  let ?S = "thread_dies u (S\<lparr>data := ?d\<rparr>)"
  have n: "semaphore_name host i ?d = semaphore_name host i (data S)" for i by (simp add: semaphore_name_def)
  have "0 < Count (threadQueue (data S))" using assms(6) Count_pos_iff by (metis list.distinct(1))
  then have cut: "Win32_notify_cut (data S) = Some ?d" using q(1) by (simp add: Win32_notify_cut_def)
  have o: "own host object_of ?d v \<longleftrightarrow> own host object_of (data S) v" for v by (simp add: own_def n)
  have w: "sleepers.all_waiting (win32_inv host object_of) (own host object_of) (S\<lparr>data := ?d\<rparr>)"
    using a inv(1) q(2) by (simp add: sleepers.all_waiting_def [OF s] o win32_inv_def n)
  have l: "lost host object_of sem_count (data ?S) t"
    using inv(2) [OF assms(4)] assms(5,7) q(3) by (simp add: lost_defs n)
  have "u \<noteq> t" using assms(4,8) by auto
  then have p: "point ?S t = Sleeping CV_Wait" using assms(4) by simp
  show ?thesis
    using cut win32_semaphores.lost_forever [OF assms(1) _ sleepers.all_waiting_dies [OF s w] p l] by blast
qed

text \<open>(1, 1) sleeps, and (2, 1) has called \<open>NotifyOne\<close>. After the death a third thread calls \<open>NotifyAll\<close>.\<close>

definition notifying :: "semaphore_table win32_cv cv_system" where
  "notifying = the (cv_run (win32_ops semaphore_host) (one_sleeps @ [Call (2, 1) CV_NotifyOne]) (cv_start small_cv))"

definition cut_off :: "semaphore_table win32_cv cv_system" where
  "cut_off = thread_dies (2, 1) (notifying\<lparr>data := the (Win32_notify_cut (data notifying))\<rparr>)"

definition in_vain :: "cv_move list" where
  "in_vain = [Lock_User (3, 1), Call (3, 1) CV_NotifyAll, Section (3, 1), Unlock_User (3, 1)]"

theorem Win32_death_in_NotifyOne_forgets_sleeper_witness:
  "\<exists>S. cv_run (win32_ops semaphore_host) in_vain cut_off = Some S \<and> returned S (3, 1) = Some (Inr None) \<and>
    (\<forall>S'. (mortal_step (win32_ops semaphore_host) (- {(1, 1)}))\<^sup>*\<^sup>* S S' \<longrightarrow> point S' (1, 1) = Sleeping CV_Wait)"
proof -
  have "runs_to (one_sleeps @ [Call (2, 1) CV_NotifyOne]) (\<lambda>S. True)" by code_simp
  then have r: "(mortal_step (win32_ops semaphore_host) UNIV)\<^sup>*\<^sup>* (cv_start small_cv) notifying"
    by (rule runs_toE) (simp add: notifying_def cv_run_mortal)
  have p: "point notifying (1, 1) = Sleeping CV_Wait" "\<not> win32_signalled semaphore_host table_count (data notifying) (1, 1)"
    "queue_list (threadQueue (data notifying)) = [get_id semaphore_host (1, 1)]"
    "point notifying (2, 1) = Calling CV_NotifyOne False" "queue_mutex notifying = None"
    by code_simp+
  have never: "point S' (1, 1) = Sleeping CV_Wait"
    if "(mortal_step (win32_ops semaphore_host) (- {(1, 1)}))\<^sup>*\<^sup>* cut_off S'" for S'
    using Win32_death_in_NotifyOne_forgets_sleeper [OF sh.win32_semaphores_axioms small_cv_inv r p(1-3) _ p(4,5)] that
    by (auto simp: cut_off_def)
  have run: "case cv_run (win32_ops semaphore_host) in_vain cut_off of None \<Rightarrow> False | Some S \<Rightarrow> returned S (3, 1) = Some (Inr None)"
    by code_simp
  then obtain S where S: "cv_run (win32_ops semaphore_host) in_vain cut_off = Some S" "returned S (3, 1) = Some (Inr None)"
    by (auto split: option.splits)
  have "point S' (1, 1) = Sleeping CV_Wait"
    if "(mortal_step (win32_ops semaphore_host) (- {(1, 1)}))\<^sup>*\<^sup>* S S'" for S'
    using rtranclp_trans [OF cv_run_mortal [OF S(1)] that] by (rule never)
  then show ?thesis using S by blast
qed

text \<open>
  A thread that ends while it sleeps leaves its id in the queue: the next \<open>NotifyOne\<close> is spent on it, and
  a living thread behind it goes on sleeping.
\<close>

theorem Win32_dead_sleeper_takes_a_notification:
  assumes "win32_semaphores host object_of sem_count" "win32_inv host object_of d"
    "(mortal_step (win32_ops host) X)\<^sup>*\<^sup>* (cv_start d) S"
    "point S t = Sleeping c" "point S u = Sleeping CV_Wait" "u \<noteq> t" "\<not> win32_signalled host sem_count (data S) u"
    "queue_list (threadQueue (data S)) = get_id host t # is"
    "point S v = Calling CV_NotifyOne held" "queue_mutex S = None"
  shows "\<exists>S'. cv_step (win32_ops host) (Section v) (thread_dies t S) = Some S' \<and>
    returned S' v = Some (Inr None) \<and> point S' u = Sleeping CV_Wait \<and>
    (\<forall>b. cv_step (win32_ops host) (Wake u b) S' = None)"
proof -
  note s = wakeup.axioms(1) [OF win32_semaphores.win32_wakeup [OF assms(1)]]
  note inv = sleepers.all_waitingD [OF s sleepers.all_waiting_deaths [OF s assms(3,2)]]
  obtain d' where d': "notify_front host (fst v) (data S) = (d', Inr ())" "same_objects object_of (data S) d'"
    "local_semaphore d' = local_semaphore (data S)"
    "\<And>n. n \<noteq> semaphore_name host (get_id host t) (data S) \<Longrightarrow> sem_count (cv_kernel d') n = sem_count (cv_kernel (data S)) n"
    using win32_semaphores.notify_front_spec [OF assms(1) inv(1) assms(8), of "fst v"] by blast
  have "get_id host u \<noteq> get_id host t" using assms(6) win32_semaphores.ids [OF assms(1)] by simp
  then have n: "semaphore_name host (get_id host u) (data S) \<noteq> semaphore_name host (get_id host t) (data S)"
    by (simp add: win32_semaphores.name_eq [OF assms(1)])
  have w: "win32_waiting host object_of sem_count d' u"
    using win32_semaphores.notify_front_waiting [OF assms(1) inv(1) assms(8) d'(1)] inv(2) [OF assms(5)] by blast
  have ns: "\<not> win32_signalled host sem_count d' u"
    using d'(4) [OF n] assms(7) same_objects_name [OF d'(2), of host "get_id host u"] by (simp add: win32_signalled_def)
  have "0 < Count (threadQueue (data S))" using assms(8) Count_pos_iff by (metis list.distinct(1))
  moreover have "v \<noteq> t" "v \<noteq> u" using assms(4,5,9) by auto
  ultimately show ?thesis
    using assms(5,6,9,10) d'(1) win32_semaphores.sleep_unsignalled [OF assms(1) w ns, of CV_Wait]
    by (auto simp: move_simps win32_ops_def Win32_NotifyOne_def Win32_Condition_NotifyOne_def INFINITE_def)
qed

text \<open>(1, 1) and (2, 1) sleep, and (3, 1) has called \<open>NotifyOne\<close> when (1, 1) ends.\<close>

definition two_sleepers :: "semaphore_table win32_cv cv_system" where
  "two_sleepers = the (cv_run (win32_ops semaphore_host)
     (one_sleeps @ [Lock_User (2, 1), Call (2, 1) CV_Wait, Section (2, 1), Call (3, 1) CV_NotifyOne]) (cv_start small_cv))"

theorem Win32_dead_sleeper_takes_a_notification_witness:
  "\<exists>S'. cv_step (win32_ops semaphore_host) (Section (3, 1)) (thread_dies (1, 1) two_sleepers) = Some S' \<and>
    returned S' (3, 1) = Some (Inr None) \<and> cv_step (win32_ops semaphore_host) (Wake (2, 1) False) S' = None"
proof -
  have "runs_to (one_sleeps @ [Lock_User (2, 1), Call (2, 1) CV_Wait, Section (2, 1), Call (3, 1) CV_NotifyOne]) (\<lambda>S. True)"
    by code_simp
  then have r: "(mortal_step (win32_ops semaphore_host) UNIV)\<^sup>*\<^sup>* (cv_start small_cv) two_sleepers"
    by (rule runs_toE) (simp add: two_sleepers_def cv_run_mortal)
  have p: "point two_sleepers (1, 1) = Sleeping CV_Wait" "point two_sleepers (2, 1) = Sleeping CV_Wait"
    "(2, 1) \<noteq> ((1, 1) :: thread)" "\<not> win32_signalled semaphore_host table_count (data two_sleepers) (2, 1)"
    "queue_list (threadQueue (data two_sleepers)) = [get_id semaphore_host (1, 1), get_id semaphore_host (2, 1)]"
    "point two_sleepers (3, 1) = Calling CV_NotifyOne False" "queue_mutex two_sleepers = None"
    by code_simp+
  show ?thesis
    using Win32_dead_sleeper_takes_a_notification [OF sh.win32_semaphores_axioms small_cv_inv r p(1-5) p(6,7)] by blast
qed

end
