(* ===== verification/Darwin_Fifo.thy ===== *)
theory Darwin_Fifo
  imports Azul_Prelude Disposer
begin

text \<open>
  \<open>src/ipc/darwin/FiFo.hpp\<close>: a named pipe, by which the condition variable on macOS wakes a thread up.
  The functions of the system are a parameter; \<open>darwin_fifos\<close> states what is documented of them.
\<close>

section \<open>The functions of the system\<close>

text \<open>
  \<open>poll_ready\<close> is one look of \<open>poll\<close> at the descriptor: whether there is something to read. How long
  \<open>poll\<close> waits for that is part of the code that calls it. \<open>write\<close> is called with a number of bytes,
  and the code ignores its result.
\<close>

record 'f fifo_host =
  mkfifo :: "string \<Rightarrow> 'f \<Rightarrow> 'f \<times> (errno + unit)"
  open_fifo :: "string \<Rightarrow> 'f \<Rightarrow> 'f \<times> (errno + nat)"
  close_fifo :: "nat \<Rightarrow> 'f \<Rightarrow> 'f"
  remove_file :: "string \<Rightarrow> 'f \<Rightarrow> 'f"
  write_fifo :: "nat \<Rightarrow> nat \<Rightarrow> 'f \<Rightarrow> 'f"
  read_fifo :: "nat \<Rightarrow> nat \<Rightarrow> 'f \<Rightarrow> 'f \<times> (errno + nat)"
  poll_ready :: "nat \<Rightarrow> 'f \<Rightarrow> errno + bool"

text \<open>
  What a file name and a descriptor stand for, and the bytes in a pipe. A short write is atomic: it adds
  all its bytes, or none when the pipe is full.
\<close>

locale darwin_fifos =
  fixes host :: "'f fifo_host"
    and path_of :: "'f \<Rightarrow> string \<Rightarrow> nat option" and behind :: "'f \<Rightarrow> nat \<Rightarrow> nat option"
    and bytes :: "'f \<Rightarrow> nat \<Rightarrow> nat"
  assumes mkfifo_new: "mkfifo host n k = (k', Inr ()) \<Longrightarrow> path_of k n = None \<and> behind k' = behind k \<and>
      (\<exists>x. path_of k' = (path_of k)(n \<mapsto> x) \<and> bytes k' = (bytes k)(x := 0) \<and>
         (\<forall>m. path_of k m \<noteq> Some x) \<and> (\<forall>fd. behind k fd \<noteq> Some x))"
    and mkfifo_fails: "mkfifo host n k = (k', Inl e) \<Longrightarrow> k' = k"
    and mkfifo_exists: "path_of k n \<noteq> None \<Longrightarrow> mkfifo host n k = (k, Inl EEXIST)"
    and open_old: "path_of k n = Some x \<Longrightarrow> \<exists>k' fd. open_fifo host n k = (k', Inr fd) \<and> behind k fd = None \<and>
      behind k' = (behind k)(fd \<mapsto> x) \<and> path_of k' = path_of k \<and> bytes k' = bytes k"
    and open_missing: "path_of k n = None \<Longrightarrow> open_fifo host n k = (k, Inl ENOENT)"
    and close_keeps: "behind (close_fifo host fd k) = (behind k)(fd := None) \<and>
      path_of (close_fifo host fd k) = path_of k \<and> bytes (close_fifo host fd k) = bytes k"
    and remove_keeps: "path_of (remove_file host n k) = (path_of k)(n := None) \<and>
      behind (remove_file host n k) = behind k \<and> bytes (remove_file host n k) = bytes k"
    and write_bytes: "behind k fd = Some x \<Longrightarrow> path_of (write_fifo host fd l k) = path_of k \<and>
      behind (write_fifo host fd l k) = behind k \<and>
      (\<exists>b. bytes (write_fifo host fd l k) = (bytes k)(x := b) \<and> (b = bytes k x + l \<or> l \<le> bytes k x \<and> b = bytes k x))"
    and read_bytes: "behind k fd = Some x \<Longrightarrow> 0 < bytes k x \<Longrightarrow> \<exists>k'. read_fifo host fd l k = (k', Inr (min l (bytes k x))) \<and>
      path_of k' = path_of k \<and> behind k' = behind k \<and> bytes k' = (bytes k)(x := bytes k x - min l (bytes k x))"
    and poll_tells: "behind k fd = Some x \<Longrightarrow> poll_ready host fd k = Inr (0 < bytes k x)"

section \<open>The class FiFo\<close>

datatype fifo_cleanup = Close_Fifo nat bool string

record fifo =
  fifo_disposer :: "fifo_cleanup disposer"
  fifo_descriptor :: nat

fun run_fifo_cleanup :: "'f fifo_host \<Rightarrow> fifo_cleanup \<Rightarrow> 'f \<Rightarrow> 'f" where
  "run_fifo_cleanup host (Close_Fifo fd isOwner path) k =
     (let k = close_fifo host fd k in if isOwner then remove_file host path k else k)"

definition CreateOrOpenFiFo ::
  "'f fifo_host \<Rightarrow> string \<Rightarrow> bool \<Rightarrow> fifo_cleanup disposer \<Rightarrow> 'f \<Rightarrow> 'f \<times> fifo_cleanup disposer \<times> (cpp_error + nat)"
where
  "CreateOrOpenFiFo host path isOwner d k =
     (case (if isOwner then mkfifo host path k else (k, Inr ())) of
        (k, Inl e) \<Rightarrow>
          (k, d, Inl (if e = EDQUOT
             then runtime_error ''Too many inodes opened, try to increase the max. number if you are on macOS.''
             else runtime_error_code ''Failed to create fifo: '' (Code e)))
      | (k, Inr _) \<Rightarrow>
          (case open_fifo host path k of
             (k, Inl e) \<Rightarrow> (k, d, Inl (runtime_error_code ''open of fifo failed: '' (Code e)))
           | (k, Inr fd) \<Rightarrow> (k, Disposer_Set d (Some (Close_Fifo fd isOwner path)), Inr fd)))"

definition fifo_path :: "string \<Rightarrow> string" where
  "fifo_path name = ''/tmp/azul_fifo_'' @ name"

definition FiFo_ctor :: "'f fifo_host \<Rightarrow> string \<Rightarrow> bool \<Rightarrow> 'f \<Rightarrow> 'f \<times> (cpp_error + fifo)" where
  "FiFo_ctor host name isOwner k =
     (case CreateOrOpenFiFo host (fifo_path name) isOwner Disposer_default k of
        (k, d, Inl e) \<Rightarrow> (fold (run_fifo_cleanup host) (Disposer_dtor d) k, Inl e)
      | (k, d, Inr fd) \<Rightarrow> (k, Inr \<lparr>fifo_disposer = d, fifo_descriptor = fd\<rparr>))"

definition FiFo_dtor :: "'f fifo_host \<Rightarrow> fifo \<Rightarrow> 'f \<Rightarrow> 'f" where
  "FiFo_dtor host f k = fold (run_fifo_cleanup host) (Disposer_dtor (fifo_disposer f)) k"

definition FiFo_Write :: "'f fifo_host \<Rightarrow> fifo \<Rightarrow> nat \<Rightarrow> 'f \<Rightarrow> 'f" where
  "FiFo_Write host f n k = write_fifo host (fifo_descriptor f) n k"

text \<open>
  \<open>Read\<close> polls until there is something to read: \<open>None\<close> says that this loop goes on. \<open>TimedRead\<close> polls
  once; the timeout is cast to \<open>int\<close>, and a negative one means that \<open>poll\<close> waits without a limit. The
  flag says that the time has elapsed.
\<close>

definition FiFo_Read :: "'f fifo_host \<Rightarrow> fifo \<Rightarrow> nat \<Rightarrow> 'f \<Rightarrow> ('f \<times> (cpp_error + nat)) option" where
  "FiFo_Read host f n k =
     (case poll_ready host (fifo_descriptor f) k of
        Inl e \<Rightarrow> Some (k, Inl (runtime_error_code ''Unexpected error while polling: '' (Code e)))
      | Inr False \<Rightarrow> None
      | Inr True \<Rightarrow>
          (case read_fifo host (fifo_descriptor f) n k of
             (k, Inl e) \<Rightarrow> Some (k, Inl (runtime_error_code ''Unexpected error while reading from fifo: '' (Code e)))
           | (k, Inr m) \<Rightarrow> Some (k, Inr m)))"

definition FiFo_TimedRead ::
  "'f fifo_host \<Rightarrow> fifo \<Rightarrow> nat \<Rightarrow> u32 \<Rightarrow> bool \<Rightarrow> 'f \<Rightarrow> ('f \<times> (cpp_error + int)) option"
where
  "FiFo_TimedRead host f n ms elapsed k =
     (case poll_ready host (fifo_descriptor f) k of
        Inl e \<Rightarrow> Some (k, Inl (runtime_error_code ''Unexpected error while polling: '' (Code e)))
      | Inr False \<Rightarrow> (if ms = 0 \<or> elapsed \<and> 0 \<le> sint ms then Some (k, Inr (- 1)) else None)
      | Inr True \<Rightarrow>
          (case FiFo_Read host f n k of
             None \<Rightarrow> None
           | Some (k, Inl e) \<Rightarrow> Some (k, Inl e)
           | Some (k, Inr m) \<Rightarrow> Some (k, Inr (int m))))"

section \<open>What its operations do\<close>

lemmas FiFo_simps = FiFo_ctor_def FiFo_dtor_def CreateOrOpenFiFo_def Disposer_default_def Disposer_Set_def Disposer_dtor_def

context darwin_fifos
begin

lemma FiFo_open_old:
  assumes "path_of k (fifo_path n) = Some x"
  shows "\<exists>k' fd. FiFo_ctor host n False k =
      (k', Inr \<lparr>fifo_disposer = \<lparr>func = Some (Close_Fifo fd False (fifo_path n))\<rparr>, fifo_descriptor = fd\<rparr>) \<and>
    behind k fd = None \<and> behind k' = (behind k)(fd \<mapsto> x) \<and> path_of k' = path_of k \<and> bytes k' = bytes k"
  using open_old [OF assms] by (auto simp: FiFo_simps)

lemma FiFo_open_missing:
  assumes "path_of k (fifo_path n) = None"
  shows "FiFo_ctor host n False k = (k, Inl (runtime_error_code ''open of fifo failed: '' (Code ENOENT)))"
  using open_missing [OF assms] by (simp add: FiFo_simps)

lemma FiFo_create:
  assumes "FiFo_ctor host n True k = (k', Inr f)"
  shows "\<exists>x fd. f = \<lparr>fifo_disposer = \<lparr>func = Some (Close_Fifo fd True (fifo_path n))\<rparr>, fifo_descriptor = fd\<rparr> \<and>
    path_of k (fifo_path n) = None \<and> behind k fd = None \<and>
    path_of k' = (path_of k)(fifo_path n \<mapsto> x) \<and> behind k' = (behind k)(fd \<mapsto> x) \<and> bytes k' = (bytes k)(x := 0) \<and>
    (\<forall>m. path_of k m \<noteq> Some x) \<and> (\<forall>g. behind k g \<noteq> Some x)"
proof -
  obtain k1 r where m: "mkfifo host (fifo_path n) k = (k1, r)" by fastforce
  with assms have r: "r = Inr ()" by (cases r) (auto simp: FiFo_simps)
  from mkfifo_new [OF m [unfolded r]] obtain x where x: "path_of k (fifo_path n) = None" "behind k1 = behind k"
    "path_of k1 = (path_of k)(fifo_path n \<mapsto> x)" "bytes k1 = (bytes k)(x := 0)"
    "\<forall>m. path_of k m \<noteq> Some x" "\<forall>fd. behind k fd \<noteq> Some x" by blast
  from x(3) have "path_of k1 (fifo_path n) = Some x" by simp
  from open_old [OF this] obtain k2 fd where "open_fifo host (fifo_path n) k1 = (k2, Inr fd)" "behind k1 fd = None"
    "behind k2 = (behind k1)(fd \<mapsto> x)" "path_of k2 = path_of k1" "bytes k2 = bytes k1" by blast
  then show ?thesis using assms m r x by (auto simp: FiFo_simps)
qed

lemma FiFo_create_fails:
  assumes "FiFo_ctor host n True k = (k', Inl e)"
  shows "k' = k"
proof -
  obtain k1 r where m: "mkfifo host (fifo_path n) k = (k1, r)" by fastforce
  show ?thesis
  proof (cases r)
    case (Inl e)
    then show ?thesis using assms m mkfifo_fails by (fastforce simp: FiFo_simps)
  next
    case (Inr u)
    then obtain x where "path_of k1 (fifo_path n) = Some x" using mkfifo_new [of "fifo_path n" k k1] m by auto
    from open_old [OF this] show ?thesis using assms m Inr by (auto simp: FiFo_simps)
  qed
qed

lemma FiFo_create_exists:
  assumes "path_of k (fifo_path n) \<noteq> None"
  shows "FiFo_ctor host n True k = (k, Inl (runtime_error_code ''Failed to create fifo: '' (Code EEXIST)))"
  using mkfifo_exists [OF assms] by (simp add: FiFo_simps)

lemma FiFo_destroy:
  assumes "f = \<lparr>fifo_disposer = \<lparr>func = Some (Close_Fifo fd b p)\<rparr>, fifo_descriptor = fd\<rparr>"
  shows "behind (FiFo_dtor host f k) = (behind k)(fd := None)"
    "path_of (FiFo_dtor host f k) = (if b then (path_of k)(p := None) else path_of k)"
    "bytes (FiFo_dtor host f k) = bytes k"
  using assms close_keeps remove_keeps by (simp_all add: FiFo_simps Let_def)

lemma FiFo_Read_spec:
  assumes "behind k (fifo_descriptor f) = Some x"
  shows "bytes k x = 0 \<Longrightarrow> FiFo_Read host f n k = None"
    and "0 < bytes k x \<Longrightarrow> \<exists>k'. FiFo_Read host f n k = Some (k', Inr (min n (bytes k x))) \<and>
      path_of k' = path_of k \<and> behind k' = behind k \<and> bytes k' = (bytes k)(x := bytes k x - min n (bytes k x))"
  using poll_tells [OF assms] read_bytes [OF assms, of n] by (auto simp: FiFo_Read_def)

lemma FiFo_TimedRead_spec:
  assumes "behind k (fifo_descriptor f) = Some x"
  shows "bytes k x = 0 \<Longrightarrow> FiFo_TimedRead host f n ms b k =
      (if ms = 0 \<or> b \<and> 0 \<le> sint ms then Some (k, Inr (- 1)) else None)"
    and "0 < bytes k x \<Longrightarrow> \<exists>k'. FiFo_TimedRead host f n ms b k = Some (k', Inr (int (min n (bytes k x)))) \<and>
      path_of k' = path_of k \<and> behind k' = behind k \<and> bytes k' = (bytes k)(x := bytes k x - min n (bytes k x))"
  using poll_tells [OF assms] FiFo_Read_spec (2) [OF assms, of n] by (auto simp: FiFo_TimedRead_def)

end

section \<open>A host\<close>

text \<open>Pipes as the contract has them, without a limit: an object is a number not used before.\<close>

record fifo_table =
  paths :: "(string \<times> nat) list"
  descriptors :: "(nat \<times> nat) list"
  contents :: "(nat \<times> nat) list"

definition fresh_fifo :: "fifo_table \<Rightarrow> nat" where
  "fresh_fifo k = Suc (sum_list (map snd (paths k)) + sum_list (map fst (descriptors k)) + sum_list (map snd (descriptors k)))"

definition count_of :: "fifo_table \<Rightarrow> nat \<Rightarrow> nat" where
  "count_of k x = (case map_of (contents k) x of None \<Rightarrow> 0 | Some b \<Rightarrow> b)"

definition set_count :: "nat \<Rightarrow> nat \<Rightarrow> fifo_table \<Rightarrow> fifo_table" where
  "set_count x b k = k\<lparr>contents := (x, b) # contents k\<rparr>"

definition fifo_kernel :: "fifo_table fifo_host" where
  "fifo_kernel =
     \<lparr>mkfifo = (\<lambda>n k. if map_of (paths k) n \<noteq> None then (k, Inl EEXIST)
        else (set_count (fresh_fifo k) 0 (k\<lparr>paths := (n, fresh_fifo k) # paths k\<rparr>), Inr ())),
      open_fifo = (\<lambda>n k. case map_of (paths k) n of None \<Rightarrow> (k, Inl ENOENT)
        | Some x \<Rightarrow> (k\<lparr>descriptors := (fresh_fifo k, x) # descriptors k\<rparr>, Inr (fresh_fifo k))),
      close_fifo = (\<lambda>fd k. k\<lparr>descriptors := filter (\<lambda>(g, x). g \<noteq> fd) (descriptors k)\<rparr>),
      remove_file = (\<lambda>n k. k\<lparr>paths := filter (\<lambda>(m, x). m \<noteq> n) (paths k)\<rparr>),
      write_fifo = (\<lambda>fd n k. case map_of (descriptors k) fd of None \<Rightarrow> k
        | Some x \<Rightarrow> set_count x (count_of k x + n) k),
      read_fifo = (\<lambda>fd n k. case map_of (descriptors k) fd of None \<Rightarrow> (k, Inl EBADF)
        | Some x \<Rightarrow> (set_count x (count_of k x - min n (count_of k x)) k, Inr (min n (count_of k x)))),
      poll_ready = (\<lambda>fd k. case map_of (descriptors k) fd of None \<Rightarrow> Inl EBADF
        | Some x \<Rightarrow> Inr (0 < count_of k x))\<rparr>"

lemma map_of_filter_key: "map_of (filter (\<lambda>(k, x). k \<noteq> n) xs) = (map_of xs)(n := None)"
  by (induction xs) (auto simp: fun_eq_iff)

lemma fresh_fifo_unused:
  "map_of (paths k) n \<noteq> Some (fresh_fifo k)" "map_of (descriptors k) (fresh_fifo k) = None"
  "map_of (descriptors k) fd \<noteq> Some (fresh_fifo k)"
proof -
  have s: "x \<in> set xs \<Longrightarrow> x \<le> sum_list xs" for x :: nat and xs by (rule member_le_sum_list) auto
  show "map_of (paths k) n \<noteq> Some (fresh_fifo k)"
    using s [of _ "map snd (paths k)"] by (force simp: fresh_fifo_def dest: map_of_SomeD)
  show "map_of (descriptors k) fd \<noteq> Some (fresh_fifo k)"
    using s [of _ "map snd (descriptors k)"] by (force simp: fresh_fifo_def dest: map_of_SomeD)
  show "map_of (descriptors k) (fresh_fifo k) = None"
    using s [of _ "map fst (descriptors k)"] by (force simp: fresh_fifo_def map_of_eq_None_iff)
qed

interpretation fk: darwin_fifos fifo_kernel "\<lambda>k. map_of (paths k)" "\<lambda>k. map_of (descriptors k)" count_of
  by unfold_locales
    (auto simp: fifo_kernel_def set_count_def count_of_def fun_eq_iff map_of_filter_key fresh_fifo_unused
      split: option.splits if_splits)

end
