(* ===== verification/Darwin_Condition.thy ===== *)
theory Darwin_Condition
  imports Condition_Wakeup Darwin_Fifo "HOL-Library.Countable"
begin

text \<open>
  \<open>src/ipc/darwin/ConditionVariable.cpp\<close>: the condition variable on macOS, a queue of thread ids in
  shared memory and, for each wait, a named pipe that the waiting thread creates and reads from.
\<close>

section \<open>The class ConditionVariable\<close>

text \<open>
  The members, the state of the pipes, and of each thread the local variables of a wait: \<open>fifo\<close> (\<open>None\<close>
  outside of a wait), \<open>toRead\<close>, and the result of \<open>TimedRead\<close>.
\<close>

record 'f darwin_cv =
  thread_queue :: "nat queue"
  cond_name :: string
  pipes :: 'f
  local_fifo :: "thread \<Rightarrow> fifo option"
  toRead :: "thread \<Rightarrow> int"
  timed_result :: "thread \<Rightarrow> int"

text \<open>The host: the pipes, \<open>std::this_thread::get_id()\<close>, and the text of an id.\<close>

record 'f darwin_host =
  fifo_api :: "'f fifo_host"
  this_id :: "thread \<Rightarrow> nat"
  id_text :: "nat \<Rightarrow> string"

definition sizeof_SYNC_MESSAGE :: nat where
  "sizeof_SYNC_MESSAGE = 4"

text \<open>The queue of a new object; \<open>sizeof(std::thread::id)\<close> is 8.\<close>

definition Darwin_thread_queue :: "nat queue_memory \<Rightarrow> bool \<Rightarrow> nat queue" where
  "Darwin_thread_queue mem isOwner = Queue_ctor mem (128 * 1024) 8 isOwner"

definition fifo_name :: "'f darwin_host \<Rightarrow> nat \<Rightarrow> 'f darwin_cv \<Rightarrow> string" where
  "fifo_name host i d = cond_name d @ ''_'' @ id_text host i"

definition GetFiFo :: "'f darwin_host \<Rightarrow> nat \<Rightarrow> bool \<Rightarrow> 'f darwin_cv \<Rightarrow> 'f darwin_cv \<times> (cpp_error + fifo)" where
  "GetFiFo host i isOwner d =
     (case FiFo_ctor (fifo_api host) (fifo_name host i d) isOwner (pipes d) of (k, r) \<Rightarrow> (d\<lparr>pipes := k\<rparr>, r))"

text \<open>\<open>NotifyOne\<close> after the test of the count, and the body of the loop of \<open>NotifyAll\<close>.\<close>

definition notify_waiter :: "'f darwin_host \<Rightarrow> 'f darwin_cv \<Rightarrow> 'f darwin_cv \<times> (cpp_error + unit)" where
  "notify_waiter host d =
     (case take_waiter (thread_queue d) of
        Inl e \<Rightarrow> (d, Inl e)
      | Inr (i, q) \<Rightarrow>
          (case GetFiFo host i False (d\<lparr>thread_queue := q\<rparr>) of
             (d, Inl e) \<Rightarrow> (d, Inl e)
           | (d, Inr f) \<Rightarrow>
               (d\<lparr>pipes := FiFo_dtor (fifo_api host) f (FiFo_Write (fifo_api host) f sizeof_SYNC_MESSAGE (pipes d))\<rparr>,
                Inr ())))"

definition Darwin_Condition_NotifyOne ::
  "'f darwin_host \<Rightarrow> 'f darwin_cv \<Rightarrow> 'f darwin_cv \<times> (cpp_error + unit)"
where
  "Darwin_Condition_NotifyOne host d =
     (if 0 < Count (thread_queue d) then notify_waiter host d else (d, Inr ()))"

lemma notify_waiter_Count:
  assumes "notify_waiter host d = (d', Inr ())" "0 < Count (thread_queue d)"
  shows "unat (Count (thread_queue d')) < unat (Count (thread_queue d))"
proof -
  obtain i q where q: "take_waiter (thread_queue d) = Inr (i, q)"
    using assms(1) by (auto simp: notify_waiter_def split: sum.splits)
  have "thread_queue d' = q"
    using assms(1) q by (auto simp: notify_waiter_def GetFiFo_def split: sum.splits prod.splits)
  then show ?thesis using take_waiter_Count [OF q assms(2)] by simp
qed

function Darwin_Condition_NotifyAll ::
  "'f darwin_host \<Rightarrow> 'f darwin_cv \<Rightarrow> 'f darwin_cv \<times> (cpp_error + unit)"
where
  "Darwin_Condition_NotifyAll host d =
     (if 0 < Count (thread_queue d)
      then (case notify_waiter host d of
              (d', Inl e) \<Rightarrow> (d', Inl e)
            | (d', Inr _) \<Rightarrow> Darwin_Condition_NotifyAll host d')
      else (d, Inr ()))"
  by pat_completeness auto
termination
  by (relation "measure (\<lambda>(host, d). unat (Count (thread_queue d)))") (auto intro: notify_waiter_Count)

declare Darwin_Condition_NotifyAll.simps [simp del]

text \<open>
  The waits up to the unlocking of the mutexes. When \<open>PushBack\<close> throws, the pipe is destroyed. The end of
  a wait destroys it too, also when an exception ends it.
\<close>

definition drop_fifo :: "'f darwin_host \<Rightarrow> thread \<Rightarrow> 'f darwin_cv \<Rightarrow> 'f darwin_cv" where
  "drop_fifo host t d =
     (case local_fifo d t of
        None \<Rightarrow> d
      | Some f \<Rightarrow> d\<lparr>pipes := FiFo_dtor (fifo_api host) f (pipes d), local_fifo := (local_fifo d)(t := None)\<rparr>)"

definition Darwin_enter ::
  "'f darwin_host \<Rightarrow> thread \<Rightarrow> 'f darwin_cv \<Rightarrow> 'f darwin_cv \<times> (cpp_error + unit)"
where
  "Darwin_enter host t d =
     (case GetFiFo host (this_id host t) True d of
        (d, Inl e) \<Rightarrow> (d, Inl e)
      | (d, Inr f) \<Rightarrow>
          (let d = d\<lparr>local_fifo := (local_fifo d)(t \<mapsto> f)\<rparr> in
           case PushBack (thread_queue d) (this_id host t) of
             Inl e \<Rightarrow> (drop_fifo host t d, Inl e)
           | Inr q \<Rightarrow>
               (d\<lparr>thread_queue := q, toRead := (toRead d)(t := int sizeof_SYNC_MESSAGE)\<rparr>, Inr ())))"

text \<open>One turn of the loop of \<open>Wait\<close>, which reads without a mutex.\<close>

definition Darwin_Wait_read :: "'f darwin_host \<Rightarrow> thread \<Rightarrow> 'f darwin_cv \<Rightarrow> ('f darwin_cv \<times> sleep_end) option" where
  "Darwin_Wait_read host t d =
     (case local_fifo d t of
        None \<Rightarrow> Some (d, Threw undefined_behaviour)
      | Some f \<Rightarrow>
          (case FiFo_Read (fifo_api host) f (nat (toRead d t)) (pipes d) of
             None \<Rightarrow> None
           | Some (k, Inl e) \<Rightarrow> Some (drop_fifo host t (d\<lparr>pipes := k\<rparr>), Threw e)
           | Some (k, Inr n) \<Rightarrow>
               (let d = d\<lparr>pipes := k, toRead := (toRead d)(t := toRead d t - int n)\<rparr> in
                Some (d, if 0 < toRead d t then Still_Asleep else Awake))))"

text \<open>
  A turn of the loop of \<open>WaitFor\<close>: it reads without a mutex, and looks at the result with both. The
  timeout is cast to 32 bits.
\<close>

definition Darwin_WaitFor_read ::
  "'f darwin_host \<Rightarrow> thread \<Rightarrow> int \<Rightarrow> bool \<Rightarrow> 'f darwin_cv \<Rightarrow> ('f darwin_cv \<times> sleep_end) option"
where
  "Darwin_WaitFor_read host t ms elapsed d =
     (case local_fifo d t of
        None \<Rightarrow> Some (d, Threw undefined_behaviour)
      | Some f \<Rightarrow>
          (case FiFo_TimedRead (fifo_api host) f (nat (toRead d t)) (word_of_int ms) elapsed (pipes d) of
             None \<Rightarrow> None
           | Some (k, Inl e) \<Rightarrow> Some (drop_fifo host t (d\<lparr>pipes := k\<rparr>), Threw e)
           | Some (k, Inr n) \<Rightarrow> Some (d\<lparr>pipes := k, timed_result := (timed_result d)(t := n)\<rparr>, Awake)))"

definition Darwin_Wait_end :: "'f darwin_host \<Rightarrow> thread \<Rightarrow> 'f darwin_cv \<Rightarrow> 'f darwin_cv \<times> leave" where
  "Darwin_Wait_end host t d = (drop_fifo host t d, Leave (Inr None))"

definition Darwin_WaitFor_end :: "'f darwin_host \<Rightarrow> thread \<Rightarrow> 'f darwin_cv \<Rightarrow> 'f darwin_cv \<times> leave" where
  "Darwin_WaitFor_end host t d =
     (if timed_result d t < 0 then (drop_fifo host t d, Leave (Inr (Some timeout)))
      else if 0 < toRead d t - timed_result d t
      then (d\<lparr>toRead := (toRead d)(t := toRead d t - timed_result d t)\<rparr>, Sleep_Again)
      else (drop_fifo host t d, Leave (Inr (Some no_timeout))))"

text \<open>The public class: a default-constructed object has no \<open>_impl\<close>. The waits up to their sleep.\<close>

definition Darwin_NotifyOne ::
  "'f darwin_host \<Rightarrow> bool \<Rightarrow> thread \<Rightarrow> 'f darwin_cv \<Rightarrow> 'f darwin_cv \<times> (cpp_error + unit)"
where
  "Darwin_NotifyOne host impl t d =
     (if \<not> impl then (d, Inl (runtime_error ''Not initialized.'')) else Darwin_Condition_NotifyOne host d)"

definition Darwin_NotifyAll ::
  "'f darwin_host \<Rightarrow> bool \<Rightarrow> thread \<Rightarrow> 'f darwin_cv \<Rightarrow> 'f darwin_cv \<times> (cpp_error + unit)"
where
  "Darwin_NotifyAll host impl t d =
     (if \<not> impl then (d, Inl (runtime_error ''Not initialized.'')) else Darwin_Condition_NotifyAll host d)"

definition Darwin_Wait ::
  "'f darwin_host \<Rightarrow> bool \<Rightarrow> thread \<Rightarrow> 'f darwin_cv \<Rightarrow> 'f darwin_cv \<times> (cpp_error + unit)"
where
  "Darwin_Wait host impl t d =
     (if \<not> impl then (d, Inl (runtime_error ''Not initialized.'')) else Darwin_enter host t d)"

definition Darwin_WaitFor ::
  "'f darwin_host \<Rightarrow> bool \<Rightarrow> thread \<Rightarrow> 'f darwin_cv \<Rightarrow> 'f darwin_cv \<times> (cpp_error + unit)"
where
  "Darwin_WaitFor host impl t d =
     (if \<not> impl then (d, Inl (runtime_error ''Not initialized.'')) else Darwin_enter host t d)"

fun Darwin_begin ::
  "'f darwin_host \<Rightarrow> thread \<Rightarrow> cv_call \<Rightarrow> 'f darwin_cv \<Rightarrow> 'f darwin_cv \<times> (cpp_error + unit)"
where
  "Darwin_begin host t (CV_WaitFor n) d = Darwin_WaitFor host True t d"
| "Darwin_begin host t _ d = Darwin_Wait host True t d"

fun Darwin_sleep ::
  "'f darwin_host \<Rightarrow> thread \<Rightarrow> cv_call \<Rightarrow> bool \<Rightarrow> 'f darwin_cv \<Rightarrow> ('f darwin_cv \<times> sleep_end) option"
where
  "Darwin_sleep host t (CV_WaitFor n) elapsed d = Darwin_WaitFor_read host t n elapsed d"
| "Darwin_sleep host t _ elapsed d = Darwin_Wait_read host t d"

fun Darwin_end :: "'f darwin_host \<Rightarrow> thread \<Rightarrow> cv_call \<Rightarrow> 'f darwin_cv \<Rightarrow> 'f darwin_cv \<times> leave" where
  "Darwin_end host t (CV_WaitFor n) d = Darwin_WaitFor_end host t d"
| "Darwin_end host t _ d = Darwin_Wait_end host t d"

definition darwin_ops :: "'f darwin_host \<Rightarrow> 'f darwin_cv cv_ops" where
  "darwin_ops host =
     \<lparr>op_enter = Darwin_begin host, op_sleep = Darwin_sleep host, op_leave = Darwin_end host,
      op_notify_one = Darwin_NotifyOne host True, op_notify_all = Darwin_NotifyAll host True\<rparr>"

section \<open>The contract of the critical sections holds\<close>

definition wait_path :: "'f darwin_host \<Rightarrow> nat \<Rightarrow> 'f darwin_cv \<Rightarrow> string" where
  "wait_path host i d = fifo_path (fifo_name host i d)"

definition owns_fifo ::
  "'f darwin_host \<Rightarrow> ('f \<Rightarrow> string \<Rightarrow> nat option) \<Rightarrow> ('f \<Rightarrow> nat \<Rightarrow> nat option) \<Rightarrow> 'f darwin_cv \<Rightarrow> thread \<Rightarrow> fifo \<Rightarrow> bool"
where
  "owns_fifo host path_of behind d t f \<longleftrightarrow>
     (\<exists>fd x. f = \<lparr>fifo_disposer = \<lparr>func = Some (Close_Fifo fd True (wait_path host (this_id host t) d))\<rparr>,
                  fifo_descriptor = fd\<rparr> \<and>
        path_of (pipes d) (wait_path host (this_id host t) d) = Some x \<and> behind (pipes d) fd = Some x)"

text \<open>
  Every thread in a wait owns the pipe of its name, so that no two of them have the same id; pipes hold whole messages. The locals of a thread
  that are set outside of a wait are those of its last wait.
\<close>

definition darwin_inv ::
  "'f darwin_host \<Rightarrow> ('f \<Rightarrow> string \<Rightarrow> nat option) \<Rightarrow> ('f \<Rightarrow> nat \<Rightarrow> nat option) \<Rightarrow> ('f \<Rightarrow> nat \<Rightarrow> nat) \<Rightarrow> 'f darwin_cv \<Rightarrow> bool"
where
  "darwin_inv host path_of behind bytes d \<longleftrightarrow> queue_inv (thread_queue d) \<and>
     (\<forall>m n x. path_of (pipes d) m = Some x \<and> path_of (pipes d) n = Some x \<longrightarrow> m = n) \<and>
     (\<forall>x. 4 dvd bytes (pipes d) x) \<and>
     (\<forall>t. timed_result d t = - 1 \<or> timed_result d t = 4) \<and> (\<forall>t. toRead d t \<le> 4) \<and>
     (\<forall>t f. local_fifo d t = Some f \<longrightarrow> owns_fifo host path_of behind d t f) \<and>
     (\<forall>t u. local_fifo d t \<noteq> None \<and> local_fifo d u \<noteq> None \<and> this_id host t = this_id host u \<longrightarrow> t = u)"

definition darwin_queued :: "'f darwin_host \<Rightarrow> 'f darwin_cv \<Rightarrow> thread \<Rightarrow> bool" where
  "darwin_queued host d t \<longleftrightarrow> this_id host t \<in> set (queue_list (thread_queue d))"

definition darwin_signalled ::
  "'f darwin_host \<Rightarrow> ('f \<Rightarrow> string \<Rightarrow> nat option) \<Rightarrow> ('f \<Rightarrow> nat \<Rightarrow> nat) \<Rightarrow> 'f darwin_cv \<Rightarrow> thread \<Rightarrow> bool"
where
  "darwin_signalled host path_of bytes d t \<longleftrightarrow>
     (\<exists>x. path_of (pipes d) (wait_path host (this_id host t) d) = Some x \<and> 0 < bytes (pipes d) x)"

definition darwin_waiting ::
  "'f darwin_host \<Rightarrow> ('f \<Rightarrow> string \<Rightarrow> nat option) \<Rightarrow> ('f \<Rightarrow> nat \<Rightarrow> nat) \<Rightarrow> 'f darwin_cv \<Rightarrow> thread \<Rightarrow> bool"
where
  "darwin_waiting host path_of bytes d t \<longleftrightarrow> local_fifo d t \<noteq> None \<and> toRead d t = 4 \<and>
     (darwin_queued host d t \<or> darwin_signalled host path_of bytes d t)"

lemmas darwin_defs = darwin_inv_def darwin_queued_def darwin_signalled_def darwin_waiting_def owns_fifo_def

lemma wait_path_frame: "cond_name d' = cond_name d \<Longrightarrow> wait_path host i d' = wait_path host i d"
  by (simp add: wait_path_def fifo_name_def)

locale darwin_condition = darwin_fifos "fifo_api host" path_of behind bytes
  for host :: "'f darwin_host" and path_of behind bytes +
  assumes texts: "id_text host i = id_text host j \<longleftrightarrow> i = j"
begin

abbreviation "ok_data \<equiv> darwin_inv host path_of behind bytes"
abbreviation "waiting \<equiv> darwin_waiting host path_of bytes"
abbreviation "signalled \<equiv> darwin_signalled host path_of bytes"

lemma path_eq: "wait_path host i d = wait_path host j d \<longleftrightarrow> i = j"
  by (simp add: wait_path_def fifo_name_def fifo_path_def texts)

lemma invD:
  assumes "ok_data d"
  shows "queue_inv (thread_queue d)" "path_of (pipes d) m = Some x \<Longrightarrow> path_of (pipes d) n = Some x \<Longrightarrow> m = n"
    "4 dvd bytes (pipes d) x" "timed_result d t = - 1 \<or> timed_result d t = 4" "toRead d t \<le> 4"
    "local_fifo d t = Some f \<Longrightarrow> owns_fifo host path_of behind d t f"
    "local_fifo d t \<noteq> None \<Longrightarrow> local_fifo d u \<noteq> None \<Longrightarrow> this_id host t = this_id host u \<Longrightarrow> t = u"
  using assms unfolding darwin_inv_def by blast+

lemma ok_dataI:
  assumes "queue_inv (thread_queue d)"
    "\<And>m n x. path_of (pipes d) m = Some x \<Longrightarrow> path_of (pipes d) n = Some x \<Longrightarrow> m = n"
    "\<And>x. 4 dvd bytes (pipes d) x" "\<And>t. timed_result d t = - 1 \<or> timed_result d t = 4" "\<And>t. toRead d t \<le> 4"
    "\<And>t f. local_fifo d t = Some f \<Longrightarrow> owns_fifo host path_of behind d t f"
    "\<And>t u. local_fifo d t \<noteq> None \<Longrightarrow> local_fifo d u \<noteq> None \<Longrightarrow> this_id host t = this_id host u \<Longrightarrow> t = u"
  shows "ok_data d"
  unfolding darwin_inv_def using assms by blast

text \<open>A step that leaves the pipes of the waits where they are.\<close>

lemma ok_data_frame:
  assumes "ok_data d" "queue_inv (thread_queue d')" "cond_name d' = cond_name d" "local_fifo d' = local_fifo d"
    "path_of (pipes d') = path_of (pipes d)" "behind (pipes d') = behind (pipes d)"
    "\<And>x. 4 dvd bytes (pipes d') x" "\<And>t. timed_result d' t = - 1 \<or> timed_result d' t = 4" "\<And>t. toRead d' t \<le> 4"
  shows "ok_data d'"
proof (rule ok_dataI)
  fix t f assume "local_fifo d' t = Some f"
  then have "owns_fifo host path_of behind d t f" using invD(6) [OF assms(1)] assms(4) by simp
  then show "owns_fifo host path_of behind d' t f"
    using assms(5,6) wait_path_frame [OF assms(3)] by (simp add: owns_fifo_def)
next
  fix t u assume "local_fifo d' t \<noteq> None" "local_fifo d' u \<noteq> None" "this_id host t = this_id host u"
  then show "t = u" using invD(7) [OF assms(1)] assms(4) by simp
qed (use assms invD(2) [OF assms(1)] in simp_all)

lemma notify_existing:
  assumes i: "ok_data d" and q: "queue_list (thread_queue d) = i # ids"
    and p: "path_of (pipes d) (wait_path host i d) = Some x"
  shows "\<exists>d'. notify_waiter host d = (d', Inr ()) \<and> queue_inv (thread_queue d') \<and>
    queue_list (thread_queue d') = ids \<and> cond_name d' = cond_name d \<and> local_fifo d' = local_fifo d \<and>
    toRead d' = toRead d \<and> timed_result d' = timed_result d \<and> path_of (pipes d') = path_of (pipes d) \<and>
    behind (pipes d') = behind (pipes d) \<and>
    (\<exists>b. bytes (pipes d') = (bytes (pipes d))(x := b) \<and> 0 < b \<and> 4 dvd b)"
proof -
  obtain q' where q': "take_waiter (thread_queue d) = Inr (i, q')" "queue_inv q'" "queue_list q' = ids"
    using take_waiter_Cons [OF invD(1) [OF i] q] by blast
  let ?api = "fifo_api host" and ?p = "wait_path host i d"
  let ?f = "\<lambda>fd. \<lparr>fifo_disposer = \<lparr>func = Some (Close_Fifo fd False ?p)\<rparr>, fifo_descriptor = fd\<rparr>"
  obtain k fd where k: "FiFo_ctor ?api (fifo_name host i d) False (pipes d) = (k, Inr (?f fd))"
    "behind (pipes d) fd = None" "behind k = (behind (pipes d))(fd \<mapsto> x)"
    "path_of k = path_of (pipes d)" "bytes k = bytes (pipes d)"
    using FiFo_open_old [OF p [unfolded wait_path_def]] by (auto simp: wait_path_def)
  define k1 where "k1 = FiFo_Write ?api (?f fd) sizeof_SYNC_MESSAGE k"
  have "behind k fd = Some x" using k(3) by simp
  from write_bytes [OF this, of 4] obtain b where k1: "path_of k1 = path_of k" "behind k1 = behind k"
    "bytes k1 = (bytes k)(x := b)" "b = bytes k x + 4 \<or> 4 \<le> bytes k x \<and> b = bytes k x"
    by (auto simp: k1_def FiFo_Write_def sizeof_SYNC_MESSAGE_def)
  define k2 where "k2 = FiFo_dtor ?api (?f fd) k1"
  have k2: "path_of k2 = path_of k1" "behind k2 = (behind k1)(fd := None)" "bytes k2 = bytes k1"
    unfolding k2_def by (simp_all add: FiFo_destroy [OF refl])
  have "4 dvd b" "0 < b" using k1(4) invD(3) [OF i, of x] k(5) by auto
  moreover have "notify_waiter host d = (d\<lparr>thread_queue := q', pipes := k2\<rparr>, Inr ())"
    using q'(1) k(1) by (simp add: notify_waiter_def GetFiFo_def fifo_name_def k1_def k2_def)
  ultimately show ?thesis using q' k k1 k2 by (auto simp: fun_eq_iff)
qed

lemma notify_missing:
  assumes i: "ok_data d" and q: "queue_list (thread_queue d) = i # ids"
    and p: "path_of (pipes d) (wait_path host i d) = None"
  shows "\<exists>q'. notify_waiter host d = (d\<lparr>thread_queue := q'\<rparr>,
      Inl (runtime_error_code ''open of fifo failed: '' (Code ENOENT))) \<and> queue_inv q' \<and> queue_list q' = ids"
proof -
  obtain q' where q': "take_waiter (thread_queue d) = Inr (i, q')" "queue_inv q'" "queue_list q' = ids"
    using take_waiter_Cons [OF invD(1) [OF i] q] by blast
  then show ?thesis
    using FiFo_open_missing [OF p [unfolded wait_path_def]]
    by (auto simp: notify_waiter_def GetFiFo_def fifo_name_def)
qed

lemma notify_waiter_waits:
  assumes i: "ok_data d" and q: "queue_list (thread_queue d) = i # ids" and n: "notify_waiter host d = (d', r)"
  shows "ok_data d' \<and> queue_list (thread_queue d') = ids \<and> (waiting d u \<longrightarrow> waiting d' u)"
proof (cases "path_of (pipes d) (wait_path host i d)")
  case None
  obtain q' where q': "d' = d\<lparr>thread_queue := q'\<rparr>" "queue_inv q'" "queue_list q' = ids"
    using notify_missing [OF i q None] n by auto
  have w: "wait_path host j d' = wait_path host j d" for j using q'(1) by (intro wait_path_frame) simp
  have "ok_data d'" using q' invD [OF i] by (intro ok_data_frame [OF i]) simp_all
  moreover have "waiting d' u" if wu: "waiting d u"
  proof -
    obtain f where "local_fifo d u = Some f" using wu by (auto simp: darwin_waiting_def)
    then have "this_id host u \<noteq> i" using invD(6) [OF i, of u] None by (auto simp: owns_fifo_def)
    then show ?thesis using wu q q' w by (auto simp: darwin_defs)
  qed
  ultimately show ?thesis using q' by simp
next
  case (Some x)
  obtain b where s: "queue_inv (thread_queue d')" "queue_list (thread_queue d') = ids"
    "cond_name d' = cond_name d" "local_fifo d' = local_fifo d" "toRead d' = toRead d"
    "timed_result d' = timed_result d" "path_of (pipes d') = path_of (pipes d)"
    "behind (pipes d') = behind (pipes d)" "bytes (pipes d') = (bytes (pipes d))(x := b)" "0 < b" "4 dvd b"
    using notify_existing [OF i q Some] n by auto
  note w = wait_path_frame [OF s(3)]
  have "ok_data d'" using s invD [OF i] by (intro ok_data_frame [OF i]) simp_all
  moreover have "waiting d' u" if wu: "waiting d u"
  proof (cases "this_id host u = i")
    case True
    then show ?thesis using wu s w Some by (simp add: darwin_defs)
  next
    case False
    then show ?thesis using wu s w q by (auto simp: darwin_defs)
  qed
  ultimately show ?thesis using s(2) by blast
qed

lemma NotifyAll_waits:
  assumes "ok_data d" "Darwin_Condition_NotifyAll host d = (d', r)"
  shows "ok_data d' \<and> (\<forall>u. waiting d u \<longrightarrow> waiting d' u) \<and> (r = Inr () \<longrightarrow> queue_list (thread_queue d') = [])"
  using assms
proof (induction "length (queue_list (thread_queue d))" arbitrary: d rule: less_induct)
  case less
  show ?case
  proof (cases "queue_list (thread_queue d)")
    case Nil
    then show ?thesis
      using less.prems Count_pos_iff [of "thread_queue d"] by (auto simp: Darwin_Condition_NotifyAll.simps [of host d])
  next
    case (Cons i ids)
    obtain d1 r1 where n: "notify_waiter host d = (d1, r1)" by fastforce
    have w: "ok_data d1" "queue_list (thread_queue d1) = ids" "\<And>u. waiting d u \<Longrightarrow> waiting d1 u"
      using notify_waiter_waits [OF less.prems(1) Cons n] by blast+
    have c: "0 < Count (thread_queue d)" using Cons Count_pos_iff by (metis list.distinct(1))
    show ?thesis
    proof (cases r1)
      case (Inl e)
      then show ?thesis
        using less.prems(2) n w c by (auto simp: Darwin_Condition_NotifyAll.simps [of host d])
    next
      case (Inr u)
      then have "Darwin_Condition_NotifyAll host d1 = (d', r)"
        using less.prems(2) n c by (simp add: Darwin_Condition_NotifyAll.simps [of host d])
      then show ?thesis using less.hyps [OF _ w(1)] w Cons by simp
    qed
  qed
qed

lemma NotifyOne_waits:
  assumes "ok_data d" "Darwin_Condition_NotifyOne host d = (d', r)"
  shows "ok_data d' \<and> (\<forall>u. waiting d u \<longrightarrow> waiting d' u)"
proof (cases "queue_list (thread_queue d)")
  case Nil
  then show ?thesis
    using assms Count_pos_iff [of "thread_queue d"] by (auto simp: Darwin_Condition_NotifyOne_def)
next
  case (Cons i ids)
  then have "0 < Count (thread_queue d)" using Count_pos_iff by (metis list.distinct(1))
  then show ?thesis
    using notify_waiter_waits [OF assms(1) Cons] assms(2) by (simp add: Darwin_Condition_NotifyOne_def)
qed

text \<open>A thread that drops its pipe does not touch the pipe of another thread.\<close>

lemma drop_fifo_spec:
  assumes i: "ok_data d"
  shows "ok_data (drop_fifo host t d) \<and> (\<forall>u. u \<noteq> t \<longrightarrow> waiting d u \<longrightarrow> waiting (drop_fifo host t d) u)"
proof -
  show ?thesis
  proof (cases "local_fifo d t")
    case (Some f)
    let ?p = "\<lambda>u. wait_path host (this_id host u) d"
    obtain fd x where f: "f = \<lparr>fifo_disposer = \<lparr>func = Some (Close_Fifo fd True (?p t))\<rparr>, fifo_descriptor = fd\<rparr>"
      "path_of (pipes d) (?p t) = Some x" "behind (pipes d) fd = Some x"
      using invD(6) [OF i Some] by (auto simp: owns_fifo_def)
    define d' where "d' = drop_fifo host t d"
    have s: "path_of (pipes d') = (path_of (pipes d))(?p t := None)" "behind (pipes d') = (behind (pipes d))(fd := None)"
      "bytes (pipes d') = bytes (pipes d)" "local_fifo d' = (local_fifo d)(t := None)" "thread_queue d' = thread_queue d"
      "toRead d' = toRead d" "timed_result d' = timed_result d" "cond_name d' = cond_name d"
      using FiFo_destroy [OF f(1), of "pipes d"] Some by (simp_all add: d'_def drop_fifo_def)
    note w = wait_path_frame [OF s(8)]
    have o: "owns_fifo host path_of behind d' u g" "?p u \<noteq> ?p t" if u: "u \<noteq> t" "local_fifo d u = Some g" for u g
    proof -
      have "this_id host u \<noteq> this_id host t" using invD(7) [OF i, of u t] u Some by auto
      then show p: "?p u \<noteq> ?p t" by (simp add: path_eq)
      obtain fe y where g: "g = \<lparr>fifo_disposer = \<lparr>func = Some (Close_Fifo fe True (?p u))\<rparr>, fifo_descriptor = fe\<rparr>"
        "path_of (pipes d) (?p u) = Some y" "behind (pipes d) fe = Some y"
        using invD(6) [OF i u(2)] by (auto simp: owns_fifo_def)
      have "y \<noteq> x" using invD(2) [OF i g(2), of "?p t"] f(2) p by auto
      then have "fe \<noteq> fd" using g(3) f(3) by auto
      then show "owns_fifo host path_of behind d' u g" using g p by (simp add: owns_fifo_def s w)
    qed
    have "ok_data d'"
    proof (rule ok_dataI)
      fix v g assume "local_fifo d' v = Some g"
      then show "owns_fifo host path_of behind d' v g" using o(1) [of v g] by (simp add: s split: if_splits)
    next
      fix v w assume "local_fifo d' v \<noteq> None" "local_fifo d' w \<noteq> None" "this_id host v = this_id host w"
      then show "v = w" using invD(7) [OF i, of v w] by (simp add: s split: if_splits)
    next
      fix m n y assume "path_of (pipes d') m = Some y" "path_of (pipes d') n = Some y"
      then show "m = n" using invD(2) [OF i, of m y n] by (simp add: s split: if_splits)
    qed (use invD [OF i] in \<open>simp_all add: s\<close>)
    moreover have "waiting d' u" if u: "u \<noteq> t" "waiting d u" for u
    proof -
      obtain g where "local_fifo d u = Some g" using u(2) by (auto simp: darwin_waiting_def)
      then show ?thesis using o(2) [OF u(1)] u by (auto simp: darwin_queued_def darwin_signalled_def darwin_waiting_def s w)
    qed
    ultimately show ?thesis by (simp add: d'_def)
  qed (use i in \<open>simp_all add: drop_fifo_def\<close>)
qed

text \<open>The pipe of a thread in a wait.\<close>

lemma own_fifo:
  assumes "ok_data d" "local_fifo d t = Some f"
  obtains x where "path_of (pipes d) (wait_path host (this_id host t) d) = Some x"
    "behind (pipes d) (fifo_descriptor f) = Some x"
  using invD(6) [OF assms] by (auto simp: owns_fifo_def)

text \<open>A step that leaves the queue and the pipes where they are, and the bytes in the pipes of others.\<close>

lemma waiting_frame:
  assumes "waiting d u" "set (queue_list (thread_queue d)) - {this_id host t} \<subseteq> set (queue_list (thread_queue d'))"
    "cond_name d' = cond_name d" "local_fifo d' u = local_fifo d u" "toRead d' u = toRead d u"
    "this_id host u \<noteq> this_id host t"
    "\<And>y. path_of (pipes d) (wait_path host (this_id host u) d) = Some y \<Longrightarrow>
      path_of (pipes d') (wait_path host (this_id host u) d) = Some y \<and> bytes (pipes d') y = bytes (pipes d) y"
  shows "waiting d' u"
  using assms wait_path_frame [OF assms(3)]
  by (auto simp: darwin_waiting_def darwin_queued_def darwin_signalled_def)

lemma other_id:
  assumes "ok_data d" "waiting d u" "local_fifo d t \<noteq> None" "u \<noteq> t"
  shows "this_id host u \<noteq> this_id host t"
  using invD(7) [OF assms(1), of u t] assms(2-4) by (auto simp: darwin_waiting_def)

lemma create_spec:
  assumes i: "ok_data d" and g: "GetFiFo host (this_id host t) True d = (d0, Inr f)"
  defines "d1 \<equiv> d0\<lparr>local_fifo := (local_fifo d0)(t \<mapsto> f)\<rparr>"
  shows "ok_data d1 \<and> thread_queue d1 = thread_queue d \<and> toRead d1 = toRead d \<and> timed_result d1 = timed_result d \<and>
    (\<forall>u. u \<noteq> t \<longrightarrow> waiting d u \<longrightarrow> waiting d1 u)"
proof -
  let ?p = "\<lambda>u. wait_path host (this_id host u) d"
  from g obtain k where c: "FiFo_ctor (fifo_api host) (fifo_name host (this_id host t) d) True (pipes d) = (k, Inr f)"
    "d0 = d\<lparr>pipes := k\<rparr>"
    by (auto simp: GetFiFo_def split: prod.splits)
  obtain x fd where f: "f = \<lparr>fifo_disposer = \<lparr>func = Some (Close_Fifo fd True (?p t))\<rparr>, fifo_descriptor = fd\<rparr>"
    "path_of (pipes d) (?p t) = None" "behind (pipes d) fd = None"
    "path_of k = (path_of (pipes d))(?p t \<mapsto> x)" "behind k = (behind (pipes d))(fd \<mapsto> x)"
    "bytes k = (bytes (pipes d))(x := 0)" "\<And>m. path_of (pipes d) m \<noteq> Some x"
    using FiFo_create [OF c(1)] by (auto simp: wait_path_def)
  have s: "pipes d1 = k" "thread_queue d1 = thread_queue d" "toRead d1 = toRead d"
    "timed_result d1 = timed_result d" "cond_name d1 = cond_name d" "local_fifo d1 = (local_fifo d)(t \<mapsto> f)"
    by (simp_all add: d1_def c(2))
  note w = wait_path_frame [OF s(5)]
  have ne: "this_id host u \<noteq> this_id host t" if "local_fifo d u \<noteq> None" for u
    using own_fifo [OF i, of u] that f(2) by (metis not_None_eq option.distinct(1))
  have "ok_data d1"
  proof (rule ok_dataI)
    fix u g assume u: "local_fifo d1 u = Some g"
    show "owns_fifo host path_of behind d1 u g"
    proof (cases "u = t")
      case True
      then show ?thesis using u f by (auto simp: owns_fifo_def s w)
    next
      case False
      then have "local_fifo d u = Some g" using u by (simp add: s)
      then obtain fe y where o:
        "g = \<lparr>fifo_disposer = \<lparr>func = Some (Close_Fifo fe True (?p u))\<rparr>, fifo_descriptor = fe\<rparr>"
        "path_of (pipes d) (?p u) = Some y" "behind (pipes d) fe = Some y" "?p u \<noteq> ?p t"
        using invD(6) [OF i, of u g] ne [of u] by (auto simp: owns_fifo_def path_eq)
      then have "fe \<noteq> fd" using f(3) by auto
      then show ?thesis using o f(4,5) by (simp add: owns_fifo_def s w)
    qed
  next
    fix u v assume "local_fifo d1 u \<noteq> None" "local_fifo d1 v \<noteq> None" "this_id host u = this_id host v"
    then show "u = v" using invD(7) [OF i, of u v] ne [of u] ne [of v] by (auto simp: s split: if_splits)
  next
    fix m n y assume "path_of (pipes d1) m = Some y" "path_of (pipes d1) n = Some y"
    then show "m = n" using invD(2) [OF i, of m y n] f(7) by (auto simp: s f(4) split: if_splits)
  qed (use invD [OF i] in \<open>simp_all add: s f(6)\<close>)
  moreover have "waiting d1 u" if u: "u \<noteq> t" "waiting d u" for u
  proof (rule waiting_frame [OF u(2)])
    show n: "this_id host u \<noteq> this_id host t" using ne u(2) by (auto simp: darwin_waiting_def)
    then show "path_of (pipes d1) (?p u) = Some y \<and> bytes (pipes d1) y = bytes (pipes d) y"
      if "path_of (pipes d) (?p u) = Some y" for y
      using that f(7) [of "?p u"] by (auto simp: s f(4,6) path_eq)
  qed (use u(1) in \<open>auto simp: s\<close>)
  ultimately show ?thesis using s by blast
qed

lemma enter_spec:
  assumes i: "ok_data d" and e: "Darwin_enter host t d = (d', r)"
  shows "ok_data d' \<and> (r = Inr () \<longrightarrow> waiting d' t) \<and> (\<forall>u. u \<noteq> t \<longrightarrow> waiting d u \<longrightarrow> waiting d' u)"
proof -
  obtain d0 g where g: "GetFiFo host (this_id host t) True d = (d0, g)" by fastforce
  show ?thesis
  proof (cases g)
    case (Inl x)
    then have "FiFo_ctor (fifo_api host) (fifo_name host (this_id host t) d) True (pipes d) = (pipes d0, Inl x)"
      "d0 = d\<lparr>pipes := pipes d0\<rparr>"
      using g by (auto simp: GetFiFo_def split: prod.splits)
    then have "d0 = d" using FiFo_create_fails by fastforce
    then show ?thesis using e g Inl i by (auto simp: Darwin_enter_def)
  next
    case (Inr f)
    define d1 where "d1 = d0\<lparr>local_fifo := (local_fifo d0)(t \<mapsto> f)\<rparr>"
    have c: "ok_data d1" "thread_queue d1 = thread_queue d" "toRead d1 = toRead d"
      "timed_result d1 = timed_result d" "\<And>u. u \<noteq> t \<Longrightarrow> waiting d u \<Longrightarrow> waiting d1 u"
      using create_spec [OF i g [unfolded Inr]] unfolding d1_def by blast+
    show ?thesis
    proof (cases "PushBack (thread_queue d1) (this_id host t)")
      case (Inl x)
      then have "d' = drop_fifo host t d1" "r = Inl x"
        using e g Inr by (auto simp: Darwin_enter_def d1_def)
      then show ?thesis using drop_fifo_spec [OF c(1), of t] c(5) by simp
    next
      case p: (Inr q)
      have q: "queue_inv q" "queue_list q = queue_list (thread_queue d1) @ [this_id host t]"
        using PushBack_result [OF invD(1) [OF c(1)] p] by blast+
      have d': "d' = d1\<lparr>thread_queue := q, toRead := (toRead d1)(t := 4)\<rparr>" "r = Inr ()"
        using e g Inr p by (auto simp: Darwin_enter_def d1_def sizeof_SYNC_MESSAGE_def)
      have "ok_data d'"
        by (rule ok_data_frame [OF c(1)]) (use invD [OF c(1)] q in \<open>simp_all add: d'\<close>)
      moreover have "waiting d' t"
        using q(2) by (simp add: darwin_waiting_def darwin_queued_def d' d1_def)
      moreover have "waiting d' u" if "u \<noteq> t" "waiting d1 u" for u
        using that q(2) wait_path_frame [of d' d1]
        by (auto simp: darwin_waiting_def darwin_queued_def darwin_signalled_def d')
      ultimately show ?thesis using c(5) by blast
    qed
  qed
qed

text \<open>A signalled thread reads its whole message; the pipes of the others keep their bytes.\<close>

lemma whole_message:
  assumes "ok_data d" "0 < bytes (pipes d) x"
  shows "min 4 (bytes (pipes d) x) = 4" "4 dvd bytes (pipes d) x - 4"
  using invD(3) [OF assms(1), of x] assms(2) by (auto elim!: dvdE)

lemma read_others:
  assumes i: "ok_data d" and w: "local_fifo d t = Some f"
    and p: "behind (pipes d) (fifo_descriptor f) = Some x" "path_of (pipes d) (wait_path host (this_id host t) d) = Some x"
    and k: "path_of k = path_of (pipes d)" "behind k = behind (pipes d)" "bytes k = (bytes (pipes d))(x := b)" "4 dvd b"
    and d': "d' = d\<lparr>pipes := k, toRead := r, timed_result := s\<rparr>"
      "\<And>t. r t \<le> 4" "\<And>t. s t = - 1 \<or> s t = 4" "\<And>u. u \<noteq> t \<Longrightarrow> r u = toRead d u"
  shows "ok_data d' \<and> (\<forall>u. u \<noteq> t \<longrightarrow> waiting d u \<longrightarrow> waiting d' u)"
proof (intro conjI allI impI)
  show "ok_data d'"
    by (rule ok_data_frame [OF i]) (use invD [OF i] k d' in simp_all)
  show "waiting d' u" if u: "u \<noteq> t" "waiting d u" for u
  proof (rule waiting_frame [OF u(2)])
    show n: "this_id host u \<noteq> this_id host t" using other_id [OF i u(2) _ u(1)] w by simp
    have "wait_path host (this_id host u) d \<noteq> wait_path host (this_id host t) d" using n by (simp add: path_eq)
    then show "path_of (pipes d') (wait_path host (this_id host u) d) = Some y \<and> bytes (pipes d') y = bytes (pipes d) y"
      if "path_of (pipes d) (wait_path host (this_id host u) d) = Some y" for y
      using that invD(2) [OF i p(2), of "wait_path host (this_id host u) d"] by (auto simp: d'(1) k)
  qed (use u(1) d' in auto)
qed

lemma sleep_spec:
  assumes i: "ok_data d" and w: "waiting d t" and e: "Darwin_sleep host t c b d = Some (d', e)" and c: "is_wait c"
  shows "ok_data d' \<and> e = Awake \<and> (\<forall>u. u \<noteq> t \<longrightarrow> waiting d u \<longrightarrow> waiting d' u)"
proof -
  from w obtain f where f: "local_fifo d t = Some f" and r: "toRead d t = 4" by (auto simp: darwin_waiting_def)
  from own_fifo [OF i f] obtain x where x: "path_of (pipes d) (wait_path host (this_id host t) d) = Some x"
    "behind (pipes d) (fifo_descriptor f) = Some x" .
  note o = read_others [OF i f x(2,1)]
  have same: "bytes (pipes d) = (bytes (pipes d))(x := bytes (pipes d) x)" by simp
  show ?thesis
  proof (cases c)
    case (CV_WaitFor n)
    note R = FiFo_TimedRead_spec [OF x(2), of 4 "word_of_int n" b]
    show ?thesis
    proof (cases "bytes (pipes d) x = 0")
      case True
      then have "d' = d\<lparr>pipes := pipes d, toRead := toRead d, timed_result := (timed_result d)(t := - 1)\<rparr>" "e = Awake"
        using R(1) e CV_WaitFor f r by (auto simp: Darwin_WaitFor_read_def split: if_splits)
      then show ?thesis using o [OF refl refl same, where d' = d' and r = "toRead d" and s = "(timed_result d)(t := - 1)"] invD [OF i] by simp
    next
      case False
      then obtain k where k: "FiFo_TimedRead (fifo_api host) f 4 (word_of_int n) b (pipes d) = Some (k, Inr 4)"
        "path_of k = path_of (pipes d)" "behind k = behind (pipes d)"
        "bytes k = (bytes (pipes d))(x := bytes (pipes d) x - 4)"
        using R(2) whole_message [OF i, of x] by auto
      have "d' = d\<lparr>pipes := k, toRead := toRead d, timed_result := (timed_result d)(t := 4)\<rparr>" "e = Awake"
        using k(1) e CV_WaitFor f r by (auto simp: Darwin_WaitFor_read_def)
      then show ?thesis
        using o [OF k(2-4), where d' = d' and r = "toRead d" and s = "(timed_result d)(t := 4)"] whole_message [OF i, of x] False invD [OF i] by simp
    qed
  next
    case CV_Wait
    note R = FiFo_Read_spec [OF x(2), of 4]
    have p: "bytes (pipes d) x \<noteq> 0"
    proof
      assume "bytes (pipes d) x = 0"
      from R(1) [OF this] show False using e CV_Wait f r by (simp add: Darwin_Wait_read_def)
    qed
    then obtain k where k: "FiFo_Read (fifo_api host) f 4 (pipes d) = Some (k, Inr 4)"
      "path_of k = path_of (pipes d)" "behind k = behind (pipes d)"
      "bytes k = (bytes (pipes d))(x := bytes (pipes d) x - 4)"
      using R(2) whole_message [OF i, of x] by auto
    have "d' = d\<lparr>pipes := k, toRead := (toRead d)(t := 0), timed_result := timed_result d\<rparr>" "e = Awake"
      using k(1) e CV_Wait f r by (auto simp: Darwin_Wait_read_def)
    then show ?thesis
      using o [OF k(2-4), where d' = d' and r = "(toRead d)(t := 0)" and s = "timed_result d"] whole_message [OF i, of x] p invD [OF i] by simp
  qed (use c in simp_all)
qed

lemma end_spec:
  assumes i: "ok_data d" and e: "Darwin_end host t c d = (d', l)"
  shows "ok_data d' \<and> l \<noteq> Sleep_Again \<and> (\<forall>u. u \<noteq> t \<longrightarrow> waiting d u \<longrightarrow> waiting d' u)"
proof -
  have "d' = drop_fifo host t d \<and> l \<noteq> Sleep_Again"
    using e invD(4,5) [OF i, of t]
    by (cases c) (auto simp: Darwin_Wait_end_def Darwin_WaitFor_end_def split: if_splits)
  then show ?thesis using drop_fifo_spec [OF i] by blast
qed

lemma wakes:
  assumes i: "ok_data d" and w: "waiting d t" "signalled d t" and c: "is_wait c"
  shows "\<exists>d'. Darwin_sleep host t c b d = Some (d', Awake)"
proof -
  from w obtain f where f: "local_fifo d t = Some f" and r: "toRead d t = 4" by (auto simp: darwin_waiting_def)
  from own_fifo [OF i f] obtain x where x: "path_of (pipes d) (wait_path host (this_id host t) d) = Some x"
    "behind (pipes d) (fifo_descriptor f) = Some x" .
  have "0 < bytes (pipes d) x" using w(2) x(1) by (auto simp: darwin_signalled_def)
  then have p: "\<exists>k. FiFo_Read (fifo_api host) f 4 (pipes d) = Some (k, Inr 4)"
    "\<exists>k. FiFo_TimedRead (fifo_api host) f 4 ms b (pipes d) = Some (k, Inr 4)" for ms
    using FiFo_Read_spec(2) [OF x(2), of 4] FiFo_TimedRead_spec(2) [OF x(2), of 4 ms b] whole_message(1) [OF i, of x]
    by auto
  show ?thesis
  proof (cases c)
    case CV_Wait
    then show ?thesis using p(1) f r by (auto simp: Darwin_Wait_read_def)
  next
    case (CV_WaitFor n)
    then show ?thesis using p(2) [of "word_of_int n"] f r by (auto simp: Darwin_WaitFor_read_def)
  qed (use c in simp_all)
qed

lemma begin_eq: "is_wait c \<Longrightarrow> Darwin_begin host t c d = Darwin_enter host t d"
  by (cases c) (simp_all add: Darwin_Wait_def Darwin_WaitFor_def)

lemma darwin_wakeup:
  "wakeup (darwin_ops host) (darwin_inv host path_of behind bytes) (darwin_waiting host path_of bytes)
     (darwin_queued host) (darwin_signalled host path_of bytes)"
proof (unfold_locales, goal_cases)
  case (1 d c t d' r)
  then show ?case using enter_spec begin_eq by (simp add: darwin_ops_def)
next
  case (2 d t c b d' e)
  then show ?case using sleep_spec [of d t c b d' e] by (auto simp: darwin_ops_def)
next
  case (3 d t c d' l)
  then show ?case using end_spec [of d t c d' l] by (auto simp: darwin_ops_def)
next
  case (4 d c t d' r)
  then show ?case
    using NotifyOne_waits [of d d' r] NotifyAll_waits [of d d' r]
    by (auto simp: darwin_ops_def op_notify_def Darwin_NotifyOne_def Darwin_NotifyAll_def split: if_splits)
next
  case (6 d t d' u)
  then show ?case
    using NotifyAll_waits [of d d' "Inr ()"] by (auto simp: darwin_ops_def Darwin_NotifyAll_def darwin_queued_def)
next
  case (7 d t c b)
  then show ?case using wakes by (simp add: darwin_ops_def)
qed (simp add: darwin_waiting_def)

text \<open>A thread that waits and has no message: what its sleep does.\<close>

lemma sleep_unsignalled:
  assumes i: "ok_data d" and w: "waiting d t" "\<not> signalled d t"
  shows "Darwin_sleep host t CV_Wait b d = None"
    and "Darwin_sleep host t (CV_WaitFor ms) True d =
      (if (word_of_int ms :: u32) = 0 \<or> 0 \<le> sint (word_of_int ms :: u32)
       then Some (d\<lparr>timed_result := (timed_result d)(t := - 1)\<rparr>, Awake) else None)"
proof -
  from w obtain f where f: "local_fifo d t = Some f" and r: "toRead d t = 4" by (auto simp: darwin_waiting_def)
  from own_fifo [OF i f] obtain x where x: "path_of (pipes d) (wait_path host (this_id host t) d) = Some x"
    "behind (pipes d) (fifo_descriptor f) = Some x" .
  have z: "bytes (pipes d) x = 0" using w(2) x(1) by (auto simp: darwin_signalled_def)
  show "Darwin_sleep host t CV_Wait b d = None"
    using FiFo_Read_spec(1) [OF x(2) z, of 4] f r by (simp add: Darwin_Wait_read_def)
  show "Darwin_sleep host t (CV_WaitFor ms) True d =
      (if (word_of_int ms :: u32) = 0 \<or> 0 \<le> sint (word_of_int ms :: u32)
       then Some (d\<lparr>timed_result := (timed_result d)(t := - 1)\<rparr>, Awake) else None)"
    using FiFo_TimedRead_spec(1) [OF x(2) z, of 4 "word_of_int ms" True] f r by (simp add: Darwin_WaitFor_read_def)
qed

lemma drop_fifo_path:
  assumes "ok_data d" "local_fifo d t \<noteq> None"
  shows "path_of (pipes (drop_fifo host t d)) (wait_path host (this_id host t) d) = None"
    "thread_queue (drop_fifo host t d) = thread_queue d" "cond_name (drop_fifo host t d) = cond_name d"
    "bytes (pipes (drop_fifo host t d)) = bytes (pipes d)"
    "path_of (pipes d) n = None \<Longrightarrow> path_of (pipes (drop_fifo host t d)) n = None"
    "path_of (pipes (drop_fifo host t d)) n = Some x \<Longrightarrow> path_of (pipes d) n = Some x"
  using assms invD(6) [OF assms(1), of t] FiFo_destroy
  by (auto simp: owns_fifo_def drop_fifo_def split: if_splits)

lemma timeout_then_notify_all:
  assumes i: "ok_data (data S)" and w: "waiting (data S) t" "waiting (data S) u"
    and s: "\<not> signalled (data S) t" "\<not> signalled (data S) u"
    and p: "point S t = Sleeping (CV_WaitFor ms)" "point S u = Sleeping CV_Wait"
      "user_mutex S = None" "queue_mutex S = None" "0 \<le> sint (word_of_int ms :: u32)"
    and q: "queue_list (thread_queue (data S)) = this_id host t # ids"
  shows "\<exists>S'. cv_run (darwin_ops host)
      [Wake t True, Take_Queue t, Take_User t, Call t CV_NotifyAll, Section t] S = Some S' \<and>
    returned S' t = Some (Inl (runtime_error_code ''open of fifo failed: '' (Code ENOENT))) \<and>
    point S' u = Sleeping CV_Wait \<and> cv_step (darwin_ops host) (Wake u False) S' = None"
proof -
  let ?d = "(data S)\<lparr>timed_result := (timed_result (data S))(t := - 1)\<rparr>"
  have ne: "u \<noteq> t" using p(1,2) by auto
  have sl: "Darwin_sleep host t (CV_WaitFor ms) True (data S) = Some (?d, Awake)"
    using sleep_unsignalled(2) [OF i w(1) s(1)] p(5) by simp
  have i1: "ok_data ?d" by (rule ok_data_frame [OF i]) (use invD [OF i] in simp_all)
  have w1: "waiting ?d u" using w(2) wait_path_frame [of ?d "data S"]
    by (simp add: darwin_waiting_def darwin_queued_def darwin_signalled_def)
  define d2 where "d2 = drop_fifo host t ?d"
  have i2: "ok_data d2" and w2: "waiting d2 u" using drop_fifo_spec [OF i1, of t] ne w1 unfolding d2_def by blast+
  have l: "local_fifo ?d t \<noteq> None" using w(1) by (simp add: darwin_waiting_def)
  note dp = drop_fifo_path [OF i1 l, folded d2_def]
  have q2: "queue_list (thread_queue d2) = this_id host t # ids" using dp(2) q by simp
  have "path_of (pipes d2) (wait_path host (this_id host t) d2) = None"
    using dp(1) wait_path_frame [OF dp(3)] by simp
  from notify_missing [OF i2 q2 this] obtain q3 where q3: "notify_waiter host d2 =
      (d2\<lparr>thread_queue := q3\<rparr>, Inl (runtime_error_code ''open of fifo failed: '' (Code ENOENT)))" by blast
  define d3 where "d3 = d2\<lparr>thread_queue := q3\<rparr>"
  have i3: "ok_data d3" and w3: "waiting d3 u"
    using notify_waiter_waits [OF i2 q2 q3] w2 by (simp_all add: d3_def)
  have "\<not> signalled d2 u"
    using s(2) dp(6) wait_path_frame [OF dp(3)] wait_path_frame [of ?d "data S"] dp(4)
    by (fastforce simp: darwin_signalled_def)
  then have s3: "\<not> signalled d3 u"
    using wait_path_frame [of d3 d2] by (simp add: d3_def darwin_signalled_def)
  have c: "0 < Count (thread_queue d2)" using q2 Count_pos_iff by (metis list.distinct(1))
  have n: "Darwin_NotifyAll host True t d2 = (d3, Inl (runtime_error_code ''open of fifo failed: '' (Code ENOENT)))"
    using q3 c by (simp add: Darwin_NotifyAll_def Darwin_Condition_NotifyAll.simps [of host d2] d3_def)
  have e: "Darwin_end host t (CV_WaitFor ms) ?d = (d2, Leave (Inr (Some timeout)))"
    by (simp add: Darwin_WaitFor_end_def d2_def)
  show ?thesis
    using p sl n e ne sleep_unsignalled(1) [OF i3 w3 s3, of False]
    by (simp add: move_simps darwin_ops_def del: Darwin_sleep.simps Darwin_end.simps)
qed

text \<open>A wait whose pipe exists already throws.\<close>

lemma enter_exists:
  assumes "path_of (pipes d) (wait_path host (this_id host t) d) \<noteq> None"
  shows "Darwin_enter host t d = (d, Inl (runtime_error_code ''Failed to create fifo: '' (Code EEXIST)))"
  using FiFo_create_exists [OF assms [unfolded wait_path_def]]
  by (simp add: Darwin_enter_def GetFiFo_def)

end

section \<open>Properties\<close>

text \<open>A host, where a thread has the same id as the thread of that number in any other process.\<close>

definition pipe_host :: "fifo_table darwin_host" where
  "pipe_host = \<lparr>fifo_api = fifo_kernel, this_id = snd, id_text = (\<lambda>i. replicate i CHR ''I'')\<rparr>"

interpretation dh: darwin_condition pipe_host "\<lambda>k. map_of (paths k)" "\<lambda>k. map_of (descriptors k)" count_of
  by (intro darwin_condition.intro)
    (auto simp: pipe_host_def fk.darwin_fifos_axioms darwin_condition_axioms_def replicate_eq_replicate)

interpretation dw: wakeup "darwin_ops pipe_host"
  "darwin_inv pipe_host (\<lambda>k. map_of (paths k)) (\<lambda>k. map_of (descriptors k)) count_of"
  "darwin_waiting pipe_host (\<lambda>k. map_of (paths k)) count_of" "darwin_queued pipe_host"
  "darwin_signalled pipe_host (\<lambda>k. map_of (paths k)) count_of"
  by (rule dh.darwin_wakeup)

definition small_darwin :: "fifo_table darwin_cv" where
  "small_darwin =
     \<lparr>thread_queue = \<lparr>memory = \<lparr>readPosition = 0, writePosition = 0, itemCount = 0, items = [0, 0, 0]\<rparr>, qsize = 3\<rparr>,
      cond_name = ''cv'', pipes = \<lparr>paths = [], descriptors = [], contents = []\<rparr>, local_fifo = (\<lambda>t. None),
      toRead = (\<lambda>t. 0), timed_result = (\<lambda>t. - 1)\<rparr>"

lemma small_darwin_inv:
  "darwin_inv pipe_host (\<lambda>k. map_of (paths k)) (\<lambda>k. map_of (descriptors k)) count_of small_darwin"
  by (simp add: darwin_inv_def small_darwin_def queue_inv_def Let_def count_of_def)

definition darwin_runs_to :: "cv_move list \<Rightarrow> (fifo_table darwin_cv cv_system \<Rightarrow> bool) \<Rightarrow> bool" where
  "darwin_runs_to ms P =
     (case cv_run (darwin_ops pipe_host) ms (cv_start small_darwin) of None \<Rightarrow> False | Some S \<Rightarrow> P S)"

lemma darwin_runs_toE:
  assumes "darwin_runs_to ms P"
  obtains S where "cv_reachable (darwin_ops pipe_host) small_darwin S" "P S"
    "cv_run (darwin_ops pipe_host) ms (cv_start small_darwin) = Some S"
  using assms cv_run_reachable [OF _ cv_init, of "darwin_ops pipe_host" ms small_darwin]
  by (auto simp: darwin_runs_to_def split: option.splits)

text \<open>The thread (1, 1) goes to sleep; another thread times out later than it went to sleep.\<close>

definition first_sleeps :: "cv_move list" where
  "first_sleeps = [Lock_User (1, 1), Call (1, 1) CV_Wait, Section (1, 1)]"





text \<open>
  Ids of threads of two processes can be the same number. While a thread is in a wait, another thread
  with the same id cannot wait: the wait throws.
\<close>

theorem Darwin_same_id_cannot_wait:
  assumes "darwin_condition host path_of behind bytes" "darwin_inv host path_of behind bytes d"
    "cv_reachable (darwin_ops host) d S" "point S t = Sleeping c" "this_id host u = this_id host t"
    "point S u = Inside" "queue_mutex S = None" "is_wait c'"
  shows "\<exists>S'. cv_run (darwin_ops host) [Call u c', Section u] S = Some S' \<and> point S' u = Inside \<and>
    returned S' u = Some (Inl (runtime_error_code ''Failed to create fifo: '' (Code EEXIST)))"
proof -
  note w = darwin_condition.darwin_wakeup [OF assms(1)]
  note s = wakeup.axioms(1) [OF w]
  note d = sleepers.all_waitingD [OF s sleepers.all_waiting_reachable [OF s assms(3,2)]]
  have "local_fifo (data S) t \<noteq> None" using d(2) [OF assms(4)] by (simp add: darwin_waiting_def)
  then obtain f where "local_fifo (data S) t = Some f" by auto
  from darwin_condition.own_fifo [OF assms(1) d(1) this]
  have "path_of (pipes (data S)) (wait_path host (this_id host u) (data S)) \<noteq> None"
    using assms(5) by (metis option.distinct(1))
  then show ?thesis
    using darwin_condition.enter_exists [OF assms(1)] darwin_condition.begin_eq [OF assms(1,8)] assms(6-8)
    by (simp add: move_simps darwin_ops_def)
qed

theorem Darwin_same_id_cannot_wait_witness:
  "\<exists>S S'. cv_run (darwin_ops pipe_host) (first_sleeps @ [Lock_User (2, 1)]) (cv_start small_darwin) = Some S \<and>
    cv_run (darwin_ops pipe_host) [Call (2, 1) CV_Wait, Section (2, 1)] S = Some S' \<and>
    returned S' (2, 1) = Some (Inl (runtime_error_code ''Failed to create fifo: '' (Code EEXIST)))"
proof -
  have "darwin_runs_to (first_sleeps @ [Lock_User (2, 1)])
      (\<lambda>S. point S (1, 1) = Sleeping CV_Wait \<and> point S (2, 1) = Inside \<and> queue_mutex S = None)"
    by code_simp
  then show ?thesis
  proof (rule darwin_runs_toE)
    fix S
    assume r: "cv_reachable (darwin_ops pipe_host) small_darwin S"
      and "point S (1, 1) = Sleeping CV_Wait \<and> point S (2, 1) = Inside \<and> queue_mutex S = None"
      and run: "cv_run (darwin_ops pipe_host) (first_sleeps @ [Lock_User (2, 1)]) (cv_start small_darwin) = Some S"
    then have p: "point S (1, 1) = Sleeping CV_Wait" "point S (2, 1) = Inside" "queue_mutex S = None" by simp_all
    have i: "this_id pipe_host (2, 1) = this_id pipe_host (1, 1)" by (simp add: pipe_host_def)
    have c: "is_wait CV_Wait" by simp
    show ?thesis
      using Darwin_same_id_cannot_wait [OF dh.darwin_condition_axioms small_darwin_inv r p(1) i p(2,3) c] run by blast
  qed
qed

text \<open>The order of the two mutexes leads to the same deadlock as on Windows.\<close>

theorem Darwin_lock_order_deadlock:
  assumes "darwin_condition host path_of behind bytes" "darwin_inv host path_of behind bytes d"
    "cv_reachable (darwin_ops host) d S" "point S t = Sleeping c"
    "darwin_signalled host path_of bytes (data S) t" "point S u = Inside" "queue_mutex S = None"
  shows "\<exists>S'. cv_run (darwin_ops host) [Wake t False, Take_Queue t, Call u c'] S = Some S' \<and>
    (\<forall>ms S''. cv_run (darwin_ops host) ms S' = Some S'' \<longrightarrow>
       point S'' t = Relocking c \<and> point S'' u = Calling c' True)"
  by (rule wakeup.lock_order_deadlock [OF darwin_condition.darwin_wakeup [OF assms(1)] assms(3,2,4-7)])

theorem Darwin_lock_order_deadlock_witness:
  "\<exists>S S'. cv_run (darwin_ops pipe_host)
      (first_sleeps @ [Lock_User (1, 2), Call (1, 2) CV_NotifyOne, Section (1, 2)]) (cv_start small_darwin) = Some S \<and>
    cv_run (darwin_ops pipe_host) [Wake (1, 1) False, Take_Queue (1, 1), Call (1, 2) CV_Wait] S = Some S' \<and>
    (\<forall>ms S''. cv_run (darwin_ops pipe_host) ms S' = Some S'' \<longrightarrow>
       point S'' (1, 1) = Relocking CV_Wait \<and> point S'' (1, 2) = Calling CV_Wait True)"
proof -
  let ?ms = "first_sleeps @ [Lock_User (1, 2), Call (1, 2) CV_NotifyOne, Section (1, 2)]"
  let ?P = "\<lambda>S. point S (1, 1) = Sleeping CV_Wait \<and> point S (1, 2) = Inside \<and> queue_mutex S = None \<and>
      map_option (count_of (pipes (data S))) (map_of (paths (pipes (data S))) (wait_path pipe_host 1 (data S))) = Some 4"
  have "darwin_runs_to ?ms ?P"
    by code_simp
  then show ?thesis
  proof (rule darwin_runs_toE)
    fix S
    assume r: "cv_reachable (darwin_ops pipe_host) small_darwin S" and "?P S"
      and run: "cv_run (darwin_ops pipe_host) ?ms (cv_start small_darwin) = Some S"
    then have p: "point S (1, 1) = Sleeping CV_Wait"
      "darwin_signalled pipe_host (\<lambda>k. map_of (paths k)) count_of (data S) (1, 1)"
      "point S (1, 2) = Inside" "queue_mutex S = None"
      by (auto simp: pipe_host_def darwin_signalled_def)
    obtain S' where
      "cv_run (darwin_ops pipe_host) [Wake (1, 1) False, Take_Queue (1, 1), Call (1, 2) CV_Wait] S = Some S' \<and>
       (\<forall>ms S''. cv_run (darwin_ops pipe_host) ms S' = Some S'' \<longrightarrow>
          point S'' (1, 1) = Relocking CV_Wait \<and> point S'' (1, 2) = Calling CV_Wait True)"
      using Darwin_lock_order_deadlock [OF dh.darwin_condition_axioms small_darwin_inv r p, of CV_Wait]
      by (elim exE) rule
    then show ?thesis using run by (intro exI [of _ S] exI [of _ S'] conjI) auto
  qed
qed

end
