(* ===== verification/Shared_Object.thy ===== *)
theory Shared_Object
  imports Linux_Shared_Memory
begin

text \<open>
  Objects in shared memory: a mutex or a condition variable is made in a block of shared memory and
  used through the address at which a process has mapped the block. The processes that map the same
  block use the same object.
\<close>

section \<open>The contract\<close>

text \<open>\<open>put_object\<close> writes the object at an address, \<open>get_object\<close> reads it.\<close>

record ('k, 'o) placement =
  put_object :: "nat \<Rightarrow> 'o \<Rightarrow> 'k \<Rightarrow> 'k"
  get_object :: "nat \<Rightarrow> 'k \<Rightarrow> 'o"

text \<open>
  Beside the names, descriptors and mappings of \<open>shm_view\<close> the system has a \<open>rest\<close>, which the functions
  for shared memory leave alone; \<open>contents\<close> is the object in each block.
\<close>

locale object_memory = posix_shared_memory api view for api :: "'k posix_shm" and view +
  fixes mem :: "('k, 'o, 'z) placement_scheme" and rest :: "'k \<Rightarrow> 'r" and contents :: "'r \<Rightarrow> nat \<Rightarrow> 'o"
  assumes open_rest: "rest (fst (shm_open api n fl mode k)) = rest k"
    and unlink_rest: "rest (fst (shm_unlink api n k)) = rest k"
    and ftruncate_rest: "rest (fst (ftruncate api fd sz k)) = rest k"
    and mmap_rest: "rest (fst (mmap api sz fd k)) = rest k"
    and munmap_rest: "rest (munmap api a sz k) = rest k"
    and close_rest: "rest (close_fd api fd k) = rest k"
    and put_view: "view (put_object mem a m k) = view k"
    and put_contents: "mapped (view k) a = Some x \<Longrightarrow>
      contents (rest (put_object mem a m k)) = (contents (rest k))(x := m)"
    and get: "mapped (view k) a = Some x \<Longrightarrow> get_object mem a k = contents (rest k) x"
begin

lemma cleanup_rest: "rest (run_cleanup api c k) = rest k"
  by (cases c) (simp_all add: Let_def unlink_rest close_rest munmap_rest)

lemma fold_cleanup_rest: "rest (fold (run_cleanup api) cs k) = rest k"
  by (induction cs arbitrary: k) (simp_all add: cleanup_rest)

lemma dispose_rest: "rest (dispose api d k) = rest k"
  by (simp add: dispose_def fold_cleanup_rest)

lemma memory_dtor_rest: "rest (SharedMemory_dtor api sm k) = rest k"
  by (simp add: SharedMemory_dtor_def dispose_rest)

lemma step_rest:
  "shm_open api n fl mode k = (k', r) \<Longrightarrow> rest k' = rest k"
  "shm_unlink api n k = (k', u) \<Longrightarrow> rest k' = rest k"
  "ftruncate api fd sz k = (k', u) \<Longrightarrow> rest k' = rest k"
  "mmap api sz fd k = (k', a) \<Longrightarrow> rest k' = rest k"
  using open_rest [of n fl mode k] unlink_rest [of n k] ftruncate_rest [of fd sz k] mmap_rest [of sz fd k] by simp_all

lemma Linux_Create_rest:
  assumes "Linux_CreateSharedMemory api b n d k = (k', d', r)"
  shows "rest k' = rest k"
proof -
  let ?fl = "if b then [O_RDWR, O_CREAT, O_EXCL] else [O_RDWR]"
  obtain k1 r1 where o: "shm_open api n ?fl 416 k = (k1, r1)" by fastforce
  obtain k2 u where u: "shm_unlink api n k1 = (k2, u)" by fastforce
  obtain k3 r3 where o3: "shm_open api n ?fl 416 k2 = (k3, r3)" by fastforce
  have "k' \<in> {k1, k2, k3}"
    using assms o u o3 by (auto simp: Linux_CreateSharedMemory_def Let_def split: sum.splits if_splits)
  then show ?thesis using step_rest(1) [OF o] step_rest(2) [OF u] step_rest(1) [OF o3] by auto
qed

lemma Linux_Allocate_rest:
  assumes "Linux_AllocateSharedMemory api fd sz b d k = (k', d', r)"
  shows "rest k' = rest k"
proof -
  obtain k1 r1 where t: "(if b then ftruncate api fd sz k else (k, Inr ())) = (k1, r1)"
    by fastforce
  then have "rest k1 = rest k" using step_rest(3) [of fd sz k k1 r1] by (auto split: if_splits)
  moreover obtain k2 r2 where m: "mmap api sz fd k1 = (k2, r2)" by fastforce
  moreover have "k' \<in> {k1, k2}"
    using assms t m by (auto simp: Linux_AllocateSharedMemory_def split: sum.splits)
  ultimately show ?thesis using step_rest(4) [OF m] by auto
qed

lemma Linux_memory_rest:
  assumes "Linux_SharedMemory_ctor api n sz b k = (k', r)"
  shows "rest k' = rest k"
proof -
  obtain k1 d1 r1 where c: "Linux_CreateSharedMemory api b n Disposer_default k = (k1, d1, r1)"
    using prod_cases3 by blast
  show ?thesis
  proof (cases r1)
    case (Inl e)
    then show ?thesis
      using assms c Linux_Create_rest [OF c] by (auto simp: Linux_SharedMemory_ctor_def dispose_rest)
  next
    case (Inr fd)
    obtain k2 d2 r2 where a: "Linux_AllocateSharedMemory api fd sz b Disposer_default k1 = (k2, d2, r2)"
      using prod_cases3 by blast
    show ?thesis
      using assms c Inr a Linux_Create_rest [OF c] Linux_Allocate_rest [OF a]
      by (auto simp: Linux_SharedMemory_ctor_def dispose_rest split: sum.splits)
  qed
qed

end

section \<open>A system that satisfies the contract\<close>

record 'o object_tables =
  memory_tables :: shm_tables
  objects :: "nat \<Rightarrow> 'o"

definition lift :: "(shm_tables \<Rightarrow> shm_tables \<times> 'r) \<Rightarrow> ('o, 'z) object_tables_scheme \<Rightarrow> ('o, 'z) object_tables_scheme \<times> 'r" where
  "lift f k = (case f (memory_tables k) of (m, r) \<Rightarrow> (k\<lparr>memory_tables := m\<rparr>, r))"

definition object_shm :: "('o, 'z) object_tables_scheme posix_shm" where
  "object_shm =
     \<lparr>shm_open = (\<lambda>n fl mode. lift (shm_open tables n fl mode)), shm_unlink = (\<lambda>n. lift (shm_unlink tables n)),
      ftruncate = (\<lambda>fd sz. lift (ftruncate tables fd sz)), fstat_size = (\<lambda>fd k. fstat_size tables fd (memory_tables k)),
      mmap = (\<lambda>sz fd. lift (mmap tables sz fd)),
      munmap = (\<lambda>a sz k. k\<lparr>memory_tables := munmap tables a sz (memory_tables k)\<rparr>),
      close_fd = (\<lambda>fd k. k\<lparr>memory_tables := close_fd tables fd (memory_tables k)\<rparr>)\<rparr>"

definition object_view :: "('o, 'z) object_tables_scheme \<Rightarrow> shm_view" where
  "object_view k = tables_view (memory_tables k)"

definition table_put :: "nat \<Rightarrow> 'o \<Rightarrow> ('o, 'z) object_tables_scheme \<Rightarrow> ('o, 'z) object_tables_scheme" where
  "table_put a m k =
     (case map_of (maps (memory_tables k)) a of None \<Rightarrow> k | Some x \<Rightarrow> k\<lparr>objects := (objects k)(x := m)\<rparr>)"

text \<open>Reading an address that is not mapped gives what is in block 0, which is never mapped.\<close>

definition table_get :: "nat \<Rightarrow> ('o, 'z) object_tables_scheme \<Rightarrow> 'o" where
  "table_get a k = objects k (case map_of (maps (memory_tables k)) a of None \<Rightarrow> 0 | Some x \<Rightarrow> x)"

lemma lift_step: "lift f k = (k', r) \<Longrightarrow> f (memory_tables k) = (memory_tables k', r)"
  by (auto simp: lift_def split: prod.splits)

lemma lift_frame:
  "object_tables.more (fst (lift f k)) = object_tables.more k" "objects (fst (lift f k)) = objects k"
  "memory_tables (fst (lift f k)) = fst (f (memory_tables k))"
  by (simp_all add: lift_def split: prod.split)

lemma object_shm_calls:
  "shm_open object_shm n fl mode = lift (shm_open tables n fl mode)"
  "shm_unlink object_shm n = lift (shm_unlink tables n)"
  "ftruncate object_shm fd sz = lift (ftruncate tables fd sz)"
  "mmap object_shm sz fd = lift (mmap tables sz fd)"
  "munmap object_shm a sz k = k\<lparr>memory_tables := munmap tables a sz (memory_tables k)\<rparr>"
  "close_fd object_shm fd k = k\<lparr>memory_tables := close_fd tables fd (memory_tables k)\<rparr>"
  by (simp_all add: object_shm_def)

lemmas tables_laws = shm.open_fails shm.open_exists shm.open_old shm.open_new shm.unlink_fails shm.unlink_done
  shm.mmap_fails shm.mmap_done

interpretation oshm: posix_shared_memory object_shm object_view
  by (unfold_locales; unfold object_shm_calls object_view_def lift_frame object_tables.simps;
      (drule lift_step)?; (erule tables_laws; assumption | simp add: shm.ftruncate_view shm.munmap_view shm.close_view))

definition table_placement :: "(('o, 'z) object_tables_scheme, 'o) placement" where
  "table_placement = \<lparr>put_object = table_put, get_object = table_get\<rparr>"

lemma table_put_get:
  "object_view (table_put a m k) = object_view k"
  "mapped (object_view k) a = Some x \<Longrightarrow> objects (table_put a m k) = (objects k)(x := m)"
  "mapped (object_view k) a = Some x \<Longrightarrow> table_get a k = objects k x"
  "object_tables.more (table_put a m k) = object_tables.more k"
  by (auto simp: object_view_def tables_view_def table_put_def table_get_def split: option.splits)

interpretation om: object_memory object_shm object_view table_placement objects "\<lambda>r. r"
  by unfold_locales
    (simp_all add: object_shm_calls lift_frame table_placement_def table_put_get)

end
