(* ===== verification/Darwin_Mutex_Setup.thy ===== *)
theory Darwin_Mutex_Setup
  imports Darwin_Mutex Darwin_Shared_Memory Shared_Object
begin

text \<open>
  The construction and the destruction of the mutex on macOS (\<open>src/ipc/darwin/RobustMutex.cpp\<close>): the
  first object of a process, owner or not, makes the mutex of the process in a shared memory of the
  process, the others attach to it; and every object opens the lock file.
\<close>

section \<open>The functions of the system\<close>

text \<open>
  Beside the functions for shared memory: the mutex at an address, and files. An open stream is its
  descriptor. \<open>pid_text\<close> is \<open>std::to_string(getpid())\<close> in a process.
\<close>

record ('k, 'm) darwin_files = "('k, 'm) placement" +
  stat_succeeds :: "string \<Rightarrow> 'k \<Rightarrow> bool"
  create_file :: "string \<Rightarrow> 'k \<Rightarrow> 'k"
  fopen_rb :: "string \<Rightarrow> 'k \<Rightarrow> 'k \<times> (errno + nat)"
  fclose :: "nat \<Rightarrow> 'k \<Rightarrow> 'k \<times> c_result"
  pid_text :: "nat \<Rightarrow> string"

section \<open>The class RobustMutex\<close>

record robust_mutex =
  mutexMemory :: shared_memory
  mutexDisposer :: "nat disposer"
  mutexPointer :: nat
  lockFile :: nat

definition local_memory_name :: "('k, 'm) darwin_files \<Rightarrow> string \<Rightarrow> nat \<Rightarrow> string" where
  "local_memory_name sys name p = name @ ''__mutexMemory'' @ pid_text sys p"

text \<open>The function of \<open>_mutexDisposer\<close>.\<close>

definition destroy_mutex ::
  "'m pthread \<Rightarrow> ('k, 'm) darwin_files \<Rightarrow> nat disposer \<Rightarrow> 'k \<Rightarrow> 'k"
where
  "destroy_mutex papi sys d k =
     fold (\<lambda>a k. put_object sys a (pthread_mutex_destroy papi (get_object sys a k)) k) (Disposer_dtor d) k"

text \<open>
  \<open>sizeof(pthread_mutex_t)\<close> is 64. When the memory of a client is missing, the client makes it as its
  owner. An exception destroys the memory that has been made.
\<close>

definition CreateLocalMutex ::
  "'k posix_shm \<Rightarrow> name_functions \<Rightarrow> 'm pthread \<Rightarrow> ('k, 'm) darwin_files \<Rightarrow> bool \<Rightarrow> string \<Rightarrow> nat \<Rightarrow> 'k \<Rightarrow>
     'k \<times> (shm_error + shared_memory \<times> nat disposer \<times> nat)"
where
  "CreateLocalMutex api lib papi sys isOwner name p k =
     (let full = local_memory_name sys name p;
          made = (case Darwin_SharedMemory_ctor api lib full 64 isOwner k of
             (k, Inl ResourceMissingError) \<Rightarrow> (True, Darwin_SharedMemory_ctor api lib full 64 True k)
           | (k, r) \<Rightarrow> (isOwner, (k, r)))
      in case made of
           (isOwner, (k, Inl e)) \<Rightarrow> (k, Inl e)
         | (isOwner, (k, Inr mem)) \<Rightarrow>
             (if isOwner
              then (case InitLocalMutex papi of (m, r) \<Rightarrow>
                      let k = put_object sys (mem_address mem) m k in
                      case r of
                        Inl e \<Rightarrow> (SharedMemory_dtor api mem k, Inl (Thrown e))
                      | Inr _ \<Rightarrow> (k, Inr (mem, Disposer_Set Disposer_default (Some (mem_address mem)), mem_address mem)))
              else (k, Inr (mem, Disposer_default, mem_address mem))))"

definition lock_path :: "string \<Rightarrow> string" where
  "lock_path name = ''/tmp/mutex_'' @ name @ ''.lock''"

definition OpenFile :: "('k, 'm) darwin_files \<Rightarrow> string \<Rightarrow> bool \<Rightarrow> 'k \<Rightarrow> 'k \<times> (cpp_error + nat)" where
  "OpenFile sys name isOwner k =
     (let k = (if isOwner \<and> \<not> stat_succeeds sys (lock_path name) k
               then create_file sys (lock_path name) k else k)
      in case fopen_rb sys (lock_path name) k of
           (k, Inl e) \<Rightarrow> (k, Inl (runtime_error_code ''fopen failed with error '' (Code e)))
         | (k, Inr fd) \<Rightarrow> (k, Inr fd))"

definition Darwin_RobustMutex_ctor ::
  "'k posix_shm \<Rightarrow> name_functions \<Rightarrow> 'm pthread \<Rightarrow> ('k, 'm) darwin_files \<Rightarrow> string \<Rightarrow> bool \<Rightarrow> nat \<Rightarrow> 'k \<Rightarrow>
     'k \<times> (shm_error + robust_mutex)"
where
  "Darwin_RobustMutex_ctor api lib papi sys name isOwner p k =
     (case CreateLocalMutex api lib papi sys isOwner (local_memory_name sys name p) p k of
        (k, Inl e) \<Rightarrow> (k, Inl e)
      | (k, Inr (mem, d, a)) \<Rightarrow>
          (case OpenFile sys (name @ ''_mutex'') isOwner k of
             (k, Inl e) \<Rightarrow> (SharedMemory_dtor api mem (destroy_mutex papi sys d k), Inl (Thrown e))
           | (k, Inr fd) \<Rightarrow>
               (k, Inr \<lparr>mutexMemory = mem, mutexDisposer = d, mutexPointer = a, lockFile = fd\<rparr>)))"

text \<open>
  The destructor: the file is closed, the mutex destroyed by the object that made it, the memory
  released. \<open>None\<close> is the end of the program: the function that closes the file throws when \<open>fclose\<close>
  fails, and a destructor lets no exception out.
\<close>

definition Darwin_RobustMutex_dtor ::
  "'k posix_shm \<Rightarrow> 'm pthread \<Rightarrow> ('k, 'm) darwin_files \<Rightarrow> robust_mutex \<Rightarrow> 'k \<Rightarrow> 'k option"
where
  "Darwin_RobustMutex_dtor api papi sys m k =
     (case fclose sys (lockFile m) k of (k, result) \<Rightarrow>
        if result \<noteq> Zero then None
        else Some (SharedMemory_dtor api (mutexMemory m) (destroy_mutex papi sys (mutexDisposer m) k)))"

text \<open>The name of the object behind the memory of a process: the code appends the suffix twice.\<close>

definition memory_object :: "name_functions \<Rightarrow> ('k, 'm) darwin_files \<Rightarrow> string \<Rightarrow> nat \<Rightarrow> string" where
  "memory_object lib sys name p = object_name lib (local_memory_name sys (local_memory_name sys name p) p)"

section \<open>What the construction of a memory leaves alone\<close>

context object_memory
begin

lemma Darwin_open_rest:
  assumes "Darwin_open api b n d k = (k', d', r)"
  shows "rest k' = rest k"
proof -
  let ?fl = "if b then [O_RDWR, O_CREAT] else [O_RDWR]"
  obtain k1 r1 where o: "shm_open api n ?fl 420 k = (k1, r1)" by fastforce
  obtain k2 u where u: "shm_unlink api n k1 = (k2, u)" by fastforce
  obtain k3 r3 where o3: "shm_open api n ?fl 420 k2 = (k3, r3)" by fastforce
  have "k' \<in> {k1, k2, k3}"
    using assms o u o3 by (auto simp: Darwin_open_def Let_def split: sum.splits if_splits)
  then show ?thesis using step_rest(1) [OF o] step_rest(2) [OF u] step_rest(1) [OF o3] by auto
qed

lemma Darwin_Create_rest:
  assumes "Darwin_CreateSharedMemory api lib b name d k = (k', d', r)"
  shows "rest k' = rest k"
proof (cases "base64_encode lib (sha1_hash lib name)")
  case (Inl e)
  then show ?thesis using assms by (simp add: Darwin_CreateSharedMemory_def)
next
  case (Inr s)
  then have "Darwin_open api b (''/'' @ s) d (if b then fst (shm_unlink api (''/'' @ s) k) else k) = (k', d', r)"
    using assms by (cases b) (simp_all add: Darwin_CreateSharedMemory_def Let_def)
  from Darwin_open_rest [OF this] show ?thesis by (simp add: unlink_rest split: if_splits)
qed

lemma Darwin_Allocate_rest:
  assumes "Darwin_AllocateSharedMemory api fd sz b d k = (k', d', r)"
  shows "rest k' = rest k"
proof -
  obtain k1 r1 where t: "(if b \<and> fstat_size api fd k = Some 0 then ftruncate api fd sz k else (k, Inr ())) = (k1, r1)"
    by fastforce
  then have "rest k1 = rest k" using step_rest(3) [of fd sz k k1 r1] by (auto split: if_splits)
  moreover obtain k2 r2 where m: "mmap api sz fd k1 = (k2, r2)" by fastforce
  moreover have "k' \<in> {k1, k2}"
    using assms t m by (auto simp: Darwin_AllocateSharedMemory_def split: sum.splits)
  ultimately show ?thesis using step_rest(4) [OF m] by auto
qed

lemma memory_ctor_rest:
  assumes "Darwin_SharedMemory_ctor api lib name sz b k = (k', r)"
  shows "rest k' = rest k"
proof -
  obtain k1 d1 r1 where c: "Darwin_CreateSharedMemory api lib b name Disposer_default k = (k1, d1, r1)"
    using prod_cases3 by blast
  show ?thesis
  proof (cases r1)
    case (Inl e)
    then show ?thesis
      using assms c Darwin_Create_rest [OF c] by (auto simp: Darwin_SharedMemory_ctor_def dispose_rest)
  next
    case (Inr fd)
    obtain k2 d2 r2 where a: "Darwin_AllocateSharedMemory api fd sz b Disposer_default k1 = (k2, d2, r2)"
      using prod_cases3 by blast
    show ?thesis
      using assms c Inr a Darwin_Create_rest [OF c] Darwin_Allocate_rest [OF a]
      by (auto simp: Darwin_SharedMemory_ctor_def dispose_rest split: sum.splits)
  qed
qed

end

section \<open>The contract of the files\<close>

text \<open>
  Beside the names, descriptors and mappings of \<open>shm_view\<close>: the mutex in each memory object, the open
  streams and the files there are. The functions for shared memory leave these alone.
\<close>

record 'm darwin_rest =
  mutex_in :: "nat \<Rightarrow> 'm"
  streams :: "nat set"
  lock_files :: "string set"

locale darwin_setup = object_memory api view sys rest mutex_in + posix_errorcheck papi status
  for api :: "'k posix_shm" and view and sys :: "('k, 'm) darwin_files" and rest :: "'k \<Rightarrow> 'm darwin_rest"
    and papi :: "'m pthread" and status +
  assumes open_missing: "shm_open api n fl mode k = (k', Inl ENOENT) \<Longrightarrow> object_of (view k) n = None"
    and put_streams: "streams (rest (put_object sys a m k)) = streams (rest k)"
    and stat_tells: "stat_succeeds sys n k \<longleftrightarrow> n \<in> lock_files (rest k)"
    and create_file_keeps: "view (create_file sys n k) = view k \<and>
      rest (create_file sys n k) = (rest k)\<lparr>lock_files := insert n (lock_files (rest k))\<rparr>"
    and fopen_fails: "fopen_rb sys n k = (k', Inl e) \<Longrightarrow> k' = k"
    and fopen_opens: "fopen_rb sys n k = (k', Inr fd) \<Longrightarrow> n \<in> lock_files (rest k) \<and> fd \<notin> streams (rest k) \<and>
      view k' = view k \<and> rest k' = (rest k)\<lparr>streams := insert fd (streams (rest k))\<rparr>"
    and fclose_closes: "fd \<in> streams (rest k) \<Longrightarrow> \<exists>k'. fclose sys fd k = (k', Zero) \<and> view k' = view k \<and>
      rest k' = (rest k)\<lparr>streams := streams (rest k) - {fd}\<rparr>"
    and init_succeeds: "snd (pthread_mutex_init papi {MUTEX_ERRORCHECK, PROCESS_SHARED}) = Zero"
begin

lemmas put = put_view put_streams put_contents

text \<open>Only a client is told that a memory is missing, and only when it is.\<close>

lemma memory_missing:
  assumes "Darwin_SharedMemory_ctor api lib name sz False k = (k', Inl ResourceMissingError)"
  shows "object_of (view k) (object_name lib name) = None"
proof -
  obtain k1 d1 r1 where c: "Darwin_CreateSharedMemory api lib False name Disposer_default k = (k1, d1, r1)"
    using prod_cases3 by blast
  have "r1 = Inl ResourceMissingError"
    using assms c
    by (auto simp: Darwin_SharedMemory_ctor_def Darwin_AllocateSharedMemory_def split: sum.splits prod.splits if_splits)
  then obtain s where s: "base64_encode lib (sha1_hash lib name) = Inr s"
    "Darwin_open api False (''/'' @ s) Disposer_default k = (k1, d1, Inl ResourceMissingError)"
    using c by (auto simp: Darwin_CreateSharedMemory_def Let_def split: sum.splits)
  obtain k2 r2 where o: "shm_open api (''/'' @ s) [O_RDWR] 420 k = (k2, r2)" by fastforce
  have "r2 = Inl ENOENT"
    using s(2) o by (auto simp: Darwin_open_def Let_def split: sum.splits prod.splits if_splits)
  then show ?thesis using open_missing o s(1) by (auto simp: object_name_def)
qed

section \<open>What an object owns\<close>

text \<open>
  How \<open>CreateLocalMutex\<close> comes to its memory: one construction that succeeds, as owner or as client,
  from a state that differs at most in the name from the one before.
\<close>

lemma same_except_trans: "same_except n v v' \<Longrightarrow> same_except n v' v'' \<Longrightarrow> same_except n v v''"
  by (simp add: same_except_def)

lemma CreateLocalMutex_spec:
  assumes "CreateLocalMutex api lib papi sys b (local_memory_name sys name p) p k = (k', r)"
  defines "n \<equiv> memory_object lib sys name p"
  shows "case r of
      Inl e \<Rightarrow> same_except n (view k) (view k') \<and> rest k' = rest k
    | Inr (mem, d, a) \<Rightarrow> a = mem_address mem \<and> (\<exists>b' k0 k1.
        Darwin_SharedMemory_ctor api lib (local_memory_name sys (local_memory_name sys name p) p) 64 b' k0 = (k1, Inr mem) \<and>
        same_except n (view k) (view k0) \<and> rest k0 = rest k \<and> (b \<longrightarrow> b') \<and> (\<not> b' \<longrightarrow> k0 = k) \<and>
        (b' \<and> \<not> b \<longrightarrow> object_of (view k) n = None) \<and>
        d = (if b' then \<lparr>func = Some a\<rparr> else \<lparr>func = None\<rparr>) \<and>
        k' = (if b' then put_object sys a (fst (pthread_mutex_init papi {MUTEX_ERRORCHECK, PROCESS_SHARED})) k1 else k1))"
proof -
  let ?ctor = "Darwin_SharedMemory_ctor api lib (local_memory_name sys (local_memory_name sys name p) p) 64"
  have i: "InitLocalMutex papi = (fst (pthread_mutex_init papi {MUTEX_ERRORCHECK, PROCESS_SHARED}), Inr ())"
    using init_succeeds
    by (cases "pthread_mutex_init papi {MUTEX_ERRORCHECK, PROCESS_SHARED}") (simp add: InitLocalMutex_def)
  obtain k1 r1 where c1: "?ctor b k = (k1, r1)" by fastforce
  obtain k2 r2 where c2: "?ctor True k1 = (k2, r2)" by fastforce
  have s1: "rest k1 = rest k" "r1 = Inl e \<Longrightarrow> same_except n (view k) (view k1)" for e
    using memory_ctor_rest [OF c1] Darwin_ctor_spec [OF posix_shared_memory_axioms c1]
    by (auto simp: n_def memory_object_def)
  have s2: "rest k2 = rest k1" "r2 = Inl e \<Longrightarrow> same_except n (view k1) (view k2)" for e
    using memory_ctor_rest [OF c2] Darwin_ctor_spec [OF posix_shared_memory_axioms c2]
    by (auto simp: n_def memory_object_def)
  have same: "same_except n (view k) (view k)" by (simp add: same_except_def)
  consider (retry) "r1 = Inl ResourceMissingError" | (thrown) e where "r1 = Inl (Thrown e)" | (made) mem where "r1 = Inr mem"
    by (cases r1; metis shm_error.exhaust)
  then show ?thesis
  proof cases
    case retry
    have miss: "\<not> b \<Longrightarrow> object_of (view k) n = None"
      using memory_missing [of lib _ 64 k k1] c1 retry by (simp add: n_def memory_object_def)
    show ?thesis
    proof (cases r2)
      case (Inl e)
      then show ?thesis
        using assms(1) c1 c2 s1 s2 retry same_except_trans [of n "view k" "view k1" "view k2"]
        by (auto simp: CreateLocalMutex_def Let_def)
    next
      case (Inr mem)
      then have r: "r = Inr (mem, \<lparr>func = Some (mem_address mem)\<rparr>, mem_address mem)"
        "k' = put_object sys (mem_address mem) (fst (pthread_mutex_init papi {MUTEX_ERRORCHECK, PROCESS_SHARED})) k2"
        using assms(1) c1 c2 retry i by (auto simp: CreateLocalMutex_def Let_def Disposer_Set_def Disposer_default_def)
      then show ?thesis
        unfolding r sum.case prod.case
          using c2 s1 retry Inr miss by (intro conjI refl exI [of _ True] exI [of _ k1] exI [of _ k2]) simp_all
    qed
  next
    case thrown
    then show ?thesis using assms(1) c1 s1 by (auto simp: CreateLocalMutex_def Let_def)
  next
    case made
    then have r: "r = Inr (mem, if b then \<lparr>func = Some (mem_address mem)\<rparr> else \<lparr>func = None\<rparr>, mem_address mem)"
      "k' = (if b then put_object sys (mem_address mem) (fst (pthread_mutex_init papi {MUTEX_ERRORCHECK, PROCESS_SHARED})) k1
        else k1)"
      using assms(1) c1 i
      by (cases b; auto simp: CreateLocalMutex_def Let_def Disposer_Set_def Disposer_default_def)+
    show ?thesis
      unfolding r(1) sum.case prod.case
      using r(2) c1 made same by (intro conjI refl exI [of _ b] exI [of _ k] exI [of _ k1]) simp_all
  qed
qed

lemma destroy_mutex_view:
  "view (destroy_mutex papi sys d k) = view k" "streams (rest (destroy_mutex papi sys d k)) = streams (rest k)"
  using put by (cases "func d"; simp add: destroy_mutex_def Disposer_dtor_def)+

lemma OpenFile_spec:
  assumes "OpenFile sys name b k = (k', r)"
  shows "view k' = view k \<and> mutex_in (rest k') = mutex_in (rest k) \<and>
    (case r of Inl e \<Rightarrow> streams (rest k') = streams (rest k)
     | Inr fd \<Rightarrow> fd \<notin> streams (rest k) \<and> streams (rest k') = insert fd (streams (rest k)))"
proof -
  let ?k = "if b \<and> \<not> stat_succeeds sys (lock_path name) k then create_file sys (lock_path name) k else k"
  have k: "view ?k = view k" "streams (rest ?k) = streams (rest k)" "mutex_in (rest ?k) = mutex_in (rest k)"
    using create_file_keeps by simp_all
  obtain k1 r1 where f: "fopen_rb sys (lock_path name) ?k = (k1, r1)" by fastforce
  show ?thesis
  proof (cases r1)
    case (Inl e)
    then show ?thesis using assms f k fopen_fails [of "lock_path name" ?k k1 e] by (auto simp: OpenFile_def Let_def)
  next
    case (Inr fd)
    then show ?thesis using assms f k fopen_opens [of "lock_path name" ?k k1 fd] by (auto simp: OpenFile_def Let_def)
  qed
qed

text \<open>The construction and, later, the destruction.\<close>

lemma mutex_ctor_throws:
  assumes "Darwin_RobustMutex_ctor api lib papi sys name b p k = (k', Inl e)"
  shows "same_except (memory_object lib sys name p) (view k) (view k') \<and> streams (rest k') = streams (rest k)"
proof -
  let ?n = "memory_object lib sys name p"
  obtain k1 r1 where c: "CreateLocalMutex api lib papi sys b (local_memory_name sys name p) p k = (k1, r1)" by fastforce
  note s = CreateLocalMutex_spec [OF c]
  show ?thesis
  proof (cases r1)
    case (Inl x)
    then show ?thesis using assms c s by (auto simp: Darwin_RobustMutex_ctor_def)
  next
    case (Inr y)
    then obtain mem d a where y: "r1 = Inr (mem, d, a)" by (cases y) auto
    obtain k2 r2 where o: "OpenFile sys (name @ ''_mutex'') b k1 = (k2, r2)" by fastforce
    from s y obtain b' k0 k00 where m:
      "Darwin_SharedMemory_ctor api lib (local_memory_name sys (local_memory_name sys name p) p) 64 b' k0 = (k00, Inr mem)"
      "same_except ?n (view k) (view k0)" "rest k0 = rest k"
      "k1 = (if b' then put_object sys a (fst (pthread_mutex_init papi {MUTEX_ERRORCHECK, PROCESS_SHARED})) k00 else k00)"
      by auto
    obtain x where "r2 = Inl x" "k' = SharedMemory_dtor api mem (destroy_mutex papi sys d k2)"
      using assms c y o by (cases r2) (auto simp: Darwin_RobustMutex_ctor_def)
    moreover have v: "view (destroy_mutex papi sys d k2) = view k00" "streams (rest k1) = streams (rest k00)"
      using OpenFile_spec [OF o] m(4) put by (auto simp: destroy_mutex_view)
    moreover have "same_except ?n (view k00) (view (destroy_mutex papi sys d k2))"
      using v(1) by (simp add: same_except_def)
    ultimately show ?thesis
      using Darwin_ctor_then_dtor [OF posix_shared_memory_axioms m(1), of "destroy_mutex papi sys d k2"] m(2,3)
        same_except_trans OpenFile_spec [OF o] memory_ctor_rest [OF m(1)]
      by (auto simp: memory_object_def memory_dtor_rest destroy_mutex_view)
  qed
qed

lemma mutex_ctor_made:
  assumes "Darwin_RobustMutex_ctor api lib papi sys name b p k = (k', Inr m)"
  obtains b' k0 k1 where
    "Darwin_SharedMemory_ctor api lib (local_memory_name sys (local_memory_name sys name p) p) 64 b' k0 =
      (k1, Inr (mutexMemory m))"
    "same_except (memory_object lib sys name p) (view k) (view k0)" "rest k0 = rest k" "b \<longrightarrow> b'" "\<not> b' \<longrightarrow> k0 = k"
    "mutexPointer m = mem_address (mutexMemory m)"
    "mutexDisposer m = (if b' then \<lparr>func = Some (mutexPointer m)\<rparr> else \<lparr>func = None\<rparr>)"
    "view k' = view k1" "lockFile m \<notin> streams (rest k)" "streams (rest k') = insert (lockFile m) (streams (rest k))"
    "mutex_in (rest k') = mutex_in (rest (if b' then put_object sys (mutexPointer m)
       (fst (pthread_mutex_init papi {MUTEX_ERRORCHECK, PROCESS_SHARED})) k1 else k1))"
    "b' \<and> \<not> b \<longrightarrow> object_of (view k) (memory_object lib sys name p) = None"
proof -
  obtain k2 r2 where c: "CreateLocalMutex api lib papi sys b (local_memory_name sys name p) p k = (k2, r2)" by fastforce
  note s = CreateLocalMutex_spec [OF c]
  obtain mem d a where y: "r2 = Inr (mem, d, a)"
    using assms c by (cases r2) (auto simp: Darwin_RobustMutex_ctor_def)
  obtain fd where o: "OpenFile sys (name @ ''_mutex'') b k2 = (k', Inr fd)"
    and m: "m = \<lparr>mutexMemory = mem, mutexDisposer = d, mutexPointer = a, lockFile = fd\<rparr>"
    using assms c y by (auto simp: Darwin_RobustMutex_ctor_def split: prod.splits sum.splits)
  note of = OpenFile_spec [OF o]
  from s y obtain b' k0 k1 where q:
    "Darwin_SharedMemory_ctor api lib (local_memory_name sys (local_memory_name sys name p) p) 64 b' k0 = (k1, Inr mem)"
    "same_except (memory_object lib sys name p) (view k) (view k0)" "rest k0 = rest k" "b \<longrightarrow> b'" "\<not> b' \<longrightarrow> k0 = k"
    "a = mem_address mem" "d = (if b' then \<lparr>func = Some a\<rparr> else \<lparr>func = None\<rparr>)"
    "k2 = (if b' then put_object sys a (fst (pthread_mutex_init papi {MUTEX_ERRORCHECK, PROCESS_SHARED})) k1 else k1)"
    "b' \<and> \<not> b \<longrightarrow> object_of (view k) (memory_object lib sys name p) = None"
    by auto
  have "view k2 = view k1" "streams (rest k2) = streams (rest k)"
    using q(3,8) put memory_ctor_rest [OF q(1)] by auto
  then show thesis
    using that [of b' k0 k1] q of by (simp add: m)
qed

lemma mutex_ctor_then_dtor:
  assumes "Darwin_RobustMutex_ctor api lib papi sys name b p k = (k', Inr m)"
    "same_except (memory_object lib sys name p) (view k') (view k'')" "streams (rest k'') = streams (rest k')"
  shows "\<exists>k3. Darwin_RobustMutex_dtor api papi sys m k'' = Some k3 \<and>
    same_except (memory_object lib sys name p) (view k) (view k3) \<and> streams (rest k3) = streams (rest k)"
proof -
  let ?n = "memory_object lib sys name p"
  from mutex_ctor_made [OF assms(1)] obtain b' k0 k1 where c:
    "Darwin_SharedMemory_ctor api lib (local_memory_name sys (local_memory_name sys name p) p) 64 b' k0 =
      (k1, Inr (mutexMemory m))" "same_except ?n (view k) (view k0)" "view k' = view k1"
    "lockFile m \<notin> streams (rest k)" "streams (rest k') = insert (lockFile m) (streams (rest k))" by metis
  obtain k4 where f: "fclose sys (lockFile m) k'' = (k4, Zero)" "view k4 = view k''"
    "streams (rest k4) = streams (rest k'') - {lockFile m}"
    using fclose_closes [of "lockFile m" k''] assms(3) c(5) by auto
  let ?k5 = "destroy_mutex papi sys (mutexDisposer m) k4"
  have "same_except (object_name lib (local_memory_name sys (local_memory_name sys name p) p)) (view k1) (view ?k5)"
    using assms(2) c(3) f(2) by (simp add: destroy_mutex_view memory_object_def)
  from Darwin_ctor_then_dtor [OF posix_shared_memory_axioms c(1) this]
  have "same_except ?n (view k) (view (SharedMemory_dtor api (mutexMemory m) ?k5))"
    using same_except_trans [OF c(2)] by (simp add: memory_object_def)
  moreover have "streams (rest (SharedMemory_dtor api (mutexMemory m) ?k5)) = streams (rest k)"
    using f(3) assms(3) c(4,5) by (simp add: memory_dtor_rest destroy_mutex_view)
  ultimately show ?thesis using f(1) by (simp add: Darwin_RobustMutex_dtor_def)
qed

lemma client_needs_name:
  assumes "Darwin_CreateSharedMemory api lib False name Disposer_default k = (k', d, Inr fd)"
  shows "object_of (view k) (object_name lib name) \<noteq> None"
proof
  assume none: "object_of (view k) (object_name lib name) = None"
  obtain s where s: "base64_encode lib (sha1_hash lib name) = Inr s"
    "Darwin_open api False (''/'' @ s) Disposer_default k = (k', d, Inr fd)"
    using assms by (auto simp: Darwin_CreateSharedMemory_def Let_def split: sum.splits)
  obtain k2 r2 where o: "shm_open api (''/'' @ s) [O_RDWR] 420 k = (k2, r2)" by fastforce
  have "r2 \<noteq> Inl EEXIST" using open_exists [of "''/'' @ s" "[O_RDWR]" 420 k k2] o by auto
  then have "\<exists>fd. r2 = Inr fd"
    using s(2) o by (cases r2) (auto simp: Darwin_open_def Let_def split: if_splits)
  then show False
    using open_new [of "''/'' @ s" "[O_RDWR]" 420 k k2] o none s(1) by (auto simp: object_name_def)
qed

lemma memory_object_mapped:
  assumes "Darwin_SharedMemory_ctor api lib name sz b k = (k', Inr mem)"
  shows "\<exists>x. object_of (view k') (object_name lib name) = Some x \<and> mapped (view k') (mem_address mem) = Some x \<and>
    (\<not> b \<longrightarrow> object_of (view k) (object_name lib name) = Some x)"
proof -
  from Darwin_ctor_spec [OF posix_shared_memory_axioms assms] obtain k1 where k1:
    "Darwin_CreateSharedMemory api lib b name Disposer_default k = (k1, fd_disposer mem, Inr (mem_fd mem))"
    "opened b (object_name lib name) (view k) (view k1) (fd_disposer mem) (Some (mem_fd mem))"
    "allocated (mem_fd mem) (view k1) (view k') sz (allocation_disposer mem) (Some (mem_address mem))" by auto
  then obtain x where x: "object_of (view k1) (object_name lib name) = Some x" "behind (view k1) (mem_fd mem) = Some x"
    by (auto simp: opened_def)
  have "object_of (view k) (object_name lib name) = Some x" if "\<not> b"
  proof -
    have c: "Darwin_CreateSharedMemory api lib False name Disposer_default k = (k1, fd_disposer mem, Inr (mem_fd mem))"
      using k1(1) that by simp
    then obtain y where "object_of (view k) (object_name lib name) = Some y" using client_needs_name by blast
    then show ?thesis
      using Darwin_client_keeps_name [OF posix_shared_memory_axioms c] x(1) by simp
  qed
  then show ?thesis using k1(3) x by (auto simp: allocated_def)
qed

lemma mutex_ctor_object:
  assumes "Darwin_RobustMutex_ctor api lib papi sys name b p k = (k', Inr m)"
  defines "n \<equiv> memory_object lib sys name p"
  shows "\<exists>x. object_of (view k') n = Some x \<and> mapped (view k') (mutexPointer m) = Some x \<and>
    (if b \<or> object_of (view k) n = None
     then status (mutex_in (rest k') x) = Unlocked \<and> mutexDisposer m = \<lparr>func = Some (mutexPointer m)\<rparr>
     else object_of (view k) n = Some x \<and> mutex_in (rest k') = mutex_in (rest k) \<and> mutexDisposer m = \<lparr>func = None\<rparr>)"
proof -
  let ?full = "local_memory_name sys (local_memory_name sys name p) p"
  let ?init = "fst (pthread_mutex_init papi {MUTEX_ERRORCHECK, PROCESS_SHARED})"
  obtain b' k0 k1 where c:
    "Darwin_SharedMemory_ctor api lib ?full 64 b' k0 = (k1, Inr (mutexMemory m))"
    "rest k0 = rest k" "b \<longrightarrow> b'" "\<not> b' \<longrightarrow> k0 = k" "mutexPointer m = mem_address (mutexMemory m)"
    "mutexDisposer m = (if b' then \<lparr>func = Some (mutexPointer m)\<rparr> else \<lparr>func = None\<rparr>)" "view k' = view k1"
    "mutex_in (rest k') = mutex_in (rest (if b' then put_object sys (mutexPointer m) ?init k1 else k1))"
    and r: "b' \<and> \<not> b \<longrightarrow> object_of (view k) n = None"
    unfolding n_def by (rule mutex_ctor_made [OF assms(1)]) blast
  have n: "n = object_name lib ?full" by (simp add: n_def memory_object_def)
  from memory_object_mapped [OF c(1)] obtain x where x: "object_of (view k1) n = Some x"
    "mapped (view k1) (mutexPointer m) = Some x" "\<not> b' \<longrightarrow> object_of (view k0) n = Some x" by (auto simp: n c(5))
  have "b' \<longrightarrow> status (mutex_in (rest k') x) = Unlocked"
    using c(8) put x(2) init_unlocked by auto
  moreover have "\<not> b' \<longrightarrow> mutex_in (rest k') = mutex_in (rest k)"
    using c(2,8) memory_ctor_rest [OF c(1)] by simp
  ultimately show ?thesis using x c(3,4,6,7) r by (cases b') auto
qed

end


section \<open>A system that satisfies the contract\<close>

text \<open>The tables of \<open>object_tables\<close>, with the open streams and the files.\<close>

record darwin_tables = "mutex_status object_tables" +
  open_streams :: "nat list"
  paths :: "string list"

definition darwin_rest_of :: "'z darwin_tables_scheme \<Rightarrow> mutex_status darwin_rest" where
  "darwin_rest_of k = \<lparr>mutex_in = objects k, streams = set (open_streams k), lock_files = set (paths k)\<rparr>"

definition darwin_fopen ::
  "string \<Rightarrow> 'z darwin_tables_scheme \<Rightarrow> 'z darwin_tables_scheme \<times> (errno + nat)" where
  "darwin_fopen n k =
     (if n \<in> set (paths k)
      then (k\<lparr>open_streams := Suc (sum_list (open_streams k)) # open_streams k\<rparr>, Inr (Suc (sum_list (open_streams k))))
      else (k, Inl ENOENT))"

definition darwin_kernel :: "('z darwin_tables_scheme, mutex_status) darwin_files" where
  "darwin_kernel =
     \<lparr>put_object = table_put, get_object = table_get, stat_succeeds = (\<lambda>n k. n \<in> set (paths k)),
      create_file = (\<lambda>n k. k\<lparr>paths := n # paths k\<rparr>), fopen_rb = darwin_fopen,
      fclose = (\<lambda>fd k. (k\<lparr>open_streams := removeAll fd (open_streams k)\<rparr>, Zero)),
      pid_text = (\<lambda>p. replicate p (CHR ''1''))\<rparr>"

lemma darwin_frame:
  "darwin_rest_of (fst (lift f k)) = darwin_rest_of k"
  "darwin_rest_of (k\<lparr>memory_tables := t\<rparr>) = darwin_rest_of k"
  "open_streams (table_put a m k) = open_streams k" "paths (table_put a m k) = paths k"
  by (auto simp: lift_def darwin_rest_of_def table_put_def split: prod.split option.split)

lemma fresh_stream: "Suc (sum_list (open_streams k)) \<notin> set (open_streams k)"
  using member_le_sum_list [of "Suc (sum_list (open_streams k))" "open_streams k"] by auto

lemma tables_missing: "shm_open object_shm n fl mode k = (k', Inl ENOENT) \<Longrightarrow> object_of (object_view k) n = None"
  unfolding object_shm_calls
  by (auto dest!: lift_step simp: object_view_def tables_def tables_open_def tables_view_def
      split: option.splits if_splits)

interpretation dset: darwin_setup object_shm object_view
  "darwin_kernel :: ('z darwin_tables_scheme, mutex_status) darwin_files" darwin_rest_of kernel "\<lambda>m. m"
proof
  show "shm_open object_shm n fl mode k = (k', Inl ENOENT) \<Longrightarrow> object_of (object_view k) n = None"
    for n fl mode and k k' :: "'z darwin_tables_scheme"
    by (rule tables_missing)
qed (auto simp: object_shm_calls darwin_frame darwin_kernel_def table_put_get darwin_rest_of_def darwin_fopen_def
    lift_frame object_view_def tables_view_def fresh_stream kernel_def lift_def table_put_def split: if_splits prod.splits option.splits)

section \<open>Properties\<close>

text \<open>
  The constructor of the mutex leaks nothing when it throws, and the destructor, in any state that
  has the object's names, descriptors, mappings and streams as the constructor left them, closes the
  file and takes back everything but the lock file; it does not end the program.
\<close>

theorem Darwin_RobustMutex_leaks_nothing:
  assumes "darwin_setup api view sys rest papi status"
    "Darwin_RobustMutex_ctor api lib papi sys name isOwner p k = (k', r)"
  defines "n \<equiv> memory_object lib sys name p"
  shows "case r of
      Inl e \<Rightarrow> same_except n (view k) (view k') \<and> streams (rest k') = streams (rest k)
    | Inr m \<Rightarrow> \<forall>k''. same_except n (view k') (view k'') \<and> streams (rest k'') = streams (rest k') \<longrightarrow>
        (\<exists>k3. Darwin_RobustMutex_dtor api papi sys m k'' = Some k3 \<and>
          same_except n (view k) (view k3) \<and> streams (rest k3) = streams (rest k))"
proof (cases r)
  case (Inl e)
  then show ?thesis using darwin_setup.mutex_ctor_throws [OF assms(1)] assms(2) by (simp add: n_def)
next
  case (Inr m)
  then show ?thesis using darwin_setup.mutex_ctor_then_dtor [OF assms(1)] assms(2) by (simp add: n_def)
qed

definition no_darwin :: darwin_tables where
  "no_darwin = \<lparr>memory_tables = no_tables, objects = (\<lambda>x. Not_Recoverable), open_streams = [], paths = []\<rparr>"

text \<open>A client in a process that has no mutex yet fails when nobody has made the lock file.\<close>

lemma darwin_no_file_run:
  "snd (Darwin_RobustMutex_ctor object_shm toy_names kernel darwin_kernel ''m'' False 1 no_darwin) =
     Inl (Thrown (runtime_error_code ''fopen failed with error '' (Code ENOENT)))"
  by code_simp

theorem Darwin_RobustMutex_leaks_nothing_witness:
  "streams (darwin_rest_of (fst (Darwin_RobustMutex_ctor object_shm toy_names kernel darwin_kernel ''m'' False 1 no_darwin))) = {}"
proof -
  let ?c = "Darwin_RobustMutex_ctor object_shm toy_names kernel darwin_kernel ''m'' False 1 no_darwin"
  have "?c = (fst ?c, Inl (Thrown (runtime_error_code ''fopen failed with error '' (Code ENOENT))))"
    using darwin_no_file_run by (metis prod.collapse)
  from Darwin_RobustMutex_leaks_nothing [OF dset.darwin_setup_axioms this]
  show ?thesis by (simp add: darwin_rest_of_def no_darwin_def)
qed




end
