(* ===== verification/Linux_Setup.thy ===== *)
theory Linux_Setup
  imports Linux_Mutex Linux_Condition Shared_Object
begin

text \<open>
  The construction and the destruction of the mutex and of the condition variable on Linux
  (\<open>src/ipc/linux/RobustMutex.hpp\<close>, \<open>RobustMutex.cpp\<close> and \<open>ConditionVariable.cpp\<close>) with the shared memory they
  live in, and what follows for the objects of several processes.
\<close>

section \<open>Objects in shared memory\<close>

text \<open>
  Both classes have a memory, a \<open>Disposer\<close> for the object in it, and the address of the object. The
  disposer is represented by whether its function is set.
\<close>

record linux_object =
  object_block :: shared_memory
  object_cleanup :: bool
  object_handle :: nat

text \<open>
  What the two constructors share: the memory, the object made or found in it, and, when making it
  throws, the memory again destroyed. The destructor destroys the members in reverse order.
\<close>

definition Linux_object_new ::
  "'k posix_shm \<Rightarrow> ('k, 'o, 'z) placement_scheme \<Rightarrow> string \<Rightarrow> u64 \<Rightarrow>
     (bool \<Rightarrow> 'o \<Rightarrow> 'o \<times> bool \<times> (cpp_error + unit)) \<Rightarrow> bool \<Rightarrow> 'k \<Rightarrow> 'k \<times> (cpp_error + linux_object)"
where
  "Linux_object_new api sys name sz body isOwner k =
     (case Linux_SharedMemory_ctor api name sz isOwner k of
        (k, Inl e) \<Rightarrow> (k, Inl e)
      | (k, Inr sm) \<Rightarrow>
          (let handle = mem_address sm in
           case body isOwner (get_object sys handle k) of (m, cleanup, r) \<Rightarrow>
             let k = (if isOwner then put_object sys handle m k else k) in
             case r of
               Inl e \<Rightarrow> (SharedMemory_dtor api sm k, Inl e)
             | Inr _ \<Rightarrow> (k, Inr \<lparr>object_block = sm, object_cleanup = cleanup, object_handle = handle\<rparr>)))"

definition Linux_object_delete ::
  "'k posix_shm \<Rightarrow> ('k, 'o, 'z) placement_scheme \<Rightarrow> (bool \<Rightarrow> 'o \<Rightarrow> 'o) \<Rightarrow> linux_object \<Rightarrow> 'k \<Rightarrow> 'k"
where
  "Linux_object_delete api sys cleanup obj k =
     (let k = (if object_cleanup obj
               then put_object sys (object_handle obj) (cleanup True (get_object sys (object_handle obj) k)) k
               else k)
      in SharedMemory_dtor api (object_block obj) k)"

text \<open>\<open>sizeof(pthread_mutex_t)\<close> is 40, \<open>sizeof(pthread_cond_t)\<close> is 48.\<close>

definition Linux_mutex_new ::
  "'k posix_shm \<Rightarrow> 'm pthread \<Rightarrow> ('k, 'm, 'z) placement_scheme \<Rightarrow> string \<Rightarrow> bool \<Rightarrow> 'k \<Rightarrow> 'k \<times> (cpp_error + linux_object)"
where
  "Linux_mutex_new api papi sys name isOwner k =
     Linux_object_new api sys (''ipc_mutex_'' @ name) 40 (Linux_RobustMutex_ctor papi) isOwner k"

definition Linux_mutex_delete ::
  "'k posix_shm \<Rightarrow> 'm pthread \<Rightarrow> ('k, 'm, 'z) placement_scheme \<Rightarrow> linux_object \<Rightarrow> 'k \<Rightarrow> 'k"
where
  "Linux_mutex_delete api papi sys obj k = Linux_object_delete api sys (Linux_RobustMutex_dtor papi) obj k"

definition Linux_condition_new ::
  "'k posix_shm \<Rightarrow> ('c, 'm) pthread_cond \<Rightarrow> ('k, 'c, 'z) placement_scheme \<Rightarrow> string \<Rightarrow> bool \<Rightarrow> 'k \<Rightarrow>
     'k \<times> (cpp_error + linux_object)"
where
  "Linux_condition_new api capi sys name isOwner k =
     Linux_object_new api sys (''ipc_cond_'' @ name) 48 (Linux_Condition_ctor capi) isOwner k"

definition Linux_Condition_dtor :: "('c, 'm) pthread_cond \<Rightarrow> bool \<Rightarrow> 'c \<Rightarrow> 'c" where
  "Linux_Condition_dtor capi cleanup c = (if cleanup then pthread_cond_destroy capi c else c)"

definition Linux_condition_delete ::
  "'k posix_shm \<Rightarrow> ('c, 'm) pthread_cond \<Rightarrow> ('k, 'c, 'z) placement_scheme \<Rightarrow> linux_object \<Rightarrow> 'k \<Rightarrow> 'k"
where
  "Linux_condition_delete api capi sys obj k = Linux_object_delete api sys (Linux_Condition_dtor capi) obj k"

text \<open>
  The public class of the mutex: \<open>_impl\<close> is a pointer, null in a default-constructed object; the
  destructor deletes what it points to.
\<close>

definition Linux_RobustMutex_default :: "linux_object option" where
  "Linux_RobustMutex_default = None"

definition Linux_RobustMutex ::
  "'k posix_shm \<Rightarrow> 'm pthread \<Rightarrow> ('k, 'm, 'z) placement_scheme \<Rightarrow> string \<Rightarrow> bool \<Rightarrow> 'k \<Rightarrow>
     'k \<times> (cpp_error + linux_object option)"
where
  "Linux_RobustMutex api papi sys name isOwner k =
     (case Linux_mutex_new api papi sys name isOwner k of
        (k, Inl e) \<Rightarrow> (k, Inl e) | (k, Inr obj) \<Rightarrow> (k, Inr (Some obj)))"

definition Linux_RobustMutex_delete ::
  "'k posix_shm \<Rightarrow> 'm pthread \<Rightarrow> ('k, 'm, 'z) placement_scheme \<Rightarrow> linux_object option \<Rightarrow> 'k \<Rightarrow> 'k"
where
  "Linux_RobustMutex_delete api papi sys impl k =
     (case impl of None \<Rightarrow> k | Some obj \<Rightarrow> Linux_mutex_delete api papi sys obj k)"

text \<open>\<open>lock\<close> and \<open>unlock\<close> through the handle of an object.\<close>

definition Linux_lock_at ::
  "'m pthread \<Rightarrow> ('k, 'm, 'z) placement_scheme \<Rightarrow> linux_object option \<Rightarrow> thread \<Rightarrow> 'k \<Rightarrow> ('k \<times> (cpp_error + unit)) option"
where
  "Linux_lock_at papi sys impl t k =
     (case impl of
        None \<Rightarrow> Some (k, Inl (runtime_error ''Not initialized.''))
      | Some obj \<Rightarrow>
          (case Linux_lock papi True t (get_object sys (object_handle obj) k) of
             None \<Rightarrow> None
           | Some (m, r) \<Rightarrow> Some (put_object sys (object_handle obj) m k, r)))"

definition Linux_unlock_at ::
  "'m pthread \<Rightarrow> ('k, 'm, 'z) placement_scheme \<Rightarrow> linux_object option \<Rightarrow> thread \<Rightarrow> 'k \<Rightarrow> 'k \<times> (cpp_error + unit)"
where
  "Linux_unlock_at papi sys impl t k =
     (case impl of
        None \<Rightarrow> (k, Inl (runtime_error ''Not initialized.''))
      | Some obj \<Rightarrow>
          (case Linux_unlock papi True t (get_object sys (object_handle obj) k) of
             (m, r) \<Rightarrow> (put_object sys (object_handle obj) m k, r)))"

section \<open>What an object owns and which object it uses\<close>

lemma Linux_SharedMemory_restores:
  assumes "posix_shared_memory api view" "Linux_SharedMemory_ctor api n sz b k = (k', Inr sm)"
    "same_except n (view k') (view k'')"
  shows "same_except n (view k) (view (SharedMemory_dtor api sm k''))"
  using Linux_ctor_spec [OF assms(1,2)] posix_shared_memory.ctor_then_dtor [OF assms(1) _ _ assms(3)]
  by (auto simp: SharedMemory_dtor_def)

text \<open>An owner that constructs gets a block that nobody has mapped; \<open>O_EXCL\<close> keeps it from any other.\<close>

lemma Linux_owner_creates:
  assumes "posix_shared_memory api view" "Linux_CreateSharedMemory api True n d k = (k', d', Inr fd)"
  shows "\<exists>x. object_of (view k') n = Some x \<and> x \<notin> ran (mapped (view k))"
proof -
  let ?fl = "[O_RDWR, O_CREAT, O_EXCL]"
  have excl: "\<exists>x. object_of (view k2) n = Some x \<and> x \<notin> ran (mapped (view k1))"
    if o: "shm_open api n ?fl 416 k1 = (k2, Inr fd)" for k1 k2
    using posix_shared_memory.open_old [OF assms(1) o] posix_shared_memory.open_new [OF assms(1) o]
    by (cases "object_of (view k1) n") auto
  obtain k1 r1 where o: "shm_open api n ?fl 416 k = (k1, r1)" by fastforce
  obtain k2 u where u: "shm_unlink api n k1 = (k2, u)" by fastforce
  obtain k3 r3 where o3: "shm_open api n ?fl 416 k2 = (k3, r3)" by fastforce
  show ?thesis
  proof (cases "r1 = Inl EEXIST")
    case False
    then have "r1 = Inr fd \<and> k1 = k'"
      using assms(2) o by (cases r1) (auto simp: Linux_CreateSharedMemory_def)
    then show ?thesis using excl o by blast
  next
    case True
    then have "r3 = Inr fd \<and> k3 = k'"
      using assms(2) o u o3 by (auto simp: Linux_CreateSharedMemory_def split: sum.splits)
    moreover have "view k1 = view k" using posix_shared_memory.open_fails [OF assms(1)] o True by blast
    ultimately show ?thesis
      using excl o3 posix_shared_memory.unlink_keeps(1) [OF assms(1) u] by metis
  qed
qed

text \<open>A client opens the block that the name stands for, or throws.\<close>

lemma Linux_client_opens:
  assumes "posix_shared_memory api view" "Linux_CreateSharedMemory api False n d k = (k', d', Inr fd)"
  shows "\<exists>x. object_of (view k) n = Some x \<and> object_of (view k') n = Some x"
proof -
  obtain k1 r1 where o: "shm_open api n [O_RDWR] 416 k = (k1, r1)" by fastforce
  have "r1 \<noteq> Inl EEXIST" using posix_shared_memory.open_exists [OF assms(1), of n "[O_RDWR]" 416 k k1] o by auto
  then have "k1 = k' \<and> r1 = Inr fd"
    using assms(2) o by (cases r1) (auto simp: Linux_CreateSharedMemory_def)
  then show ?thesis
    using posix_shared_memory.open_old [OF assms(1), of n "[O_RDWR]" 416 k k' fd]
      posix_shared_memory.open_new [OF assms(1), of n "[O_RDWR]" 416 k k' fd] o
    by (cases "object_of (view k) n") auto
qed

lemma Linux_memory_object:
  assumes "posix_shared_memory api view" "Linux_SharedMemory_ctor api n sz b k = (k', Inr sm)"
  shows "\<exists>x. object_of (view k') n = Some x \<and> mapped (view k) (mem_address sm) = None \<and>
    mapped (view k') = (mapped (view k))(mem_address sm \<mapsto> x) \<and>
    (if b then x \<notin> ran (mapped (view k)) else object_of (view k) n = Some x)"
proof -
  obtain k1 where c: "Linux_CreateSharedMemory api b n Disposer_default k = (k1, fd_disposer sm, Inr (mem_fd sm))"
    "opened b n (view k) (view k1) (fd_disposer sm) (Some (mem_fd sm))"
    "allocated (mem_fd sm) (view k1) (view k') sz (allocation_disposer sm) (Some (mem_address sm))"
    using Linux_ctor_spec [OF assms] by auto
  have "\<exists>x. object_of (view k1) n = Some x \<and>
      (if b then x \<notin> ran (mapped (view k)) else object_of (view k) n = Some x)"
    using c(1) Linux_owner_creates [OF assms(1)] Linux_client_opens [OF assms(1)] by (cases b) fastforce+
  then show ?thesis using c(2,3) by (auto simp: opened_def allocated_def)
qed

context object_memory
begin

text \<open>A body that, like both of them, leaves the object of a client alone.\<close>

lemma object_new_cases:
  assumes "Linux_object_new api mem n sz body b k = (k', r)" "\<And>m. body False m = (m, False, Inr ())"
  obtains (memory) e where "r = Inl e" "Linux_SharedMemory_ctor api n sz b k = (k', Inl e)"
  | (thrown) e k1 sm m where "r = Inl e" "Linux_SharedMemory_ctor api n sz b k = (k1, Inr sm)" "b"
      "k' = SharedMemory_dtor api sm (put_object mem (mem_address sm) m k1)"
  | (owner) k1 sm c m m0 where "r = Inr \<lparr>object_block = sm, object_cleanup = c, object_handle = mem_address sm\<rparr>"
      "Linux_SharedMemory_ctor api n sz b k = (k1, Inr sm)" "b" "body True m0 = (m, c, Inr ())"
      "k' = put_object mem (mem_address sm) m k1"
  | (client) sm where "r = Inr \<lparr>object_block = sm, object_cleanup = False, object_handle = mem_address sm\<rparr>"
      "Linux_SharedMemory_ctor api n sz b k = (k', Inr sm)" "\<not> b"
proof -
  obtain k1 r1 where c: "Linux_SharedMemory_ctor api n sz b k = (k1, r1)" by fastforce
  show thesis
  proof (cases r1)
    case (Inl e)
    then show thesis using assms(1) c memory [of e] by (auto simp: Linux_object_new_def)
  next
    case (Inr sm)
    obtain m cl rr where m: "body b (get_object mem (mem_address sm) k1) = (m, cl, rr)" using prod_cases3 by blast
    show thesis
    proof (cases b)
      case False
      then show thesis using assms c Inr client [of sm] by (auto simp: Linux_object_new_def Let_def)
    next
      case True
      then show thesis
        using assms(1) c Inr m thrown [of _ k1 sm m] owner [of sm cl k1 _ m]
        by (cases rr) (auto simp: Linux_object_new_def Let_def)
    qed
  qed
qed

lemma object_new_throws:
  assumes "Linux_object_new api mem n sz body b k = (k', Inl e)" "\<And>m. body False m = (m, False, Inr ())"
  shows "same_except n (view k) (view k')"
  using assms
proof (cases rule: object_new_cases)
  case (memory e)
  then show ?thesis using Linux_ctor_spec [OF posix_shared_memory_axioms, of n sz b k k' "Inl e"] by simp
next
  case (thrown e k1 sm m)
  have "same_except n (view k1) (view (put_object mem (mem_address sm) m k1))"
    by (simp add: put_view same_except_def)
  then show ?thesis
    using Linux_SharedMemory_restores [OF posix_shared_memory_axioms thrown(2)] thrown(4) by blast
qed simp_all

lemma object_new_then_delete:
  assumes "Linux_object_new api mem n sz body b k = (k', Inr obj)" "\<And>m. body False m = (m, False, Inr ())"
    "same_except n (view k') (view k'')"
  shows "same_except n (view k) (view (Linux_object_delete api mem cleanup obj k''))"
proof -
  obtain k1 where c: "Linux_SharedMemory_ctor api n sz b k = (k1, Inr (object_block obj))" "view k' = view k1"
    using assms(1,2) by (cases rule: object_new_cases) (auto simp: put_view)
  have "same_except n (view k1) (view k2)" if "view k2 = view k''" for k2 using assms(3) c(2) that by simp
  then show ?thesis
    using Linux_SharedMemory_restores [OF posix_shared_memory_axioms c(1)]
    by (simp add: Linux_object_delete_def Let_def put_view)
qed

lemma object_leaks_nothing:
  assumes "Linux_object_new api mem n sz body b k = (k', r)" "\<And>m. body False m = (m, False, Inr ())"
  shows "case r of
      Inl e \<Rightarrow> same_except n (view k) (view k')
    | Inr obj \<Rightarrow> \<forall>k''. same_except n (view k') (view k'') \<longrightarrow>
        same_except n (view k) (view (Linux_object_delete api mem cleanup obj k''))"
  using assms object_new_throws object_new_then_delete by (cases r) simp_all

lemma object_new_block:
  assumes "Linux_object_new api mem n sz body b k = (k', Inr obj)" "\<And>m. body False m = (m, False, Inr ())"
  shows "\<exists>k1. Linux_SharedMemory_ctor api n sz b k = (k1, Inr (object_block obj)) \<and>
    object_handle obj = mem_address (object_block obj)"
  using assms by (cases rule: object_new_cases) auto

lemma object_new_object:
  assumes "Linux_object_new api mem n sz body b k = (k', Inr obj)" "\<And>m. body False m = (m, False, Inr ())"
  obtains x where "object_of (view k') n = Some x" "mapped (view k) (object_handle obj) = None"
    "mapped (view k') = (mapped (view k))(object_handle obj \<mapsto> x)"
    "\<not> b \<Longrightarrow> object_of (view k) n = Some x \<and> contents (rest k') = contents (rest k) \<and> \<not> object_cleanup obj"
    "b \<Longrightarrow> x \<notin> ran (mapped (view k)) \<and> (\<exists>m0 m. body True m0 = (m, object_cleanup obj, Inr ()) \<and>
       contents (rest k') = (contents (rest k))(x := m))"
  using assms
proof (cases rule: object_new_cases)
  case (owner k1 sm c m m0)
  note o = Linux_memory_object [OF posix_shared_memory_axioms owner(2)]
  then obtain x where x: "object_of (view k1) n = Some x" "mapped (view k) (mem_address sm) = None"
    "mapped (view k1) = (mapped (view k))(mem_address sm \<mapsto> x)" "x \<notin> ran (mapped (view k))"
    using owner(3) by auto
  have "contents (rest k') = (contents (rest k))(x := m)"
    using owner(5) put_contents [of k1 "mem_address sm" x m] x(3) Linux_memory_rest [OF owner(2)] by simp
  then show thesis
    using that [of x] x owner put_view [of "mem_address sm" m k1] by auto
next
  case (client sm)
  from Linux_memory_object [OF posix_shared_memory_axioms client(2)] client(3) obtain x where
    "object_of (view k') n = Some x" "mapped (view k) (mem_address sm) = None"
    "mapped (view k') = (mapped (view k))(mem_address sm \<mapsto> x)" "object_of (view k) n = Some x" by auto
  then show thesis using that [of x] client Linux_memory_rest [OF client(2)] by simp
qed simp_all

end

lemma mutex_body_client: "Linux_RobustMutex_ctor papi False m = (m, False, Inr ())"
  by (simp add: Linux_RobustMutex_ctor_def)

lemma condition_body_client: "Linux_Condition_ctor capi False m = (m, False, Inr ())"
  by (simp add: Linux_Condition_ctor_def)

lemma mutex_body_owner:
  assumes "posix_robust papi status" "Linux_RobustMutex_ctor papi True m0 = (m, c, Inr ())"
  shows "status m = Unlocked \<and> c"
  using assms(2) posix_robust.init [OF assms(1)]
  by (auto simp: Linux_RobustMutex_ctor_def split: prod.splits if_splits)

text \<open>The destructor of a memory unmaps its address and no other.\<close>

lemma memory_dtor_mapped:
  assumes "posix_shared_memory api view" "Linux_SharedMemory_ctor api n sz b k = (k', Inr sm)"
  shows "mapped (view (SharedMemory_dtor api sm k'')) = (mapped (view k''))(mem_address sm := None)"
proof -
  obtain k1 where c: "opened b n (view k) (view k1) (fd_disposer sm) (Some (mem_fd sm))"
    "allocated (mem_fd sm) (view k1) (view k') sz (allocation_disposer sm) (Some (mem_address sm))"
    using Linux_ctor_spec [OF assms] by auto
  then have "Disposer_dtor (fd_disposer sm) = [Close_File (mem_fd sm) b n]"
    "Disposer_dtor (allocation_disposer sm) = [Unmap (mem_address sm) sz]"
    by (auto simp: opened_def allocated_def)
  then show ?thesis
    by (simp add: SharedMemory_dtor_def dispose_def posix_shared_memory.run_cleanup_view [OF assms(1)]
      del: run_cleanup.simps)
qed

text \<open>\<open>lock\<close> and \<open>unlock\<close> through a handle act on the mutex in the block behind it, and on no other.\<close>

context object_memory
begin

lemma lock_at:
  assumes "posix_robust papi status" "mapped (view k) (object_handle obj) = Some x"
  shows "status (contents (rest k) x) = Unlocked \<Longrightarrow> \<exists>k' m. Linux_lock_at papi mem (Some obj) t k = Some (k', Inr ()) \<and>
      view k' = view k \<and> contents (rest k') = (contents (rest k))(x := m) \<and> status m = Locked t"
    and "status (contents (rest k) x) = Locked u \<Longrightarrow> u \<noteq> t \<Longrightarrow> Linux_lock_at papi mem (Some obj) t k = None"
proof -
  assume "status (contents (rest k) x) = Unlocked"
  then obtain m where "Linux_lock papi True t (contents (rest k) x) = Some (m, Inr ())" "status m = Locked t"
    using posix_robust.Linux_lock_free [OF assms(1), of "contents (rest k) x" t] by auto
  then show "\<exists>k' m. Linux_lock_at papi mem (Some obj) t k = Some (k', Inr ()) \<and>
      view k' = view k \<and> contents (rest k') = (contents (rest k))(x := m) \<and> status m = Locked t"
    using put_contents [OF assms(2)] by (auto simp: Linux_lock_at_def get [OF assms(2)] put_view)
next
  assume "status (contents (rest k) x) = Locked u" "u \<noteq> t"
  then show "Linux_lock_at papi mem (Some obj) t k = None"
    using posix_robust.lock_other [OF assms(1), of "contents (rest k) x" u t]
    by (simp add: Linux_lock_at_def get [OF assms(2)] Linux_lock_def Linux_RobustMutex_lock_def)
qed

lemma unlock_at:
  assumes "posix_robust papi status" "mapped (view k) (object_handle obj) = Some x"
    "status (contents (rest k) x) = Locked t"
  shows "\<exists>k' m. Linux_unlock_at papi mem (Some obj) t k = (k', Inr ()) \<and>
      view k' = view k \<and> contents (rest k') = (contents (rest k))(x := m) \<and> status m = Unlocked"
proof -
  obtain m where "pthread_mutex_unlock papi t (contents (rest k) x) = (m, Zero)" "status m = Unlocked"
    using posix_robust.unlock_own [OF assms(1,3)] by auto
  then show ?thesis
    using put_contents [OF assms(2)]
    by (auto simp: Linux_unlock_at_def get [OF assms(2)] put_view Linux_unlock_def Linux_RobustMutex_unlock_def)
qed

end

text \<open>What the public constructor gives.\<close>

lemma Linux_RobustMutex_obj:
  assumes "Linux_RobustMutex api papi sys name b k = (k', Inr impl)"
  obtains obj where "impl = Some obj"
    "Linux_object_new api sys (''ipc_mutex_'' @ name) 40 (Linux_RobustMutex_ctor papi) b k = (k', Inr obj)"
  using assms by (auto simp: Linux_RobustMutex_def Linux_mutex_new_def split: prod.splits sum.splits)

lemma owner_then_other:
  assumes "object_memory api view sys rest contents" "posix_robust papi status"
    "Linux_RobustMutex api papi sys name True k = (k1, Inr first)"
    "Linux_RobustMutex api papi sys name b k1 = (k2, Inr second)"
  obtains a c x y where "first = Some a" "second = Some c" "object_handle a \<noteq> object_handle c"
    "mapped (view k2) (object_handle a) = Some x" "mapped (view k2) (object_handle c) = Some y"
    "status (contents (rest k2) x) = Unlocked" "status (contents (rest k2) y) = Unlocked" "x = y \<longleftrightarrow> \<not> b"
    "object_cleanup a"
    "\<And>k''. mapped (view (SharedMemory_dtor api (object_block a) k'')) = (mapped (view k''))(object_handle a := None)"
proof -
  note om = assms(1)
  obtain a where a: "first = Some a"
    "Linux_object_new api sys (''ipc_mutex_'' @ name) 40 (Linux_RobustMutex_ctor papi) True k = (k1, Inr a)"
    using Linux_RobustMutex_obj [OF assms(3)] by blast
  obtain c where c: "second = Some c"
    "Linux_object_new api sys (''ipc_mutex_'' @ name) 40 (Linux_RobustMutex_ctor papi) b k1 = (k2, Inr c)"
    using Linux_RobustMutex_obj [OF assms(4)] by blast
  have sm: "mapped (view (SharedMemory_dtor api (object_block a) k'')) = (mapped (view k''))(object_handle a := None)" for k''
    using object_memory.object_new_block [OF om a(2) mutex_body_client]
      memory_dtor_mapped [OF object_memory.axioms(1) [OF om]] by metis
  obtain x m where x: "object_cleanup a" "object_of (view k1) (''ipc_mutex_'' @ name) = Some x"
    "mapped (view k1) (object_handle a) = Some x" "contents (rest k1) x = m" "status m = Unlocked"
    using object_memory.object_new_object [OF om a(2) mutex_body_client] mutex_body_owner [OF assms(2)]
    by (metis fun_upd_same)
  obtain y where y: "mapped (view k1) (object_handle c) = None"
    "mapped (view k2) = (mapped (view k1))(object_handle c \<mapsto> y)"
    "\<not> b \<Longrightarrow> object_of (view k1) (''ipc_mutex_'' @ name) = Some y \<and> contents (rest k2) = contents (rest k1)"
    "b \<Longrightarrow> y \<notin> ran (mapped (view k1)) \<and> (\<exists>m. status m = Unlocked \<and> contents (rest k2) = (contents (rest k1))(y := m))"
    using object_memory.object_new_object [OF om c(2) mutex_body_client] mutex_body_owner [OF assms(2)] by metis
  have ne: "object_handle a \<noteq> object_handle c" using x(3) y(1) by auto
  have "b \<Longrightarrow> y \<noteq> x" using y(4) x(3) by (auto simp: ran_def)
  then show thesis
    using that [OF a(1) c(1) ne, of x y] x y ne sm by (cases b) auto
qed

section \<open>Properties\<close>

definition no_objects :: "mutex_status object_tables" where
  "no_objects = \<lparr>memory_tables = no_tables, objects = (\<lambda>x. Not_Recoverable)\<rparr>"

abbreviation new_mutex :: "bool \<Rightarrow> mutex_status object_tables \<Rightarrow>
    mutex_status object_tables \<times> (cpp_error + linux_object option)" where
  "new_mutex \<equiv> Linux_RobustMutex object_shm kernel table_placement ''m''"

lemma two_mutexes:
  obtains k1 first k2 second where "new_mutex True no_objects = (k1, Inr first)" "new_mutex b k1 = (k2, Inr second)"
proof -
  have "case new_mutex True no_objects of (k1, Inl e) \<Rightarrow> False
    | (k1, Inr first) \<Rightarrow> (case new_mutex b k1 of (k2, Inl e) \<Rightarrow> False | (k2, Inr second) \<Rightarrow> True)"
    by (cases b; simp only:; code_simp)
  then show thesis using that by (auto split: prod.splits sum.splits)
qed

text \<open>
  Neither constructor leaks anything when it throws, and the destructors take back what the
  constructors acquired, whatever happened to the object in between.
\<close>

theorem Linux_RobustMutex_leaks_nothing:
  assumes "object_memory api view sys rest contents"
    "Linux_RobustMutex api papi sys name isOwner k = (k', r)"
  shows "case r of
      Inl e \<Rightarrow> same_except (''ipc_mutex_'' @ name) (view k) (view k')
    | Inr impl \<Rightarrow> \<forall>k''. same_except (''ipc_mutex_'' @ name) (view k') (view k'') \<longrightarrow>
        same_except (''ipc_mutex_'' @ name) (view k) (view (Linux_RobustMutex_delete api papi sys impl k''))"
proof -
  let ?n = "''ipc_mutex_'' @ name"
  obtain q where q: "Linux_object_new api sys ?n 40 (Linux_RobustMutex_ctor papi) isOwner k = (k', q)"
    "r = (case q of Inl e \<Rightarrow> Inl e | Inr obj \<Rightarrow> Inr (Some obj))"
    using assms(2) by (auto simp: Linux_RobustMutex_def Linux_mutex_new_def split: prod.splits sum.splits)
  from object_memory.object_leaks_nothing [OF assms(1) q(1) mutex_body_client, of "Linux_RobustMutex_dtor papi"]
  show ?thesis
    unfolding q(2) Linux_RobustMutex_delete_def Linux_mutex_delete_def by (cases q) (simp_all only: sum.case option.case)
qed

theorem Linux_RobustMutex_leaks_nothing_witness:
  "snd (new_mutex False no_objects) = Inl (runtime_error_code ''shm_open failed, error: '' (Code ENOENT)) \<and>
   same_except ''ipc_mutex_m'' (object_view no_objects) (object_view (fst (new_mutex False no_objects)))"
proof -
  let ?e = "runtime_error_code ''shm_open failed, error: '' (Code ENOENT)"
  have s: "snd (new_mutex False no_objects) = Inl ?e" by code_simp
  then have "new_mutex False no_objects = (fst (new_mutex False no_objects), Inl ?e)" by (metis prod.collapse)
  from Linux_RobustMutex_leaks_nothing [OF om.object_memory_axioms this] s show ?thesis by simp
qed

theorem Linux_condition_leaks_nothing:
  assumes "object_memory api view sys rest contents"
    "Linux_condition_new api capi sys name isOwner k = (k', r)"
  shows "case r of
      Inl e \<Rightarrow> same_except (''ipc_cond_'' @ name) (view k) (view k')
    | Inr obj \<Rightarrow> \<forall>k''. same_except (''ipc_cond_'' @ name) (view k') (view k'') \<longrightarrow>
        same_except (''ipc_cond_'' @ name) (view k) (view (Linux_condition_delete api capi sys obj k''))"
  unfolding Linux_condition_delete_def
  by (rule object_memory.object_leaks_nothing
    [OF assms(1) assms(2) [unfolded Linux_condition_new_def] condition_body_client])

theorem Linux_condition_leaks_nothing_witness:
  "same_except ''ipc_cond_m'' (object_view (\<lparr>memory_tables = no_tables, objects = (\<lambda>x. [])\<rparr> :: wait_end list object_tables))
    (object_view (fst (Linux_condition_new object_shm scripted_cond table_placement ''m'' False
      (\<lparr>memory_tables = no_tables, objects = (\<lambda>x. [])\<rparr> :: wait_end list object_tables))))"
proof -
  let ?k = "\<lparr>memory_tables = no_tables, objects = (\<lambda>x. [])\<rparr> :: wait_end list object_tables"
  let ?c = "Linux_condition_new object_shm scripted_cond table_placement ''m'' False ?k"
  let ?e = "runtime_error_code ''shm_open failed, error: '' (Code ENOENT)"
  have "snd ?c = Inl ?e" by code_simp
  then have "?c = (fst ?c, Inl ?e)" by (metis prod.collapse)
  from Linux_condition_leaks_nothing [OF om.object_memory_axioms this] show ?thesis by simp
qed

text \<open>
  C10. One mutex for all processes: after the construction by the owner and by a client, the owner's
  \<open>lock\<close> succeeds, then blocks every other thread that locks through the client's object, and after
  \<open>unlock\<close> the client's \<open>lock\<close> succeeds.
\<close>

theorem Linux_mutex_excludes_across_processes:
  assumes "object_memory api view sys rest contents" "posix_robust papi status"
    "Linux_RobustMutex api papi sys name True k = (k1, Inr owner)"
    "Linux_RobustMutex api papi sys name False k1 = (k2, Inr client)"
  shows "\<exists>k3 k4. Linux_lock_at papi sys owner t k2 = Some (k3, Inr ()) \<and>
    (\<forall>u. u \<noteq> t \<longrightarrow> Linux_lock_at papi sys client u k3 = None) \<and>
    Linux_unlock_at papi sys owner t k3 = (k4, Inr ()) \<and>
    (\<forall>u. \<exists>k5. Linux_lock_at papi sys client u k4 = Some (k5, Inr ()))"
proof -
  note om = assms(1)
  obtain a c x where h: "owner = Some a" "client = Some c"
    "mapped (view k2) (object_handle a) = Some x" "mapped (view k2) (object_handle c) = Some x"
    "status (contents (rest k2) x) = Unlocked"
    using owner_then_other [OF assms] by metis
  obtain k3 m3 where k3: "Linux_lock_at papi sys owner t k2 = Some (k3, Inr ())" "view k3 = view k2"
    "contents (rest k3) = (contents (rest k2))(x := m3)" "status m3 = Locked t"
    using object_memory.lock_at(1) [OF om assms(2) h(3,5)] h(1) by metis
  have s3: "status (contents (rest k3) x) = Locked t" using k3(3,4) by simp
  have "Linux_lock_at papi sys client u k3 = None" if "u \<noteq> t" for u
    using object_memory.lock_at(2) [OF om assms(2), of k3 c x t u] h(2,4) k3(2) s3 that by simp
  moreover obtain k4 m4 where k4: "Linux_unlock_at papi sys owner t k3 = (k4, Inr ())" "view k4 = view k3"
    "contents (rest k4) = (contents (rest k3))(x := m4)" "status m4 = Unlocked"
    using object_memory.unlock_at [OF om assms(2), of k3 a x t] h(1,3) k3(2) s3 by auto
  moreover have "\<exists>k5. Linux_lock_at papi sys client u k4 = Some (k5, Inr ())" for u
    using object_memory.lock_at(1) [OF om assms(2), of k4 c x u] h(2,4) k3(2) k4(2-4) by auto
  ultimately show ?thesis using k3(1) by blast
qed

theorem Linux_mutex_excludes_across_processes_witness:
  "\<exists>owner client k2 k3. Linux_lock_at kernel table_placement owner (1, 1) k2 = Some (k3, Inr ()) \<and>
     Linux_lock_at kernel table_placement client (2, 1) (k3 :: mutex_status object_tables) = None"
proof -
  obtain k1 owner k2 client where "new_mutex True no_objects = (k1, Inr owner)" "new_mutex False k1 = (k2, Inr client)"
    by (rule two_mutexes)
  from Linux_mutex_excludes_across_processes [OF om.object_memory_axioms pk.posix_robust_axioms this, of "(1, 1)"]
  obtain k3 where k3: "Linux_lock_at kernel table_placement owner (1, 1) k2 = Some (k3, Inr ())"
    "\<And>u. u \<noteq> (1, 1) \<Longrightarrow> Linux_lock_at kernel table_placement client u k3 = None" by blast
  have "Linux_lock_at kernel table_placement client (2, 1) k3 = None" by (rule k3(2)) simp
  then show ?thesis using k3(1) by blast
qed

text \<open>
  C39. A second owner of the name defeats the mutex: a thread that locks through the object of the first
  owner and one that locks through the object of the second are both inside.
\<close>

theorem Linux_second_owner_defeats_mutex:
  assumes "object_memory api view sys rest contents" "posix_robust papi status"
    "Linux_RobustMutex api papi sys name True k = (k1, Inr first)"
    "Linux_RobustMutex api papi sys name True k1 = (k2, Inr second)"
  shows "\<exists>k3 k4. Linux_lock_at papi sys first t k2 = Some (k3, Inr ()) \<and>
    Linux_lock_at papi sys second u k3 = Some (k4, Inr ()) \<and>
    status (get_object sys (object_handle (the first)) k4) = Locked t \<and>
    status (get_object sys (object_handle (the second)) k4) = Locked u"
proof -
  note om = assms(1)
  obtain a c x y where h: "first = Some a" "second = Some c"
    "mapped (view k2) (object_handle a) = Some x" "mapped (view k2) (object_handle c) = Some y"
    "status (contents (rest k2) x) = Unlocked" "status (contents (rest k2) y) = Unlocked" "x \<noteq> y"
    using owner_then_other [OF assms] by metis
  obtain k3 m3 where k3: "Linux_lock_at papi sys first t k2 = Some (k3, Inr ())" "view k3 = view k2"
    "contents (rest k3) = (contents (rest k2))(x := m3)" "status m3 = Locked t"
    using object_memory.lock_at(1) [OF om assms(2) h(3,5)] h(1) by metis
  have "mapped (view k3) (object_handle c) = Some y" "status (contents (rest k3) y) = Unlocked"
    using h(4,6,7) k3(2,3) by simp_all
  then obtain k4 m4 where k4: "Linux_lock_at papi sys second u k3 = Some (k4, Inr ())" "view k4 = view k3"
    "contents (rest k4) = (contents (rest k3))(y := m4)" "status m4 = Locked u"
    using object_memory.lock_at(1) [OF om assms(2)] h(2) by metis
  have "get_object sys (object_handle a) k4 = m3" "get_object sys (object_handle c) k4 = m4"
    using object_memory.get [OF om, of k4 "object_handle a" x] object_memory.get [OF om, of k4 "object_handle c" y]
      h(3,4,7) k3 k4 by simp_all
  then show ?thesis using k3(1,4) k4(1,4) h(1,2) by auto
qed

theorem Linux_second_owner_defeats_mutex_witness:
  "\<exists>(first :: linux_object option) (second :: linux_object option) k4.
     get_object table_placement (object_handle (the first)) (k4 :: mutex_status object_tables) = Locked (1, 1) \<and>
     get_object table_placement (object_handle (the second)) k4 = Locked (2, 1)"
proof -
  obtain k1 first k2 second where "new_mutex True no_objects = (k1, Inr first)" "new_mutex True k1 = (k2, Inr second)"
    by (rule two_mutexes)
  from Linux_second_owner_defeats_mutex [OF om.object_memory_axioms pk.posix_robust_axioms this, of "(1, 1)" "(2, 1)"]
  show ?thesis by blast
qed

text \<open>
  The owner's destructor destroys the mutex although clients use it: what a client then finds behind
  its handle is the destroyed mutex, also when one of its threads holds it.
\<close>

theorem Linux_owner_destroys_mutex_in_use:
  assumes "object_memory api view sys rest contents" "posix_robust papi status"
    "Linux_RobustMutex api papi sys name True k = (k1, Inr owner)"
    "Linux_RobustMutex api papi sys name False k1 = (k2, Inr client)"
  shows "\<exists>k3 m. Linux_lock_at papi sys client t k2 = Some (k3, Inr ()) \<and> status m = Locked t \<and>
    get_object sys (object_handle (the client)) k3 = m \<and>
    get_object sys (object_handle (the client)) (Linux_RobustMutex_delete api papi sys owner k3) =
      pthread_mutex_destroy papi m"
proof -
  note om = assms(1)
  obtain a c x where h: "owner = Some a" "client = Some c" "object_handle a \<noteq> object_handle c"
    "mapped (view k2) (object_handle a) = Some x" "mapped (view k2) (object_handle c) = Some x"
    "status (contents (rest k2) x) = Unlocked" "object_cleanup a"
    "\<And>k. mapped (view (SharedMemory_dtor api (object_block a) k)) = (mapped (view k))(object_handle a := None)"
    by (rule owner_then_other [OF assms]) auto
  obtain k3 m where k3: "Linux_lock_at papi sys client t k2 = Some (k3, Inr ())" "view k3 = view k2"
    "contents (rest k3) = (contents (rest k2))(x := m)" "status m = Locked t"
    using object_memory.lock_at(1) [OF om assms(2) h(5,6)] h(2) by metis
  have g: "get_object sys (object_handle a) k3 = m" "get_object sys (object_handle c) k3 = m"
    using object_memory.get [OF om, of k3 _ x] h(4,5) k3(2,3) by simp_all
  let ?k4 = "put_object sys (object_handle a) (pthread_mutex_destroy papi m) k3"
  let ?k5 = "SharedMemory_dtor api (object_block a) ?k4"
  have "mapped (view ?k5) (object_handle c) = Some x"
    using h(3,5,8) k3(2) object_memory.put_view [OF om] by simp
  moreover have "contents (rest ?k5) x = pthread_mutex_destroy papi m"
    using object_memory.memory_dtor_rest [OF om] object_memory.put_contents [OF om, of k3 "object_handle a" x] h(4) k3(2)
    by simp
  ultimately have "get_object sys (object_handle c) ?k5 = pthread_mutex_destroy papi m"
    using object_memory.get [OF om] by metis
  moreover have "Linux_RobustMutex_delete api papi sys owner k3 = ?k5"
    using h(1,7) g(1)
    by (simp add: Linux_RobustMutex_delete_def Linux_mutex_delete_def Linux_object_delete_def Linux_RobustMutex_dtor_def)
  ultimately show ?thesis using k3(1,4) g(2) h(2) by auto
qed

theorem Linux_owner_destroys_mutex_in_use_witness:
  "\<exists>owner (client :: linux_object option) k3. get_object table_placement (object_handle (the client))
     (Linux_RobustMutex_delete object_shm kernel table_placement owner (k3 :: mutex_status object_tables)) =
     pthread_mutex_destroy kernel (Locked (2, 1))"
proof -
  obtain k1 owner k2 client where "new_mutex True no_objects = (k1, Inr owner)" "new_mutex False k1 = (k2, Inr client)"
    by (rule two_mutexes)
  from Linux_owner_destroys_mutex_in_use [OF om.object_memory_axioms pk.posix_robust_axioms this, of "(2, 1)"]
  show ?thesis by blast
qed

end
