(* ===== verification/Darwin_Condition_Setup.thy ===== *)
theory Darwin_Condition_Setup
  imports Darwin_Condition Darwin_Mutex_Setup
begin

text \<open>
  The construction and the destruction of the condition variable on macOS
  (\<open>src/ipc/darwin/ConditionVariable.cpp\<close>): the queue of the waiting threads lies in a shared memory
  and has a mutex of its own, and an owner empties it.
\<close>

section \<open>The class ConditionVariable\<close>

text \<open>The members; the queue is the address of its memory and its size.\<close>

record darwin_condition_object =
  threadQueueMemory :: shared_memory
  threadQueueAt :: nat
  threadQueueSize :: u32
  threadQueueMutex :: robust_mutex
  objectName :: string

definition queue_memory_name :: "string \<Rightarrow> string" where
  "queue_memory_name name = name @ ''_threadqueue''"

definition queue_mutex_name :: "string \<Rightarrow> string" where
  "queue_mutex_name name = name @ ''_threadqueu''"

text \<open>
  \<open>qsys\<close> reads and writes the queue at an address; \<open>init_queue\<close> is the effect of the constructor of the
  queue on the memory.
\<close>

definition init_queue :: "('k, nat queue_memory) placement \<Rightarrow> bool \<Rightarrow> nat \<Rightarrow> 'k \<Rightarrow> 'k" where
  "init_queue qsys b a k =
     (if b then put_object qsys a (memory (Darwin_thread_queue (get_object qsys a k) True)) k else k)"

definition Darwin_ConditionVariable_ctor ::
  "'k posix_shm \<Rightarrow> name_functions \<Rightarrow> 'm pthread \<Rightarrow> ('k, 'm) darwin_files \<Rightarrow> ('k, nat queue_memory) placement \<Rightarrow>
     string \<Rightarrow> bool \<Rightarrow> nat \<Rightarrow> 'k \<Rightarrow> 'k \<times> (shm_error + darwin_condition_object)"
where
  "Darwin_ConditionVariable_ctor api lib papi sys qsys name isOwner p k =
     (case Darwin_SharedMemory_ctor api lib (queue_memory_name name) (128 * 1024) isOwner k of
        (k, Inl e) \<Rightarrow> (k, Inl e)
      | (k, Inr mem) \<Rightarrow>
          (case Darwin_RobustMutex_ctor api lib papi sys (queue_mutex_name name) isOwner p
                  (init_queue qsys isOwner (mem_address mem) k) of
             (k, Inl e) \<Rightarrow> (SharedMemory_dtor api mem k, Inl e)
           | (k, Inr m) \<Rightarrow>
               (k, Inr \<lparr>threadQueueMemory = mem, threadQueueAt = mem_address mem,
                        threadQueueSize = queue_size (128 * 1024) 8, threadQueueMutex = m, objectName = name\<rparr>)))"

text \<open>The destructor: the mutex first, whose destructor may end the program.\<close>

definition Darwin_ConditionVariable_dtor ::
  "'k posix_shm \<Rightarrow> 'm pthread \<Rightarrow> ('k, 'm) darwin_files \<Rightarrow> darwin_condition_object \<Rightarrow> 'k \<Rightarrow> 'k option"
where
  "Darwin_ConditionVariable_dtor api papi sys c k =
     (case Darwin_RobustMutex_dtor api papi sys (threadQueueMutex c) k of
        None \<Rightarrow> None | Some k \<Rightarrow> Some (SharedMemory_dtor api (threadQueueMemory c) k))"

text \<open>The queue that the methods of an object work on, as it is in a state of the system.\<close>

definition queue_of :: "('k, nat queue_memory) placement \<Rightarrow> darwin_condition_object \<Rightarrow> 'k \<Rightarrow> nat queue" where
  "queue_of qsys c k = \<lparr>memory = get_object qsys (threadQueueAt c) k, qsize = threadQueueSize c\<rparr>"

section \<open>What the construction leaves\<close>

text \<open>The same descriptors and mappings.\<close>

definition same_resources :: "shm_view \<Rightarrow> shm_view \<Rightarrow> bool" where
  "same_resources v v' \<longleftrightarrow> mapped v' = mapped v \<and> behind v' = behind v"

lemma same_resources_trans: "same_resources u v \<Longrightarrow> same_resources v w \<Longrightarrow> same_resources u w"
  by (simp add: same_resources_def)

lemma same_except_resources: "same_except n v v' \<Longrightarrow> same_resources v v'"
  by (simp add: same_except_def same_resources_def)

context posix_shared_memory
begin

lemma dispose_resources:
  assumes "opened b n v (view k1) d1 (Some fd)" "allocated fd (view k1) (view k2) sz d2 (Some a)"
    "same_resources (view k2) (view k3)"
  shows "same_resources v (view (dispose api d1 (dispose api d2 k3)))"
proof -
  have "dispose api d1 (dispose api d2 k3) = run_cleanup api (Close_File fd b n) (run_cleanup api (Unmap a sz) k3)"
    using assms by (simp add: opened_def allocated_def dispose_def)
  moreover have "(mapped (view k2))(a := None) = mapped v" "(behind (view k2))(fd := None) = behind v"
    using assms(1,2) by (auto simp: opened_def allocated_def fun_upd_idem_iff)
  ultimately show ?thesis
    using assms by (auto simp: opened_def allocated_def same_resources_def run_cleanup_view simp del: run_cleanup.simps)
qed

lemma Darwin_memory_resources:
  assumes "Darwin_SharedMemory_ctor api lib name sz b k = (k', Inr mem)" "same_resources (view k') (view k'')"
  shows "same_resources (view k) (view (SharedMemory_dtor api mem k''))"
  using Darwin_ctor_spec [OF posix_shared_memory_axioms assms(1)] dispose_resources [OF _ _ assms(2)]
  by (auto simp: SharedMemory_dtor_def)

lemma Darwin_memory_keeps_mapped:
  assumes "Darwin_SharedMemory_ctor api lib name sz b k = (k', Inr mem)" "mapped (view k) a = Some x"
  shows "mapped (view k') a = Some x" "mem_address mem \<noteq> a"
  using Darwin_ctor_spec [OF posix_shared_memory_axioms assms(1)] assms(2)
  by (auto simp: opened_def allocated_def)

lemma Darwin_memory_keeps_names:
  assumes "Darwin_SharedMemory_ctor api lib name sz b k = (k', Inr mem)" "i \<noteq> object_name lib name"
  shows "object_of (view k') i = object_of (view k) i"
  using Darwin_ctor_spec [OF posix_shared_memory_axioms assms(1)] assms(2) by (auto simp: opened_def allocated_def)

text \<open>An owner whose \<open>shm_unlink\<close> works gets an object that nobody has mapped.\<close>

lemma Darwin_owner_memory_is_new:
  assumes "Darwin_SharedMemory_ctor api lib name sz True k = (k', Inr mem)"
    and u: "\<And>n. object_of (view k) n \<noteq> None \<Longrightarrow> \<exists>k''. shm_unlink api n k = (k'', Inr ())"
  shows "\<exists>y. mapped (view k') (mem_address mem) = Some y \<and> y \<notin> ran (mapped (view k))"
proof -
  from Darwin_ctor_spec [OF posix_shared_memory_axioms assms(1)] obtain k1 where k1:
    "Darwin_CreateSharedMemory api lib True name Disposer_default k = (k1, fd_disposer mem, Inr (mem_fd mem))"
    "allocated (mem_fd mem) (view k1) (view k') sz (allocation_disposer mem) (Some (mem_address mem))" by auto
  obtain s where s: "base64_encode lib (sha1_hash lib name) = Inr s"
    using k1(1) by (auto simp: Darwin_CreateSharedMemory_def split: sum.splits)
  obtain k9 u9 where k9: "shm_unlink api (''/'' @ s) k = (k9, u9)" by fastforce
  have v: "object_of (view k9) (''/'' @ s) = None" "mapped (view k9) = mapped (view k)"
  proof -
    show "mapped (view k9) = mapped (view k)"
      using unlink_fails [of "''/'' @ s" k k9] unlink_done [of "''/'' @ s" k k9] k9 by (cases u9) auto
    show "object_of (view k9) (''/'' @ s) = None"
      using u [of "''/'' @ s"] unlink_fails [of "''/'' @ s" k k9] unlink_done [of "''/'' @ s" k k9] k9
      by (cases u9; cases "object_of (view k) (''/'' @ s)") auto
  qed
  have o: "Darwin_open api True (''/'' @ s) Disposer_default k9 = (k1, fd_disposer mem, Inr (mem_fd mem))"
    using k1(1) s k9 by (simp add: Darwin_CreateSharedMemory_def)
  obtain k2 r2 where k2: "shm_open api (''/'' @ s) [O_RDWR, O_CREAT] 420 k9 = (k2, r2)" by fastforce
  have "r2 \<noteq> Inl EEXIST" using open_exists [of "''/'' @ s" "[O_RDWR, O_CREAT]" 420 k9 k2] k2 by auto
  then have r: "r2 = Inr (mem_fd mem)" "k2 = k1"
    using o k2 by (cases r2; auto simp: Darwin_open_def Let_def split: if_splits)+
  obtain y where "y \<notin> ran (mapped (view k9))" "view k1 = (view k9)\<lparr>object_of := (object_of (view k9))(''/'' @ s \<mapsto> y),
      behind := (behind (view k9))(mem_fd mem \<mapsto> y)\<rparr>"
    using open_new [of "''/'' @ s" "[O_RDWR, O_CREAT]" 420 k9 k1 "mem_fd mem"] k2 r v(1) by auto
  then show ?thesis using k1(2) v(2) by (auto simp: allocated_def)
qed

end

text \<open>The system: the mutexes and files of \<open>darwin_setup\<close>, and the queue in each block.\<close>

locale darwin_condition_setup = darwin_setup api view sys rest papi status +
    qm: object_memory api view qsys queue_in "\<lambda>r. r"
  for api :: "'k posix_shm" and view and sys :: "('k, 'm) darwin_files" and rest :: "'k \<Rightarrow> 'm darwin_rest"
    and papi :: "'m pthread" and status and qsys :: "('k, nat queue_memory) placement"
    and queue_in :: "'k \<Rightarrow> nat \<Rightarrow> nat queue_memory" +
  assumes queue_rest: "rest (put_object qsys a q k) = rest k"
    and mutex_queues: "queue_in (put_object sys a m k) = queue_in k"
    and create_queues: "queue_in (create_file sys n k) = queue_in k"
    and fopen_queues: "queue_in (fst (fopen_rb sys n k)) = queue_in k"
    and fclose_queues: "queue_in (fst (fclose sys fd k)) = queue_in k"
begin

lemma destroy_queues: "queue_in (destroy_mutex papi sys d k) = queue_in k"
  by (cases "func d") (simp_all add: destroy_mutex_def Disposer_dtor_def mutex_queues)

lemma CreateLocalMutex_queues:
  assumes "CreateLocalMutex api lib papi sys b name p k = (k', r)"
  shows "queue_in k' = queue_in k"
proof -
  let ?ctor = "Darwin_SharedMemory_ctor api lib (local_memory_name sys name p) 64"
  obtain k1 r1 where c1: "?ctor b k = (k1, r1)" by fastforce
  obtain k2 r2 where c2: "?ctor True k1 = (k2, r2)" by fastforce
  obtain m r3 where i: "InitLocalMutex papi = (m, r3)" by fastforce
  have q: "queue_in k1 = queue_in k" "queue_in k2 = queue_in k"
    using qm.memory_ctor_rest [OF c1] qm.memory_ctor_rest [OF c2] by simp_all
  show ?thesis
    using assms c1 c2 i q
    by (auto simp: CreateLocalMutex_def Let_def mutex_queues qm.memory_dtor_rest
        split: sum.splits shm_error.splits if_splits)
qed

lemma OpenFile_queues:
  assumes "OpenFile sys name b k = (k', r)"
  shows "queue_in k' = queue_in k"
proof -
  let ?k = "if b \<and> \<not> stat_succeeds sys (lock_path name) k then create_file sys (lock_path name) k else k"
  obtain k1 r1 where f: "fopen_rb sys (lock_path name) ?k = (k1, r1)" by fastforce
  have "k' = k1" using assms f by (cases r1) (simp_all add: OpenFile_def Let_def)
  then show ?thesis using fopen_queues [of "lock_path name" ?k] f by (auto simp: create_queues)
qed

lemma mutex_ctor_queues:
  assumes "Darwin_RobustMutex_ctor api lib papi sys name b p k = (k', r)"
  shows "queue_in k' = queue_in k"
proof -
  obtain k1 r1 where c: "CreateLocalMutex api lib papi sys b (local_memory_name sys name p) p k = (k1, r1)" by fastforce
  obtain k2 r2 where o: "OpenFile sys (name @ ''_mutex'') b k1 = (k2, r2)" by fastforce
  show ?thesis
    using assms c o CreateLocalMutex_queues [OF c] OpenFile_queues [OF o]
    by (auto simp: Darwin_RobustMutex_ctor_def qm.memory_dtor_rest destroy_queues split: sum.splits)
qed

lemma mutex_ctor_keeps_mapped:
  assumes "Darwin_RobustMutex_ctor api lib papi sys name b p k = (k', Inr m)" "mapped (view k) a = Some x"
  shows "mapped (view k') a = Some x"
proof -
  obtain b' k0 k1 where c:
    "Darwin_SharedMemory_ctor api lib (local_memory_name sys (local_memory_name sys name p) p) 64 b' k0 = (k1, Inr (mutexMemory m))"
    "same_except (memory_object lib sys name p) (view k) (view k0)" "view k' = view k1"
    by (rule mutex_ctor_made [OF assms(1)]) blast
  then show ?thesis using Darwin_memory_keeps_mapped(1) [OF c(1)] assms(2) by (simp add: same_except_def)
qed

lemma mutex_ctor_names:
  assumes "Darwin_RobustMutex_ctor api lib papi sys name b p k = (k', Inr m)" "i \<noteq> memory_object lib sys name p"
  shows "object_of (view k') i = object_of (view k) i"
proof -
  obtain b' k0 k1 where c:
    "Darwin_SharedMemory_ctor api lib (local_memory_name sys (local_memory_name sys name p) p) 64 b' k0 = (k1, Inr (mutexMemory m))"
    "same_except (memory_object lib sys name p) (view k) (view k0)" "view k' = view k1"
    by (rule mutex_ctor_made [OF assms(1)]) blast
  then show ?thesis using Darwin_memory_keeps_names [OF c(1)] assms(2) by (simp add: same_except_def memory_object_def)
qed

lemma mutex_dtor_resources:
  assumes "Darwin_RobustMutex_ctor api lib papi sys name b p k = (k', Inr m)"
    "same_resources (view k') (view k'')" "streams (rest k'') = streams (rest k')"
  shows "\<exists>k3. Darwin_RobustMutex_dtor api papi sys m k'' = Some k3 \<and>
    same_resources (view k) (view k3) \<and> streams (rest k3) = streams (rest k)"
proof -
  obtain b' k0 k1 where c:
    "Darwin_SharedMemory_ctor api lib (local_memory_name sys (local_memory_name sys name p) p) 64 b' k0 = (k1, Inr (mutexMemory m))"
    "same_except (memory_object lib sys name p) (view k) (view k0)" "view k' = view k1"
    "lockFile m \<notin> streams (rest k)" "streams (rest k') = insert (lockFile m) (streams (rest k))"
    by (rule mutex_ctor_made [OF assms(1)]) blast
  obtain k4 where f: "fclose sys (lockFile m) k'' = (k4, Zero)" "view k4 = view k''"
    "streams (rest k4) = streams (rest k'') - {lockFile m}"
    using fclose_closes [of "lockFile m" k''] assms(3) c(5) by auto
  let ?k5 = "destroy_mutex papi sys (mutexDisposer m) k4"
  have "same_resources (view k1) (view ?k5)" using assms(2) c(3) f(2) by (simp add: destroy_mutex_view)
  from Darwin_memory_resources [OF c(1) this] same_except_resources [OF c(2)]
  have "same_resources (view k) (view (SharedMemory_dtor api (mutexMemory m) ?k5))"
    using same_resources_trans by blast
  moreover have "streams (rest (SharedMemory_dtor api (mutexMemory m) ?k5)) = streams (rest k)"
    using f(3) assms(3) c(4,5) by (simp add: memory_dtor_rest destroy_mutex_view)
  ultimately show ?thesis using f(1) by (simp add: Darwin_RobustMutex_dtor_def)
qed

text \<open>The steps of the constructor.\<close>

lemma init_queue_keeps: "view (init_queue qsys b a k) = view k" "rest (init_queue qsys b a k) = rest k"
  by (simp_all add: init_queue_def qm.put_view queue_rest)

lemma init_queue_in:
  assumes "mapped (view k) a = Some x"
  shows "queue_in (init_queue qsys b a k) = (if b then (queue_in k)(x := (queue_in k x)
    \<lparr>readPosition := 0, writePosition := 0, itemCount := 0\<rparr>) else queue_in k)"
  using qm.put_contents [OF assms] qm.get [OF assms]
  by (simp add: init_queue_def Darwin_thread_queue_def Queue_ctor_def)

lemma condition_ctor_steps:
  assumes "Darwin_ConditionVariable_ctor api lib papi sys qsys name b p k = (k', r)"
    "Darwin_SharedMemory_ctor api lib (queue_memory_name name) (128 * 1024) b k = (k1, Inr mem)"
    "Darwin_RobustMutex_ctor api lib papi sys (queue_mutex_name name) b p (init_queue qsys b (mem_address mem) k1) = (k2, r2)"
  shows "case r2 of
      Inl e \<Rightarrow> r = Inl e \<and> k' = SharedMemory_dtor api mem k2
    | Inr m \<Rightarrow> k' = k2 \<and> r = Inr \<lparr>threadQueueMemory = mem, threadQueueAt = mem_address mem,
        threadQueueSize = queue_size (128 * 1024) 8, threadQueueMutex = m, objectName = name\<rparr>"
  using assms
  by (cases b) (auto simp: Darwin_ConditionVariable_ctor_def Let_def init_queue_def Darwin_thread_queue_def Queue_ctor_def
      split: sum.splits)

lemma condition_ctor_made:
  assumes "Darwin_ConditionVariable_ctor api lib papi sys qsys name b p k = (k', Inr c)"
  obtains k1 k2 where
    "Darwin_SharedMemory_ctor api lib (queue_memory_name name) (128 * 1024) b k = (k1, Inr (threadQueueMemory c))"
    "threadQueueAt c = mem_address (threadQueueMemory c)" "threadQueueSize c = queue_size (128 * 1024) 8"
    "k2 = init_queue qsys b (threadQueueAt c) k1"
    "Darwin_RobustMutex_ctor api lib papi sys (queue_mutex_name name) b p k2 = (k', Inr (threadQueueMutex c))"
proof -
  obtain k1 r1 where m: "Darwin_SharedMemory_ctor api lib (queue_memory_name name) (128 * 1024) b k = (k1, r1)"
    by fastforce
  then obtain mem where mem: "r1 = Inr mem"
    using assms by (cases r1) (simp_all add: Darwin_ConditionVariable_ctor_def)
  obtain k2 r2 where x: "Darwin_RobustMutex_ctor api lib papi sys (queue_mutex_name name) b p
      (init_queue qsys b (mem_address mem) k1) = (k2, r2)" by fastforce
  from condition_ctor_steps [OF assms m [unfolded mem] x] show thesis
    using that m mem x by (cases r2) auto
qed

lemma condition_leaks_nothing:
  assumes "Darwin_ConditionVariable_ctor api lib papi sys qsys name b p k = (k', r)"
  shows "case r of
      Inl e \<Rightarrow> same_resources (view k) (view k') \<and> streams (rest k') = streams (rest k)
    | Inr c \<Rightarrow> \<forall>k''. same_resources (view k') (view k'') \<and> streams (rest k'') = streams (rest k') \<longrightarrow>
        (\<exists>k3. Darwin_ConditionVariable_dtor api papi sys c k'' = Some k3 \<and>
          same_resources (view k) (view k3) \<and> streams (rest k3) = streams (rest k))"
proof -
  obtain k1 r1 where m: "Darwin_SharedMemory_ctor api lib (queue_memory_name name) (128 * 1024) b k = (k1, r1)"
    by fastforce
  note mr = memory_ctor_rest [OF m]
  show ?thesis
  proof (cases r1)
    case (Inl e)
    then have "r = Inl e" "k' = k1" using assms m by (simp_all add: Darwin_ConditionVariable_ctor_def)
    then show ?thesis
      using Darwin_ctor_spec [OF posix_shared_memory_axioms m] Inl mr same_except_resources by auto
  next
    case (Inr mem)
    let ?k = "init_queue qsys b (mem_address mem) k1"
    obtain k2 r2 where x: "Darwin_RobustMutex_ctor api lib papi sys (queue_mutex_name name) b p ?k = (k2, r2)" by fastforce
    note s = condition_ctor_steps [OF assms m [unfolded Inr] x]
    note undo = Darwin_memory_resources [OF m [unfolded Inr]]
    show ?thesis
    proof (cases r2)
      case (Inl e)
      then have "same_resources (view k1) (view k2)" "streams (rest k2) = streams (rest k)"
        using mutex_ctor_throws [of lib "queue_mutex_name name" b p ?k k2 e] x same_except_resources mr
        by (auto simp: init_queue_keeps)
      then show ?thesis using s Inl undo by (simp add: memory_dtor_rest)
    next
      case (Inr y)
      have "\<exists>k3. Darwin_ConditionVariable_dtor api papi sys c k'' = Some k3 \<and>
          same_resources (view k) (view k3) \<and> streams (rest k3) = streams (rest k)"
        if "r = Inr c" "same_resources (view k') (view k'')" "streams (rest k'') = streams (rest k')" for c k''
      proof -
        have c: "threadQueueMutex c = y" "threadQueueMemory c = mem" "k2 = k'" using s Inr that(1) by auto
        from mutex_dtor_resources [OF x [unfolded Inr c(3)] that(2,3)] obtain k4 where
          "Darwin_RobustMutex_dtor api papi sys y k'' = Some k4" "same_resources (view k1) (view k4)"
          "streams (rest k4) = streams (rest k)" by (auto simp: init_queue_keeps mr)
        then show ?thesis using undo c by (simp add: Darwin_ConditionVariable_dtor_def memory_dtor_rest)
      qed
      then show ?thesis using s Inr by auto
    qed
  qed
qed

text \<open>What a client attaches to is what the name stands for.\<close>

lemma condition_queue_block:
  assumes "Darwin_ConditionVariable_ctor api lib papi sys qsys name b p k = (k', Inr c)"
  shows "\<exists>x. mapped (view k') (threadQueueAt c) = Some x \<and>
    queue_of qsys c k' = \<lparr>memory = queue_in k' x, qsize = queue_size (128 * 1024) 8\<rparr> \<and>
    (if b then itemCount (queue_in k' x) = 0
     else object_of (view k) (object_name lib (queue_memory_name name)) = Some x \<and> queue_in k' = queue_in k) \<and>
    (object_name lib (queue_memory_name name) \<noteq> memory_object lib sys (queue_mutex_name name) p \<longrightarrow>
      object_of (view k') (object_name lib (queue_memory_name name)) = Some x)"
proof -
  from condition_ctor_made [OF assms] obtain k1 k2 where c:
    "Darwin_SharedMemory_ctor api lib (queue_memory_name name) (128 * 1024) b k = (k1, Inr (threadQueueMemory c))"
    "threadQueueAt c = mem_address (threadQueueMemory c)" "threadQueueSize c = queue_size (128 * 1024) 8"
    "k2 = init_queue qsys b (threadQueueAt c) k1"
    "Darwin_RobustMutex_ctor api lib papi sys (queue_mutex_name name) b p k2 = (k', Inr (threadQueueMutex c))" .
  from memory_object_mapped [OF c(1)] obtain x where x:
    "object_of (view k1) (object_name lib (queue_memory_name name)) = Some x" "mapped (view k1) (threadQueueAt c) = Some x"
    "\<not> b \<longrightarrow> object_of (view k) (object_name lib (queue_memory_name name)) = Some x" by (auto simp: c(2))
  have v2: "view k2 = view k1" by (simp add: c(4) init_queue_keeps)
  have m: "mapped (view k') (threadQueueAt c) = Some x"
    using mutex_ctor_keeps_mapped [OF c(5)] x(2) v2 by simp
  have q: "queue_in k' = queue_in k2" "queue_in k1 = queue_in k"
    using mutex_ctor_queues [OF c(5)] qm.memory_ctor_rest [OF c(1)] by simp_all
  have n: "object_of (view k') i = object_of (view k2) i"
    if "i \<noteq> memory_object lib sys (queue_mutex_name name) p" for i
    by (rule mutex_ctor_names [OF c(5) that])
  have "object_name lib (queue_memory_name name) \<noteq> memory_object lib sys (queue_mutex_name name) p \<longrightarrow>
      object_of (view k') (object_name lib (queue_memory_name name)) = Some x"
    using n x(1) v2 by simp
  then show ?thesis
    using m x(3) init_queue_in [OF x(2)] qm.get [OF m] q c(3,4) by (cases b) (auto simp: queue_of_def)
qed

lemma second_owner_queue:
  assumes "Darwin_ConditionVariable_ctor api lib papi sys qsys name True p k = (k', Inr c)"
    "mapped (view k) a = Some x"
    and u: "\<And>n. object_of (view k) n \<noteq> None \<Longrightarrow> \<exists>k''. shm_unlink api n k = (k'', Inr ())"
  shows "\<exists>y. mapped (view k') (threadQueueAt c) = Some y \<and> y \<notin> ran (mapped (view k)) \<and>
    queue_in k' x = queue_in k x \<and> itemCount (queue_in k' y) = 0"
proof -
  from condition_ctor_made [OF assms(1)] obtain k1 k2 where c:
    "Darwin_SharedMemory_ctor api lib (queue_memory_name name) (128 * 1024) True k = (k1, Inr (threadQueueMemory c))"
    "threadQueueAt c = mem_address (threadQueueMemory c)" "threadQueueSize c = queue_size (128 * 1024) 8"
    "k2 = init_queue qsys True (threadQueueAt c) k1"
    "Darwin_RobustMutex_ctor api lib papi sys (queue_mutex_name name) True p k2 = (k', Inr (threadQueueMutex c))" .
  from Darwin_owner_memory_is_new [OF c(1) u] obtain y where
    y: "mapped (view k1) (threadQueueAt c) = Some y" "y \<notin> ran (mapped (view k))" by (auto simp: c(2))
  have "mapped (view k') (threadQueueAt c) = Some y"
    using mutex_ctor_keeps_mapped [OF c(5)] y(1) by (simp add: c(4) init_queue_keeps)
  moreover have "queue_in k' = queue_in k2" "queue_in k1 = queue_in k"
    using mutex_ctor_queues [OF c(5)] qm.memory_ctor_rest [OF c(1)] by simp_all
  moreover have "x \<noteq> y" using y(2) assms(2) by (auto simp: ran_def)
  ultimately show ?thesis using init_queue_in [OF y(1)] y(2) c(4) by auto
qed

lemma condition_keeps:
  assumes "Darwin_ConditionVariable_ctor api lib papi sys qsys name b p k = (k', Inr c)" "mapped (view k) a = Some x"
  shows "mapped (view k') a = Some x" "threadQueueAt c \<noteq> a"
proof -
  from condition_ctor_made [OF assms(1)] obtain k1 k2 where c:
    "Darwin_SharedMemory_ctor api lib (queue_memory_name name) (128 * 1024) b k = (k1, Inr (threadQueueMemory c))"
    "threadQueueAt c = mem_address (threadQueueMemory c)" "threadQueueSize c = queue_size (128 * 1024) 8"
    "k2 = init_queue qsys b (threadQueueAt c) k1"
    "Darwin_RobustMutex_ctor api lib papi sys (queue_mutex_name name) b p k2 = (k', Inr (threadQueueMutex c))" .
  note m = Darwin_memory_keeps_mapped [OF c(1) assms(2)]
  then show "mapped (view k') a = Some x"
    using mutex_ctor_keeps_mapped [OF c(5)] by (simp add: c(4) init_queue_keeps)
  show "threadQueueAt c \<noteq> a" using m(2) c(2) by simp
qed

end

section \<open>A system that satisfies the contract\<close>

record condition_tables = darwin_tables +
  queues :: "nat \<Rightarrow> nat queue_memory"

definition queue_put :: "nat \<Rightarrow> nat queue_memory \<Rightarrow> condition_tables \<Rightarrow> condition_tables" where
  "queue_put a q k =
     (case map_of (maps (memory_tables k)) a of None \<Rightarrow> k | Some x \<Rightarrow> k\<lparr>queues := (queues k)(x := q)\<rparr>)"

definition queue_get :: "nat \<Rightarrow> condition_tables \<Rightarrow> nat queue_memory" where
  "queue_get a k = queues k (case map_of (maps (memory_tables k)) a of None \<Rightarrow> 0 | Some x \<Rightarrow> x)"

definition queue_placement :: "(condition_tables, nat queue_memory) placement" where
  "queue_placement = \<lparr>put_object = queue_put, get_object = queue_get\<rparr>"

lemma queue_frame:
  "queues (fst (lift f k)) = queues k" "queues (table_put a m k) = queues k"
  "darwin_rest_of (queue_put a q k) = darwin_rest_of k"
  by (auto simp: lift_def table_put_def queue_put_def darwin_rest_of_def split: prod.split option.split)

lemma queue_put_get:
  "object_view (queue_put a q k) = object_view k"
  "mapped (object_view k) a = Some x \<Longrightarrow> queues (queue_put a q k) = (queues k)(x := q)"
  "mapped (object_view k) a = Some x \<Longrightarrow> queue_get a k = queues k x"
  by (auto simp: object_view_def tables_view_def queue_put_def queue_get_def split: option.splits)

interpretation dcs: darwin_condition_setup object_shm object_view
  "darwin_kernel :: (condition_tables, mutex_status) darwin_files" darwin_rest_of kernel "\<lambda>m. m"
  queue_placement queues
  by unfold_locales
    (simp_all add: object_shm_calls queue_frame queue_placement_def queue_put_get, simp_all add: darwin_kernel_def
      queue_frame darwin_fopen_def)

section \<open>Properties\<close>

text \<open>
  The constructor of the condition variable leaks neither descriptors nor mappings nor open files when
  it throws, and the destructor gives back those the constructor acquired.
\<close>

theorem Darwin_condition_leaks_nothing:
  assumes "darwin_condition_setup api view sys rest papi status qsys queue_in"
    "Darwin_ConditionVariable_ctor api lib papi sys qsys name isOwner p k = (k', r)"
  shows "case r of
      Inl e \<Rightarrow> same_resources (view k) (view k') \<and> streams (rest k') = streams (rest k)
    | Inr c \<Rightarrow> \<forall>k''. same_resources (view k') (view k'') \<and> streams (rest k'') = streams (rest k') \<longrightarrow>
        (\<exists>k3. Darwin_ConditionVariable_dtor api papi sys c k'' = Some k3 \<and>
          same_resources (view k) (view k3) \<and> streams (rest k3) = streams (rest k))"
  by (rule darwin_condition_setup.condition_leaks_nothing [OF assms])

definition no_condition :: condition_tables where
  "no_condition =
     \<lparr>memory_tables = no_tables, objects = (\<lambda>x. Not_Recoverable), open_streams = [], paths = [],
      queues = (\<lambda>x. \<lparr>readPosition = 0, writePosition = 0, itemCount = 7, items = []\<rparr>)\<rparr>"

definition new_condition :: "bool \<Rightarrow> condition_tables \<Rightarrow> condition_tables \<times> (shm_error + darwin_condition_object)" where
  "new_condition isOwner k =
     Darwin_ConditionVariable_ctor object_shm toy_names kernel darwin_kernel queue_placement ''c'' isOwner 1 k"

lemma new_condition_throws: "snd (new_condition False no_condition) = Inl ResourceMissingError"
  by code_simp

theorem Darwin_condition_leaks_nothing_witness:
  "same_resources (object_view no_condition) (object_view (fst (new_condition False no_condition)))"
proof -
  have "new_condition False no_condition = (fst (new_condition False no_condition), Inl ResourceMissingError)"
    using new_condition_throws by (metis prod.collapse)
  from Darwin_condition_leaks_nothing [OF dcs.darwin_condition_setup_axioms this [unfolded new_condition_def]]
  show ?thesis by (simp add: new_condition_def)
qed

text \<open>
  The queue is shared: after the construction by an owner and by a client the objects of both processes
  see the same queue, which is empty; and what one of them makes of it is what the other one sees.
\<close>

theorem Darwin_condition_queue_is_shared:
  assumes "darwin_condition_setup api view sys rest papi status qsys queue_in"
    "Darwin_ConditionVariable_ctor api lib papi sys qsys name True p k = (k1, Inr owner)"
    "Darwin_ConditionVariable_ctor api lib papi sys qsys name False p' k1 = (k2, Inr client)"
    "object_name lib (queue_memory_name name) \<noteq> memory_object lib sys (queue_mutex_name name) p"
  shows "threadQueueAt owner \<noteq> threadQueueAt client \<and> queue_of qsys client k2 = queue_of qsys owner k2 \<and>
    Count (queue_of qsys owner k2) = 0 \<and>
    (\<forall>q. queue_of qsys client (put_object qsys (threadQueueAt owner) q k2) =
        \<lparr>memory = q, qsize = qsize (queue_of qsys client k2)\<rparr> \<and>
      queue_of qsys owner (put_object qsys (threadQueueAt client) q k2) =
        \<lparr>memory = q, qsize = qsize (queue_of qsys owner k2)\<rparr>)"
proof -
  note l = assms(1)
  have om: "object_memory api view qsys queue_in (\<lambda>r. r)"
    using l by (simp add: darwin_condition_setup_def)
  from darwin_condition_setup.condition_queue_block [OF l assms(2)] assms(4) obtain x where x:
    "mapped (view k1) (threadQueueAt owner) = Some x" "itemCount (queue_in k1 x) = 0"
    "object_of (view k1) (object_name lib (queue_memory_name name)) = Some x" by auto
  from darwin_condition_setup.condition_queue_block [OF l assms(3)] x(3) have c:
    "mapped (view k2) (threadQueueAt client) = Some x" "queue_in k2 = queue_in k1" by auto
  note o = darwin_condition_setup.condition_keeps [OF l assms(3) x(1)]
  note sizes = darwin_condition_setup.condition_queue_block [OF l assms(2)]
    darwin_condition_setup.condition_queue_block [OF l assms(3)]
  have get: "get_object qsys a k' = queue_in k' x" if "mapped (view k') a = Some x" for a k'
    using object_memory.get [OF om that] .
  have put: "queue_in (put_object qsys a q k') x = q" "view (put_object qsys a q k') = view k'"
    if "mapped (view k') a = Some x" for a q k'
    using object_memory.put_contents [OF om that] object_memory.put_view [OF om] by simp_all
  have s: "threadQueueSize client = threadQueueSize owner" using sizes by (auto simp: queue_of_def)
  show ?thesis
    using o c x(2) s by (simp add: queue_of_def get put Count_def)
qed

text \<open>The construction by an owner, and then by a client and by a second owner, in the same system.\<close>

lemmas memory_run = Darwin_SharedMemory_ctor_def Darwin_CreateSharedMemory_def Darwin_open_def Darwin_AllocateSharedMemory_def
  base64_encode_def sha1_hash_def toy_names_def object_shm_def lift_def tables_def tables_open_def tables_mmap_def unused_def
  Disposer_Set_def Disposer_default_def Let_def

lemmas mutex_run = Darwin_RobustMutex_ctor_def CreateLocalMutex_def InitLocalMutex_def OpenFile_def local_memory_name_def
  lock_path_def kernel_def darwin_kernel_def darwin_fopen_def table_put_def

lemmas condition_run = Darwin_ConditionVariable_ctor_def queue_memory_name_def queue_mutex_name_def init_queue_def
  queue_placement_def queue_put_def queue_get_def Darwin_thread_queue_def Queue_ctor_def

definition owned :: condition_tables where
  "owned =
     \<lparr>memory_tables =
        \<lparr>names = [(''/c_threadqueu__mutexMemory1__mutexMemory1'', 9), (''/c_threadqueue'', 1)],
         files = [(9, 9), (1, 1)], maps = [(36, 9), (4, 1)]\<rparr>,
      objects = (\<lambda>x. Not_Recoverable)(9 := Unlocked), open_streams = [1], paths = [''/tmp/mutex_c_threadqueu_mutex.lock''],
      queues = (\<lambda>x. \<lparr>readPosition = 0, writePosition = 0, itemCount = 7, items = []\<rparr>)
        (1 := \<lparr>readPosition = 0, writePosition = 0, itemCount = 0, items = []\<rparr>)\<rparr>"

lemma condition_owner_run:
  "\<exists>c. new_condition True no_condition = (owned, Inr c) \<and> threadQueueAt c = 4"
  by (simp add: new_condition_def memory_run mutex_run condition_run owned_def no_condition_def no_tables_def)
    (simp add: numeral_eq_Suc)

definition client_mid :: condition_tables where
  "client_mid = owned\<lparr>memory_tables := (memory_tables owned)
     \<lparr>files := (81, 1) # files (memory_tables owned), maps := (163, 1) # maps (memory_tables owned)\<rparr>\<rparr>"

definition second_mid :: condition_tables where
  "second_mid = owned\<lparr>memory_tables :=
     \<lparr>names = [(''/c_threadqueue'', 80), (''/c_threadqueu__mutexMemory1__mutexMemory1'', 9)],
      files = (80, 80) # files (memory_tables owned), maps = (320, 80) # maps (memory_tables owned)\<rparr>\<rparr>"

abbreviation "mem_ctor b k \<equiv> Darwin_SharedMemory_ctor object_shm toy_names (queue_memory_name ''c'') (128 * 1024) b k"
abbreviation "mutex_ctor b k \<equiv> Darwin_RobustMutex_ctor object_shm toy_names kernel darwin_kernel (queue_mutex_name ''c'') b 1 k"

lemma client_memory_run: "\<exists>mem. mem_ctor False owned = (client_mid, Inr mem) \<and> mem_address mem = 163"
  by (simp add: memory_run queue_memory_name_def owned_def client_mid_def)

lemma second_memory_run: "\<exists>mem. mem_ctor True owned = (second_mid, Inr mem) \<and> mem_address mem = 320"
  by (simp add: memory_run queue_memory_name_def owned_def second_mid_def AList.delete_eq)

lemma client_mutex_run:
  "\<not> isl (snd (mutex_ctor False client_mid))"
  by (simp add: memory_run mutex_run client_mid_def owned_def queue_mutex_name_def)

lemma second_mutex_run:
  "\<not> isl (snd (mutex_ctor True (init_queue queue_placement True 320 second_mid)))"
  by (simp add: memory_run mutex_run second_mid_def owned_def queue_mutex_name_def init_queue_def queue_placement_def
      queue_put_def AList.delete_eq)
lemma new_condition_made:
  assumes "\<exists>mem. mem_ctor b k = (k1, Inr mem) \<and> mem_address mem = a"
    "\<not> isl (snd (mutex_ctor b (init_queue queue_placement b a k1)))"
  shows "\<exists>c. new_condition b k = (fst (new_condition b k), Inr c)"
  using assms by (auto simp: new_condition_def Darwin_ConditionVariable_ctor_def split: prod.split sum.split)

lemma condition_client_run: "\<exists>c. new_condition False owned = (fst (new_condition False owned), Inr c)"
  by (rule new_condition_made [OF client_memory_run]) (use client_mutex_run in \<open>simp add: init_queue_def\<close>)

lemma condition_second_run: "\<exists>c. new_condition True owned = (fst (new_condition True owned), Inr c)"
  by (rule new_condition_made [OF second_memory_run second_mutex_run])

lemma names_differ:
  "object_name toy_names (queue_memory_name ''c'') \<noteq>
     memory_object toy_names (darwin_kernel :: (condition_tables, mutex_status) darwin_files) (queue_mutex_name ''c'') 1"
  by code_simp

theorem Darwin_condition_queue_is_shared_witness:
  "\<exists>k2 owner client. Count (queue_of queue_placement owner k2) = 0 \<and>
     queue_of queue_placement client k2 = queue_of queue_placement owner k2"
proof -
  obtain owner where o: "new_condition True no_condition = (owned, Inr owner)" using condition_owner_run by blast
  obtain client where "new_condition False owned = (fst (new_condition False owned), Inr client)" using condition_client_run by blast
  from Darwin_condition_queue_is_shared [OF dcs.darwin_condition_setup_axioms o [unfolded new_condition_def]
      this [unfolded new_condition_def] names_differ]
  show ?thesis by blast
qed

text \<open>
  A second owner of the name cuts off the objects that there are: its queue is a new one, which is empty,
  so that its notifications wake nobody, whoever sleeps in the queue of the first object; and that queue
  stays as it is.
\<close>

theorem Darwin_second_owner_forgets_sleepers:
  assumes "darwin_condition_setup api view sys rest papi status qsys queue_in"
    "Darwin_ConditionVariable_ctor api lib papi sys qsys name True p k = (k', Inr second)"
    "mapped (view k) (threadQueueAt first) = Some x"
    and u: "\<And>n. object_of (view k) n \<noteq> None \<Longrightarrow> \<exists>k''. shm_unlink api n k = (k'', Inr ())"
  shows "queue_of qsys first k' = queue_of qsys first k \<and>
    mapped (view k') (threadQueueAt second) \<noteq> mapped (view k') (threadQueueAt first) \<and>
    (\<forall>host d. thread_queue d = queue_of qsys second k' \<longrightarrow> Darwin_Condition_NotifyAll host d = (d, Inr ()))"
proof -
  note l = assms(1)
  have om: "object_memory api view qsys queue_in (\<lambda>r. r)" and pm: "posix_shared_memory api view"
    using l by (simp_all add: darwin_condition_setup_def object_memory_def)
  obtain y where y: "mapped (view k') (threadQueueAt second) = Some y" "y \<notin> ran (mapped (view k))"
    "queue_in k' x = queue_in k x" "itemCount (queue_in k' y) = 0"
    using darwin_condition_setup.second_owner_queue [OF assms(1-3) u] by blast
  have first: "mapped (view k') (threadQueueAt first) = Some x"
    by (rule darwin_condition_setup.condition_keeps [OF l assms(2,3)])
  have "Count (queue_of qsys second k') = 0" "queue_of qsys first k' = queue_of qsys first k"
    using object_memory.get [OF om] y first assms(3) by (simp_all add: queue_of_def Count_def)
  then show ?thesis
    using y(1,2) first assms(3) by (auto simp: Darwin_Condition_NotifyAll.simps ran_def)
qed

theorem Darwin_second_owner_forgets_sleepers_witness:
  "\<exists>k c. new_condition True owned = (k, Inr c) \<and> mapped (object_view k) (threadQueueAt c) \<noteq> Some 1"
proof -
  obtain first where f: "new_condition True no_condition = (owned, Inr first)" "threadQueueAt first = 4"
    using condition_owner_run by blast
  obtain second where s: "new_condition True owned = (fst (new_condition True owned), Inr second)" using condition_second_run by blast
  have m: "mapped (object_view owned) (threadQueueAt first) = Some 1"
    by (simp add: f(2) owned_def object_view_def tables_view_def)
  have u: "\<exists>k''. shm_unlink object_shm n owned = (k'', Inr ())" if "object_of (object_view owned) n \<noteq> None" for n
    using that by (auto simp: object_view_def tables_view_def object_shm_def lift_def tables_def split: option.split)
  note t = Darwin_second_owner_forgets_sleepers
    [OF dcs.darwin_condition_setup_axioms s [unfolded new_condition_def] m u]
  have "mapped (object_view (fst (new_condition True owned))) (threadQueueAt first) = Some 1"
    using dcs.condition_keeps(1) [OF s [unfolded new_condition_def] m] by (simp add: new_condition_def)
  then show ?thesis using t s by (metis new_condition_def)
qed

end
