(* ===== verification/Win32_Condition_Setup.thy ===== *)
theory Win32_Condition_Setup
  imports Win32_Condition Win32_Shared_Memory Shared_Object
begin

text \<open>
  The construction and the destruction of the condition variable on Windows
  (\<open>src/ipc/win32/ConditionVariable.cpp\<close>): the queue of the waiting threads lies in a named file mapping,
  which all objects of the name share, and an owner empties it.
\<close>

section \<open>The class ConditionVariable\<close>

record 'w win32_condition_object =
  queueMemory :: win32_shared_memory
  queueAddress :: nat
  queueCapacity :: u32
  queueMutex :: "'w win32_state"
  objectTitle :: string

definition thread_queue_name :: "string \<Rightarrow> string" where
  "thread_queue_name name = name @ ''_thread_queue''"

definition cond_mutex_name :: "string \<Rightarrow> string" where
  "cond_mutex_name name = name @ ''_cond_mutex''"

text \<open>The effect of the constructor of the queue on the memory.\<close>

definition reset_queue :: "('k, nat queue_memory) placement \<Rightarrow> bool \<Rightarrow> nat \<Rightarrow> 'k \<Rightarrow> 'k" where
  "reset_queue qsys b a k =
     (if b then put_object qsys a (memory (Win32_thread_queue (get_object qsys a k) True)) k else k)"

text \<open>An exception of the constructor of the mutex destroys the memory.\<close>

definition Win32_ConditionVariable_ctor ::
  "'k win32_memory \<Rightarrow> 'w win32 \<Rightarrow> ('k, nat queue_memory) placement \<Rightarrow> string \<Rightarrow> bool \<Rightarrow> nat \<Rightarrow> 'k \<Rightarrow>
     'k \<times> (cpp_error + 'w win32_condition_object)"
where
  "Win32_ConditionVariable_ctor api wapi qsys name isOwner p k =
     (case Win32_SharedMemory_ctor api (thread_queue_name name) (ucast threadQueueSTORAGE_SIZE) isOwner k of
        (k, Inl e) \<Rightarrow> (k, Inl e)
      | (k, Inr mem) \<Rightarrow>
          (let k = reset_queue qsys isOwner (win32_address mem) k
           in case Win32_RobustMutex_ctor wapi (cond_mutex_name name) p (\<lambda>p. None) of
                Inl e \<Rightarrow> (Win32_SharedMemory_dtor api mem k, Inl e)
              | Inr m \<Rightarrow>
                  (k, Inr \<lparr>queueMemory = mem, queueAddress = win32_address mem,
                           queueCapacity = queue_size threadQueueSTORAGE_SIZE 4, queueMutex = m,
                           objectTitle = name\<rparr>)))"

text \<open>The destructor, of the mutex and of the memory.\<close>

definition Win32_ConditionVariable_dtor ::
  "'k win32_memory \<Rightarrow> 'w win32 \<Rightarrow> 'w win32_condition_object \<Rightarrow> 'k \<Rightarrow> 'k \<times> 'w"
where
  "Win32_ConditionVariable_dtor api wapi c k =
     (Win32_SharedMemory_dtor api (queueMemory c) k, CloseHandle wapi (mutex_handle (queueMutex c)))"

text \<open>The queue that the methods of an object work on, as it is in a state of the system.\<close>

definition win32_queue_of :: "('k, nat queue_memory) placement \<Rightarrow> 'w win32_condition_object \<Rightarrow> 'k \<Rightarrow> nat queue" where
  "win32_queue_of qsys c k = \<lparr>memory = get_object qsys (queueAddress c) k, qsize = queueCapacity c\<rparr>"

section \<open>The contract of the file mappings\<close>

text \<open>The section each name stands for, the one behind each open handle, the one each view shows.\<close>

record section_view =
  named :: "string \<Rightarrow> nat option"
  section_of :: "nat \<Rightarrow> nat option"
  shown :: "nat \<Rightarrow> nat option"

text \<open>
  \<open>CreateFileMappingA\<close> with the name of a section that exists opens that section. The functions leave
  the contents of the sections alone, and \<open>qsys\<close> reads and writes them through the views.
\<close>

locale win32_sections =
  win32_mappings api "\<lambda>k. dom (section_of (view k))" "\<lambda>k. dom (shown (view k))"
  for api :: "'k win32_memory" and view :: "'k \<Rightarrow> section_view" +
  fixes qsys :: "('k, nat queue_memory) placement" and queue_in :: "'k \<Rightarrow> nat \<Rightarrow> nat queue_memory"
  assumes create_fails: "CreateFileMappingA api hi lo n k = (k', None) \<Longrightarrow> view k' = view k"
    and create_old: "CreateFileMappingA api hi lo n k = (k', Some h) \<Longrightarrow> named (view k) n = Some x \<Longrightarrow>
      view k' = (view k)\<lparr>section_of := (section_of (view k))(h \<mapsto> x)\<rparr>"
    and create_new: "CreateFileMappingA api hi lo n k = (k', Some h) \<Longrightarrow> named (view k) n = None \<Longrightarrow>
      \<exists>x. x \<notin> ran (shown (view k)) \<and>
        view k' = (view k)\<lparr>named := (named (view k))(n \<mapsto> x), section_of := (section_of (view k))(h \<mapsto> x)\<rparr>"
    and open_fails: "OpenFileMappingA api n k = (k', None) \<Longrightarrow> view k' = view k"
    and open_old: "OpenFileMappingA api n k = (k', Some h) \<Longrightarrow>
      \<exists>x. named (view k) n = Some x \<and> view k' = (view k)\<lparr>section_of := (section_of (view k))(h \<mapsto> x)\<rparr>"
    and map_fails: "MapViewOfFile api h sz k = (k', None) \<Longrightarrow> view k' = view k"
    and map_done: "MapViewOfFile api h sz k = (k', Some a) \<Longrightarrow>
      \<exists>x. section_of (view k) h = Some x \<and> view k' = (view k)\<lparr>shown := (shown (view k))(a \<mapsto> x)\<rparr>"
    and queues_kept: "queue_in (fst (CreateFileMappingA api hi lo n k)) = queue_in k"
      "queue_in (fst (OpenFileMappingA api n k)) = queue_in k" "queue_in (fst (MapViewOfFile api h sz k)) = queue_in k"
      "queue_in (CloseMapping api h k) = queue_in k"
    and put_view: "view (put_object qsys a q k) = view k"
    and put_queue: "shown (view k) a = Some x \<Longrightarrow> queue_in (put_object qsys a q k) = (queue_in k)(x := q)"
    and get_queue: "shown (view k) a = Some x \<Longrightarrow> get_object qsys a k = queue_in k x"
begin

text \<open>The memory shows the section of its name: the one that there is, or, for an owner, a new one.\<close>

lemma memory_shows:
  assumes "Win32_SharedMemory_ctor api n sz b k = (k', Inr mem)"
  shows "\<exists>x. named (view k') n = Some x \<and> shown (view k') = (shown (view k))(win32_address mem \<mapsto> x) \<and>
    win32_address mem \<notin> dom (shown (view k)) \<and> queue_in k' = queue_in k \<and>
    (case named (view k) n of Some y \<Rightarrow> x = y | None \<Rightarrow> b \<and> x \<notin> ran (shown (view k)))"
proof -
  obtain k1 r1 where o: "obtain_mapping api n sz b k = (k1, r1)" by fastforce
  note defs = Win32_SharedMemory_ctor_def Win32_CreateSharedMemory_def obtain_mapping_def [symmetric]
  obtain h where h: "r1 = Some h" using assms o by (cases r1) (auto simp: defs)
  obtain k2 r2 where m: "MapViewOfFile api h sz k1 = (k2, r2)" by fastforce
  obtain a where a: "r2 = Some a" "k2 = k'" "win32_address mem = a"
    using assms o h m by (cases r2) (auto simp: defs)
  note o' = o [unfolded obtain_mapping_def h]
  have s: "\<exists>x. named (view k1) n = Some x \<and> section_of (view k1) h = Some x \<and> shown (view k1) = shown (view k) \<and>
      (case named (view k) n of Some y \<Rightarrow> x = y | None \<Rightarrow> b \<and> x \<notin> ran (shown (view k)))"
  proof (cases b)
    case True
    then have c: "CreateFileMappingA api (size_high sz) (size_low sz) n k = (k1, Some h)" using o' by simp
    show ?thesis
    proof (cases "named (view k) n")
      case None
      then show ?thesis using create_new [OF c] True by auto
    next
      case (Some y)
      then show ?thesis using create_old [OF c Some] by simp
    qed
  next
    case False
    then have "OpenFileMappingA api n k = (k1, Some h)" using o' by simp
    from open_old [OF this] show ?thesis by auto
  qed
  have q: "queue_in k1 = queue_in k" "queue_in k2 = queue_in k1"
    using queues_kept(1) [of "size_high sz" "size_low sz" n k] queues_kept(2) [of n k] queues_kept(3) [of h sz k1] o' m
    by (auto split: if_splits)
  show ?thesis
    using s q map_done [of h sz k1 k' a] map_view [of h sz k1 k' "Some a"] m a by auto
qed

lemma condition_made:
  assumes "Win32_ConditionVariable_ctor api wapi qsys name b p k = (k', Inr c)"
  shows "\<exists>k1. Win32_SharedMemory_ctor api (thread_queue_name name) (ucast threadQueueSTORAGE_SIZE) b k = (k1, Inr (queueMemory c)) \<and>
    k' = reset_queue qsys b (queueAddress c) k1 \<and> queueAddress c = win32_address (queueMemory c) \<and>
    queueCapacity c = queue_size threadQueueSTORAGE_SIZE 4"
  using assms by (auto simp: Win32_ConditionVariable_ctor_def Let_def split: prod.splits sum.splits)

lemma reset_queue_keeps: "view (reset_queue qsys b a k) = view k"
  by (simp add: reset_queue_def put_view)

lemma reset_queue_in:
  assumes "shown (view k) a = Some x"
  shows "queue_in (reset_queue qsys b a k) = (if b then (queue_in k)(x := (queue_in k x)
    \<lparr>readPosition := 0, writePosition := 0, itemCount := 0\<rparr>) else queue_in k)"
  using put_queue [OF assms] get_queue [OF assms]
  by (simp add: reset_queue_def Win32_thread_queue_def Queue_ctor_def)

lemma condition_shows:
  assumes "Win32_ConditionVariable_ctor api wapi qsys name b p k = (k', Inr c)"
  shows "\<exists>x. named (view k') (thread_queue_name name) = Some x \<and> shown (view k') = (shown (view k))(queueAddress c \<mapsto> x) \<and>
    queueAddress c \<notin> dom (shown (view k)) \<and>
    (case named (view k) (thread_queue_name name) of Some y \<Rightarrow> x = y | None \<Rightarrow> b \<and> x \<notin> ran (shown (view k))) \<and>
    queue_in k' = (if b then (queue_in k)(x := (queue_in k x)\<lparr>readPosition := 0, writePosition := 0, itemCount := 0\<rparr>)
      else queue_in k)"
proof -
  from condition_made [OF assms] obtain k1 where m:
    "Win32_SharedMemory_ctor api (thread_queue_name name) (ucast threadQueueSTORAGE_SIZE) b k = (k1, Inr (queueMemory c))"
    "k' = reset_queue qsys b (queueAddress c) k1" "queueAddress c = win32_address (queueMemory c)" by auto
  from memory_shows [OF m(1)] obtain x where x: "named (view k1) (thread_queue_name name) = Some x"
    "shown (view k1) = (shown (view k))(queueAddress c \<mapsto> x)" "queueAddress c \<notin> dom (shown (view k))"
    "queue_in k1 = queue_in k"
    "case named (view k) (thread_queue_name name) of Some y \<Rightarrow> x = y | None \<Rightarrow> b \<and> x \<notin> ran (shown (view k))"
    by (auto simp: m(3))
  have "shown (view k1) (queueAddress c) = Some x" using x(2) by simp
  from reset_queue_in [OF this, of b] show ?thesis using x by (simp add: m(2) reset_queue_keeps)
qed

end

section \<open>A system that satisfies the contract\<close>

record section_tables =
  section_names :: "(string \<times> nat) list"
  open_handles :: "(nat \<times> nat) list"
  open_views :: "(nat \<times> nat) list"
  section_queues :: "nat \<Rightarrow> nat queue_memory"

definition new_number :: "section_tables \<Rightarrow> nat" where
  "new_number k = Suc (sum_list (map snd (section_names k)) + sum_list (map fst (open_handles k)) +
     sum_list (map fst (open_views k)) + sum_list (map snd (open_views k)))"

definition section_view_of :: "section_tables \<Rightarrow> section_view" where
  "section_view_of k =
     \<lparr>named = map_of (section_names k), section_of = map_of (open_handles k), shown = map_of (open_views k)\<rparr>"

definition section_kernel :: "section_tables win32_memory" where
  "section_kernel =
     \<lparr>CreateFileMappingA = (\<lambda>hi lo n k.
        case map_of (section_names k) n of
          Some x \<Rightarrow> (k\<lparr>open_handles := (new_number k, x) # open_handles k\<rparr>, Some (new_number k))
        | None \<Rightarrow> (k\<lparr>section_names := (n, new_number k) # section_names k,
                     open_handles := (new_number k, new_number k) # open_handles k\<rparr>, Some (new_number k))),
      OpenFileMappingA = (\<lambda>n k.
        case map_of (section_names k) n of
          Some x \<Rightarrow> (k\<lparr>open_handles := (new_number k, x) # open_handles k\<rparr>, Some (new_number k))
        | None \<Rightarrow> (k, None)),
      MapViewOfFile = (\<lambda>h sz k.
        case map_of (open_handles k) h of
          Some x \<Rightarrow> (k\<lparr>open_views := (new_number k, x) # open_views k\<rparr>, Some (new_number k))
        | None \<Rightarrow> (k, None)),
      CloseMapping = (\<lambda>h k. k\<lparr>open_handles := AList.delete h (open_handles k)\<rparr>), LastError = (\<lambda>k. 0)\<rparr>"

definition section_placement :: "(section_tables, nat queue_memory) placement" where
  "section_placement =
     \<lparr>put_object = (\<lambda>a q k.
        case map_of (open_views k) a of None \<Rightarrow> k | Some x \<Rightarrow> k\<lparr>section_queues := (section_queues k)(x := q)\<rparr>),
      get_object = (\<lambda>a k. section_queues k (case map_of (open_views k) a of None \<Rightarrow> 0 | Some x \<Rightarrow> x))\<rparr>"

lemma new_number_above:
  "x \<in> snd ` set (section_names k) \<union> fst ` set (open_handles k) \<union> fst ` set (open_views k) \<union> snd ` set (open_views k) \<Longrightarrow>
     x < new_number k"
  by (elim UnE; drule member_le_sum_map; simp add: new_number_def)

lemma new_number_fresh:
  "map_of (open_handles k) (new_number k) = None" "map_of (open_views k) (new_number k) = None"
  "new_number k \<notin> ran (map_of (open_views k))"
proof -
  have "new_number k \<notin> snd ` set (section_names k) \<union> fst ` set (open_handles k) \<union> fst ` set (open_views k) \<union>
      snd ` set (open_views k)" using new_number_above [of "new_number k" k] by blast
  then show "map_of (open_handles k) (new_number k) = None" "map_of (open_views k) (new_number k) = None"
    "new_number k \<notin> ran (map_of (open_views k))"
    by (auto simp: map_of_eq_None_iff ran_def dest: map_of_SomeD intro: rev_image_eqI)
qed

interpretation wmap: win32_mappings section_kernel "\<lambda>k. dom (section_of (section_view_of k))"
  "\<lambda>k. dom (shown (section_view_of k))"
  by unfold_locales
    (auto simp: section_kernel_def section_view_of_def new_number_fresh delete_conv domIff split: option.splits if_splits)

interpretation wsec: win32_sections section_kernel section_view_of section_placement section_queues
  by unfold_locales
    (auto simp: section_kernel_def section_placement_def section_view_of_def new_number_fresh
      split: option.splits if_splits intro!: exI [of _ "new_number _"])

section \<open>Properties\<close>

text \<open>
  C35. A second owner of the name, here or in another process, empties the queue of the first: both objects
  use one section, and after the construction neither of them wakes anybody, whoever sleeps.
\<close>

theorem Win32_second_owner_forgets_sleepers:
  assumes "win32_sections api view qsys queue_in"
    "Win32_ConditionVariable_ctor api wapi qsys name True p k = (k', Inr second)"
    "named (view k) (thread_queue_name name) = Some x" "shown (view k) (queueAddress first) = Some x"
  shows "shown (view k') (queueAddress second) = shown (view k') (queueAddress first) \<and>
    (\<forall>host t d. threadQueue d \<in> {win32_queue_of qsys first k', win32_queue_of qsys second k'} \<longrightarrow>
      Win32_Condition_NotifyAll host t d = (d, Inr ()))"
proof -
  from win32_sections.condition_shows [OF assms(1,2)] assms(3) have s:
    "shown (view k') = (shown (view k))(queueAddress second \<mapsto> x)" "queueAddress second \<notin> dom (shown (view k))"
    "itemCount (queue_in k' x) = 0" by auto
  then have v: "shown (view k') (queueAddress second) = Some x" "shown (view k') (queueAddress first) = Some x"
    using assms(4) by (auto simp: dom_def)
  note win32_sections.get_queue [OF assms(1) v(1)] win32_sections.get_queue [OF assms(1) v(2)]
  then have "Count (win32_queue_of qsys second k') = 0" "Count (win32_queue_of qsys first k') = 0"
    using s(3) by (simp_all add: win32_queue_of_def Count_def)
  then show ?thesis using v by (auto simp: Win32_Condition_NotifyAll.simps)
qed

text \<open>An owner in a process, and a thread that sleeps in its queue.\<close>

definition sleeping_owner :: section_tables where
  "sleeping_owner =
     \<lparr>section_names = [(''c_thread_queue'', 1)], open_handles = [(1, 1)], open_views = [(3, 1)],
      section_queues = (\<lambda>x. \<lparr>readPosition = 0, writePosition = 1, itemCount = 1, items = [5, 0]\<rparr>)\<rparr>"

definition owner_object :: "mutex_object win32_condition_object" where
  "owner_object =
     \<lparr>queueMemory = \<lparr>handle_disposer = \<lparr>func = Some 1\<rparr>, win32_address = 3, win32_size = 131072\<rparr>, queueAddress = 3,
      queueCapacity = 32765, queueMutex = \<lparr>mutex_handle = Signaled, currentLockingThread = (\<lambda>p. None)\<rparr>,
      objectTitle = ''c''\<rparr>"

definition win32_new_condition ::
  "section_tables \<Rightarrow> section_tables \<times> (cpp_error + mutex_object win32_condition_object)"
where
  "win32_new_condition k = Win32_ConditionVariable_ctor section_kernel windows section_placement ''c'' True 2 k"

lemma win32_second_run: "\<exists>c. win32_new_condition sleeping_owner = (fst (win32_new_condition sleeping_owner), Inr c)"
  by (simp add: win32_new_condition_def Win32_ConditionVariable_ctor_def Win32_SharedMemory_ctor_def
      Win32_CreateSharedMemory_def section_kernel_def sleeping_owner_def thread_queue_name_def Win32_RobustMutex_ctor_def
      windows_def)

theorem Win32_second_owner_forgets_sleepers_witness:
  "\<exists>c. shown (section_view_of (fst (win32_new_condition sleeping_owner))) (queueAddress (c :: mutex_object win32_condition_object)) =
     shown (section_view_of (fst (win32_new_condition sleeping_owner))) 3"
proof -
  obtain c where "win32_new_condition sleeping_owner = (fst (win32_new_condition sleeping_owner), Inr c)"
    using win32_second_run by blast
  from Win32_second_owner_forgets_sleepers
    [OF wsec.win32_sections_axioms this [unfolded win32_new_condition_def], of 1 owner_object] show ?thesis
    by (auto simp: section_view_of_def sleeping_owner_def owner_object_def thread_queue_name_def win32_new_condition_def)
qed

text \<open>
  What the objects leave behind: the handles are closed, also when the constructor throws, but the view
  of the queue stays in the process, after the destructor and after an exception of the constructor of
  the mutex.
\<close>

theorem Win32_condition_leaks_its_view:
  assumes "win32_mappings api handles views"
    "Win32_ConditionVariable_ctor api wapi qsys name isOwner p k = (k', r)"
    and put: "\<And>a q k. handles (put_object qsys a q k) = handles k \<and> views (put_object qsys a q k) = views k"
  shows "case r of
      Inl e \<Rightarrow> handles k' = handles k \<and> (views k' = views k \<or>
        CreateMutexA wapi (cond_mutex_name name) = None \<and> (\<exists>a. a \<notin> views k \<and> views k' = insert a (views k)))
    | Inr c \<Rightarrow> handles (fst (Win32_ConditionVariable_dtor api wapi c k')) = handles k \<and>
        queueAddress c \<notin> views k \<and>
        views (fst (Win32_ConditionVariable_dtor api wapi c k')) = insert (queueAddress c) (views k)"
proof -
  obtain k1 r1 where m: "Win32_SharedMemory_ctor api (thread_queue_name name) (ucast threadQueueSTORAGE_SIZE) isOwner k = (k1, r1)"
    by fastforce
  note m1 = Win32_memory_then_dtor [OF assms(1) m]
  show ?thesis
  proof (cases r1)
    case (Inl e)
    then show ?thesis using assms(2) m m1 by (auto simp: Win32_ConditionVariable_ctor_def)
  next
    case (Inr mem)
    let ?k = "reset_queue qsys isOwner (win32_address mem) k1"
    have same: "handles ?k = handles k1" "views ?k = views k1" using put by (simp_all add: reset_queue_def)
    have d: "handles (Win32_SharedMemory_dtor api mem ?k) = handles k"
      "views (Win32_SharedMemory_dtor api mem ?k) = insert (win32_address mem) (views k)" "win32_address mem \<notin> views k"
      using m1 Inr same by auto
    show ?thesis
      using assms(2) m Inr d
      by (auto simp: Win32_ConditionVariable_ctor_def Win32_ConditionVariable_dtor_def Win32_RobustMutex_ctor_def
          split: sum.splits option.splits)
  qed
qed

definition no_mutexes :: "mutex_object win32" where
  "no_mutexes = windows\<lparr>CreateMutexA := (\<lambda>name. None)\<rparr>"

definition no_sections :: section_tables where
  "no_sections =
     \<lparr>section_names = [], open_handles = [], open_views = [],
      section_queues = (\<lambda>x. \<lparr>readPosition = 0, writePosition = 0, itemCount = 0, items = []\<rparr>)\<rparr>"

theorem Win32_condition_leaks_its_view_witness:
  "open_handles (fst (Win32_ConditionVariable_ctor section_kernel no_mutexes section_placement ''c'' True 2 no_sections)) = [] \<and>
   open_views (fst (Win32_ConditionVariable_ctor section_kernel no_mutexes section_placement ''c'' True 2 no_sections)) \<noteq> []"
proof -
  let ?c = "Win32_ConditionVariable_ctor section_kernel no_mutexes section_placement ''c'' True 2 no_sections"
  let ?e = "runtime_error_code ''CreateMutexA failed, error: '' (Code (Errno 0))"
  have run: "snd ?c = Inl ?e" "open_views (fst ?c) \<noteq> []"
    by (simp_all add: Win32_ConditionVariable_ctor_def Win32_SharedMemory_ctor_def Win32_CreateSharedMemory_def
        section_kernel_def no_sections_def Win32_RobustMutex_ctor_def no_mutexes_def windows_def Win32_SharedMemory_dtor_def
        Disposer_dtor_def Disposer_Set_def Disposer_default_def reset_queue_def section_placement_def)
  then have c: "?c = (fst ?c, Inl ?e)" by (metis prod.collapse)
  have put: "dom (section_of (section_view_of (put_object section_placement a q k))) = dom (section_of (section_view_of k)) \<and>
      dom (shown (section_view_of (put_object section_placement a q k))) = dom (shown (section_view_of k))" for a q k
    by (simp add: wsec.put_view)
  have "dom (section_of (section_view_of (fst ?c))) = {}"
    using Win32_condition_leaks_its_view [OF wmap.win32_mappings_axioms c put]
    by (simp add: section_view_of_def no_sections_def)
  then show ?thesis using run(2) by (simp add: section_view_of_def dom_map_of_conv_image_fst)
qed

end
