(* ===== verification/Future_Types.thy ===== *)
theory Future_Types
  imports Future_System
begin

text \<open>
  The shared states of futures are well formed in every run: the members \<open>_value\<close> and \<open>_error\<close> agree with
  \<open>_state\<close>, and a state of \<open>FutureState<void>\<close> never holds a value.
\<close>

section \<open>Well-formed states\<close>

definition cell_ok :: "('v, 'e) future_state \<Rightarrow> bool" where
  "cell_ok fs \<longleftrightarrow> (is_void fs \<longrightarrow> stored fs = None) \<and>
     (case state fs of
        Undefined \<Rightarrow> stored fs = None \<and> error fs = None
      | Ready \<Rightarrow> error fs = None
      | Exception \<Rightarrow> error fs \<noteq> None
      | BrokenPromise \<Rightarrow> stored fs = None \<and> error fs = None)"

definition cells_ok :: "('v, 'e) store \<Rightarrow> bool" where
  "cells_ok h \<longleftrightarrow> list_all cell_ok (states h)"

text \<open>The types of the states that are there do not change, and no state goes away.\<close>

definition same_types :: "('v, 'e) store \<Rightarrow> ('v, 'e) store \<Rightarrow> bool" where
  "same_types h h' \<longleftrightarrow> length (states h) \<le> length (states h') \<and>
     (\<forall>s < length (states h). is_void (states h' ! s) = is_void (states h ! s))"

text \<open>What every operation keeps.\<close>

definition keeps_cells :: "('v, 'e) store \<Rightarrow> ('v, 'e) store \<Rightarrow> bool" where
  "keeps_cells h h' \<longleftrightarrow> (cells_ok h \<longrightarrow> cells_ok h') \<and> same_types h h'"

named_theorems cells

lemma keeps_cells_refl [cells]: "states h' = states h \<Longrightarrow> keeps_cells h h'"
  by (simp add: keeps_cells_def cells_ok_def same_types_def)

lemma keeps_cells_trans: "keeps_cells h1 h2 \<Longrightarrow> keeps_cells h2 h3 \<Longrightarrow> keeps_cells h1 h3"
  by (auto simp: keeps_cells_def same_types_def)

lemma keeps_upd_state:
  assumes "s < length (states h) \<Longrightarrow> cell_ok (states h ! s) \<Longrightarrow> cell_ok (f (states h ! s))"
    "s < length (states h) \<Longrightarrow> is_void (f (states h ! s)) = is_void (states h ! s)"
    "states h' = states (upd_state s f h)"
  shows "keeps_cells h h'"
  using assms
  by (cases "s < length (states h)")
    (auto simp: keeps_cells_def cells_ok_def same_types_def upd_state_def nth_list_update list_all_length)

lemma keeps_new [cells]: "states h' = states h @ [FutureState_new v] \<Longrightarrow> keeps_cells h h'"
  by (auto simp: keeps_cells_def cells_ok_def same_types_def nth_append FutureState_new_def cell_ok_def)

section \<open>Every operation keeps them\<close>

lemma keeps_SetValue:
  assumes "SetValue h s v = Inr (h', cs)" "\<not> is_void (states h ! s)"
  shows "keeps_cells h h'"
  using assms
  by (intro keeps_upd_state [of s h "\<lambda>fs. fs\<lparr>stored := v, state := Ready\<rparr>"])
    (auto simp: SetValue_def cell_ok_def split: if_splits State.splits)

lemma keeps_SetValue_void [cells]: "SetValue_void h s = (h', cs) \<Longrightarrow> keeps_cells h h'"
proof (cases "state (states h ! s) = Undefined")
  case True
  assume "SetValue_void h s = (h', cs)"
  then show ?thesis
    using True
    by (intro keeps_upd_state [of s h "\<lambda>fs. fs\<lparr>state := Ready\<rparr>"]) (auto simp: SetValue_void_def cell_ok_def)
qed (auto simp: SetValue_void_def intro: keeps_cells_refl)

lemma keeps_SetException [cells]: "SetException h s e = (h', cs) \<Longrightarrow> keeps_cells h h'"
  by (intro keeps_upd_state [of s h "\<lambda>fs. fs\<lparr>error := Some e, state := Exception\<rparr>"])
    (auto simp: SetException_def cell_ok_def split: State.splits)

lemma keeps_AboutToDestroyPromise [cells]: "AboutToDestroyPromise h s = (h', cs) \<Longrightarrow> keeps_cells h h'"
proof (cases "state (states h ! s) = Undefined")
  case True
  assume "AboutToDestroyPromise h s = (h', cs)"
  then show ?thesis
    using True
    by (intro keeps_upd_state [of s h "\<lambda>fs. fs\<lparr>state := BrokenPromise\<rparr>"])
      (auto simp: AboutToDestroyPromise_def cell_ok_def)
qed (auto simp: AboutToDestroyPromise_def intro: keeps_cells_refl)

lemma keeps_continuations:
  "states h' = states (upd_state s (\<lambda>fs. fs\<lparr>continuations := ks fs\<rparr>) h) \<Longrightarrow> keeps_cells h h'"
  by (intro keeps_upd_state [of s h "\<lambda>fs. fs\<lparr>continuations := ks fs\<rparr>"]) (auto simp: cell_ok_def split: State.splits)

lemma states_acquire: "states (acquire c h) = states h"
  by (cases "(c, h)" rule: acquire.cases) simp_all

lemma keeps_call_continuation [cells]: "call_continuation h k = (h', cs) \<Longrightarrow> keeps_cells h h'"
  by (intro keeps_cells_refl) (auto simp: call_continuation_def split: callable.splits)

lemma keeps_run_continuation [cells]: "run_continuation h s j = (h', cs) \<Longrightarrow> keeps_cells h h'"
proof (cases "j < length (continuations (states h ! s))")
  case True
  assume r: "run_continuation h s j = (h', cs)"
  obtain h1 cs1 where c: "call_continuation h (continuations (states h ! s) ! j) = (h1, cs1)" by fastforce
  have "keeps_cells h1 h'"
    using r True c by (intro keeps_continuations) (auto simp: run_continuation_def Let_def)
  then show ?thesis using keeps_call_continuation [OF c] keeps_cells_trans by blast
qed (auto simp: run_continuation_def Let_def intro: keeps_cells_refl)

lemma keeps_resolve [cells]:
  assumes "resolve h p r = (h', cs)"
  shows "keeps_cells h h'"
proof (cases r)
  case (Inl e)
  then show ?thesis using assms by (auto simp: resolve_def intro: cells)
next
  case (Inr v)
  then show ?thesis
    using assms
    by (cases "SetValue h p v") (auto simp: resolve_def intro: cells keeps_SetValue split: if_splits)
qed

lemma keeps_clear_continuations [cells]: "clear_continuations h s = (h', cs) \<Longrightarrow> keeps_cells h h'"
  by (rule keeps_continuations [of _ s]) (auto simp: clear_continuations_def)

lemma keeps_drop_activator [cells]: "drop_activator h a = (h', cs) \<Longrightarrow> keeps_cells h h'"
  by (rule keeps_cells_refl) (auto simp: drop_activator_def Let_def)

lemma keeps_FutureState_Then [cells]: "FutureState_Then h s k = (h', cs) \<Longrightarrow> keeps_cells h h'"
proof (cases "state (states (acquire (callable k) h) ! s) = Undefined")
  case True
  assume "FutureState_Then h s k = (h', cs)"
  then have "keeps_cells (acquire (callable k) h) h'"
    using True by (intro keeps_continuations) (auto simp: FutureState_Then_def Let_def)
  then show ?thesis using keeps_cells_trans keeps_cells_refl states_acquire by metis
qed (auto simp: FutureState_Then_def Let_def states_acquire intro: keeps_cells_refl)

lemma keeps_Then_call [cells]: "Then_call h s c v = (h', cs) \<Longrightarrow> keeps_cells h h'"
proof -
  assume "Then_call h s c v = (h', cs)"
  then have "FutureState_Then (fst (make_state v h)) s (then_continuation c s (length (states h))) = (h', cs)"
    by (simp add: Then_call_def make_state_def)
  moreover have "keeps_cells h (fst (make_state v h))" by (rule cells) (simp add: make_state_def)
  ultimately show ?thesis using keeps_FutureState_Then keeps_cells_trans by blast
qed

lemma keeps_step: "step h c = (h', cs) \<Longrightarrow> keeps_cells h h'"
  by (cases c) (auto intro: cells)

lemma keeps_client_call:
  assumes "client_call g x = (g', cs, e)"
  shows "keeps_cells (heap g) (heap g')"
proof (cases x)
  case (PromiseSetValue j v)
  then show ?thesis
    using assms
    by (auto simp: Promise_SetValue_def intro: cells keeps_SetValue split: sum.splits if_splits)
next
  case (PromiseSetException j e)
  then show ?thesis
    using assms by (auto simp: Promise_SetException_def intro: cells split: sum.splits)
qed (use assms in \<open>auto simp: Promise_ctor_def make_state_def WhenAll_def WhenAny_def Let_def
      intro: cells split: sum.splits\<close>)

lemma keeps_sys_step:
  assumes "sys_step g g'"
  shows "keeps_cells (heap g) (heap g')"
  using assms unfolding sys_step_def
proof
  assume "run_step g g'"
  then show ?thesis by (auto elim!: run_stepE intro: keeps_step)
next
  assume "client_step g g'"
  then show ?thesis by (auto elim!: client_stepE dest: keeps_client_call)
qed

lemma reachable_cells:
  assumes "reachable n g"
  shows "cells_ok (heap g)"
  using assms unfolding reachable_def
proof (induction rule: rtranclp_induct)
  case base
  show ?case by (simp add: start_def empty_store_def cells_ok_def)
next
  case (step g1 g2)
  then show ?case using keeps_sys_step by (auto simp: keeps_cells_def)
qed

lemma later_types:
  assumes "sys_step\<^sup>*\<^sup>* g g'"
  shows "same_types (heap g) (heap g')"
  using assms
proof (induction rule: rtranclp_induct)
  case base
  show ?case by (simp add: same_types_def)
next
  case (step g1 g2)
  then show ?case using keeps_sys_step [OF step(2)] by (auto simp: keeps_cells_def same_types_def)
qed

section \<open>Properties\<close>

text \<open>
  C17. In every run each shared state is well formed: a value only in a state that was ready, an exception
  exactly in a state with the tag of one, no value in a state of \<open>FutureState<void>\<close>, whose type stays
  what it was when it was made. So \<open>Get\<close> never rethrows a null pointer, which would be undefined, and
  on a \<open>Future<void>\<close> it never returns a value.
\<close>

theorem future_states_are_well_formed:
  assumes "reachable n g" "sys_step\<^sup>*\<^sup>* g g'" "s < length (states (heap g))"
  shows "cell_ok (states (heap g) ! s) \<and> Get (heap g) s \<noteq> RethrowsNull \<and>
    is_void (states (heap g') ! s) = is_void (states (heap g) ! s) \<and>
    (is_void (states (heap g) ! s) \<longrightarrow> Get (heap g) s \<in> {Returns None, Blocks} \<union> range Throws)"
proof -
  have c: "cell_ok (states (heap g) ! s)"
    using reachable_cells [OF assms(1)] assms(3) by (simp add: cells_ok_def list_all_length)
  moreover have "is_void (states (heap g') ! s) = is_void (states (heap g) ! s)"
    using later_types [OF assms(2)] assms(3) by (simp add: same_types_def)
  ultimately show ?thesis
    by (auto simp: cell_ok_def Get_def Let_def split: State.splits option.splits)
qed

theorem future_states_are_well_formed_witness:
  "cell_ok (FutureState_new True :: (nat, nat) future_state)"
proof -
  let ?g = "start 1 :: (nat, nat) system"
  obtain g' where c: "client_call ?g (NewPromise True) = (g', [], None)"
    by (simp add: Promise_ctor_def make_state_def)
  then have g': "states (heap g') = [FutureState_new True]"
    by (auto simp: Promise_ctor_def make_state_def start_def empty_store_def)
  have "client_step ?g (g'\<lparr>agendas := (agendas ?g)[0 := []]\<rparr>)"
    using client_step_idle [of 0 ?g "NewPromise True" g' "[]" None] c by (simp add: start_def)
  then have r: "reachable 1 (g'\<lparr>agendas := (agendas ?g)[0 := []]\<rparr>)"
    by (auto simp: reachable_def sys_step_def)
  show ?thesis
    using future_states_are_well_formed [OF r rtranclp.rtrancl_refl, of 0] g' by simp
qed

end
