(* ===== verification/Future_Release.thy ===== *)
theory Future_Release
  imports Future_Properties
begin

text \<open>
  When the continuations of a future are destroyed. Only \<open>AboutToDestroyPromise\<close> empties the list; the
  states that \<open>WhenAll\<close> and \<open>WhenAny\<close> make have no promise, so nobody ever calls it for them. A
  continuation holds a copy of the future it was attached to, that is, a pointer to the state it is
  stored in.
\<close>

section \<open>One step\<close>

text \<open>What a command does to the list of a state: it empties it, or at most appends to it.\<close>

lemma promises_of_grow:
  assumes "inv role h (add_mset c Q)" "s < length (states h)" "c \<noteq> ClearContinuations s"
  shows "\<exists>xs. promises_of (fst (step h c)) s = promises_of h s @ xs \<and> (is_set h s \<longrightarrow> xs = [])"
proof (cases "is_call c")
  case False
  then show ?thesis using promises_of_step [OF False assms(3)] by simp
next
  case True
  then obtain t k v where c: "c = CallThen t k v" by (cases c) auto
  have t: "t < length (states h)" using assms(1) c by (auto simp: inv_def)
  show ?thesis
  proof (cases "is_set h t")
    case True
    then show ?thesis
      using Then_call_set [OF t True] assms(2) c by (simp add: promises_of_def nth_append)
  next
    case False
    then show ?thesis
      using Then_call_undefined [OF t False] assms(2) t c
      by (cases "s = t") (auto simp: promises_of_def nth_append nth_list_update)
  qed
qed

lemma is_set_kept:
  assumes "inv role h (add_mset c Q)" "s < length (states h)" "is_set h s"
  shows "is_set (fst (step h c)) s"
proof (cases "is_call c")
  case True
  then obtain t k v where c: "c = CallThen t k v" by (cases c) auto
  have t: "t < length (states h)" using assms(1) c by (auto simp: inv_def)
  show ?thesis
    using Then_call_set [OF t] Then_call_undefined [OF t] assms(2,3) t c
    by (cases "is_set h t"; cases "s = t") (auto simp: is_set_def nth_append nth_list_update)
qed (use is_set_step assms(3) in blast)

lemma drop_callable_cases: "d \<in> set (drop_callable c) \<longleftrightarrow> (\<exists>a. c = ResetActivator (Some a) \<and> d = DropActivator a)"
  by (cases c rule: drop_callable.cases) auto

lemma new_Clear:
  assumes "ClearContinuations s \<in> set (snd (step h c))" "inv role h (add_mset c Q)"
  shows "c = DropPromise s"
proof (cases c)
  case (RunContinuation t j)
  then show ?thesis
    using assms(1)
    by (auto simp: run_continuation_def call_continuation_def drop_callable_cases Let_def split_beta
        split: if_splits callable.splits)
next
  case (RunTemporary k)
  then show ?thesis
    using assms(1) by (auto simp: call_continuation_def drop_callable_cases split: callable.splits)
next
  case (Resolve p r)
  then show ?thesis
    using assms(1) by (cases rule: resolve_cases [of h p r]) (auto simp: run_continuations_def)
next
  case (VoidSetValue t)
  then show ?thesis using assms(1) by (auto simp: SetValue_void_def run_continuations_def split: if_splits)
next
  case (DropPromise t)
  then show ?thesis using assms(1) by (simp add: AboutToDestroyPromise_def)
next
  case (ClearContinuations t)
  then show ?thesis
    using assms(1) by (auto simp: clear_continuations_def destroy_continuation_def drop_callable_cases)
next
  case (DropActivator a)
  then show ?thesis using assms(1) by (auto simp: drop_activator_def Let_def split: if_splits)
next
  case (CallThen t k v)
  then have t: "t < length (states h)" using assms(2) by (auto simp: inv_def)
  show ?thesis
    using assms(1) CallThen Then_call_set [OF t] Then_call_undefined [OF t] by (cases "is_set h t") auto
qed

text \<open>What a call does to a state that there is.\<close>

lemma client_call_state:
  assumes "s < length (states (heap g))" "client_call g x = (g', cs, e)"
  shows "s < length (states (heap g')) \<and> promises_of (heap g') s = promises_of (heap g) s \<and>
    (is_set (heap g) s \<longrightarrow> is_set (heap g') s) \<and> maker g' s = maker g s \<and> ClearContinuations s \<notin> set cs"
proof (cases x)
  case (PromiseSetValue j v)
  then show ?thesis
    using assms
    by (cases "promises g ! j")
      (auto simp: Promise_SetValue_def Check_def SetValue_void_def SetValue_def run_continuations_def promises_of_def
        is_set_def nth_update_if split: sum.splits if_splits)
next
  case (PromiseSetException j v)
  then show ?thesis
    using assms
    by (cases "promises g ! j")
      (auto simp: Promise_SetException_def Check_def SetException_def run_continuations_def promises_of_def
        is_set_def nth_update_if split: sum.splits if_splits)
next
  case (CallFutureThen f c v)
  then show ?thesis using assms by (auto split: sum.splits)
qed (use assms in \<open>auto simp: Promise_ctor_def Promise_dtor_def WhenAll_def WhenAny_def split_beta Let_def
    fold_Then_def promises_of_def is_set_def nth_append split: option.splits\<close>)

lemma client_call_new:
  assumes "client_call g x = (g', cs, e)" "length (states (heap g)) \<le> t" "t < length (states (heap g'))"
  shows "maker g' t \<noteq> ByThen s"
  using assms
  by (cases x) (auto simp: Promise_ctor_def WhenAll_def WhenAny_def Promise_SetValue_def Promise_SetException_def
      SetValue_void_def SetValue_def SetException_def Check_def split_beta Let_def split: sum.splits option.splits if_splits)

section \<open>States without a promise\<close>

text \<open>A state that no promise will ever complete: it has its continuations for ever.\<close>

definition unowned :: "('v, 'e) system \<Rightarrow> nat \<Rightarrow> bool" where
  "unowned g w \<longleftrightarrow>
     w < length (states (heap g)) \<and> (\<forall>s. maker g w \<noteq> ByThen s) \<and> maker g w \<noteq> ByPromise \<and>
     ClearContinuations w \<notin># pending g"

lemma unowned_run:
  assumes "run_step g g'" "sys_inv g" "unowned g w"
  shows "unowned g' w \<and> (\<exists>xs. promises_of (heap g') w = promises_of (heap g) w @ xs)"
  using assms(1)
proof cases
  case (run_stepI i c cs h new)
  let ?Q = "mset (concat ((agendas g)[i := cs]))"
  have P: "pending g = add_mset c ?Q" "pending g' = mset new + ?Q"
    using pending_run [OF run_stepI(2,3)] run_stepI(1) by (simp_all add: pending_def)
  have hn: "h = fst (step (heap g) c)" "new = snd (step (heap g) c)" using run_stepI(4) by simp_all
  have i: "inv (maker g) (heap g) (add_mset c ?Q)" using assms(2) P by (simp add: sys_inv_def)
  have w: "w < length (states (heap g))" "c \<noteq> ClearContinuations w" "ClearContinuations w \<notin># ?Q"
    using assms(3) P by (auto simp: unowned_def)
  have "c \<noteq> DropPromise w" using i assms(3) by (auto simp: inv_def unowned_def)
  then have "ClearContinuations w \<notin> set new" using new_Clear [OF _ i, of w] hn by auto
  moreover have "next_role (heap g) (maker g) c w = maker g w" using w(1) by (cases c) auto
  moreover have "w < length (states h)" using w(1) length_states_mono [of "heap g" c] hn by simp
  ultimately show ?thesis
    using promises_of_grow [OF i w(1,2)] assms(3) w(3) P hn run_stepI(1) by (auto simp: unowned_def)
qed

lemma unowned_step:
  assumes "sys_step g g'" "sys_inv g" "unowned g w"
  shows "unowned g' w \<and> (\<exists>xs. promises_of (heap g') w = promises_of (heap g) w @ xs)"
  using assms(1) unfolding sys_step_def
proof
  assume "client_step g g'"
  then show ?thesis
  proof cases
    case (client_stepI i x g1 cs e)
    have "pending g' = mset cs + pending g"
      using pending_call client_stepI by (simp add: pending_def)
    then show ?thesis
      using client_call_state [OF _ client_stepI(4), of w] client_stepI(1) assms(3) by (auto simp: unowned_def)
  qed
qed (use assms unowned_run in blast)

lemma unowned_forever:
  assumes "sys_step\<^sup>*\<^sup>* g g'" "sys_inv g" "unowned g w"
  shows "sys_inv g' \<and> unowned g' w \<and> (\<exists>xs. promises_of (heap g') w = promises_of (heap g) w @ xs)"
  using assms
proof (induction rule: rtranclp_induct)
  case (step g1 g2)
  then have "sys_inv g1" "unowned g1 w" "\<exists>xs. promises_of (heap g1) w = promises_of (heap g) w @ xs" by blast+
  then show ?case
    using step(2) unowned_step [of g1 g2 w] run_step_inv client_step_inv unfolding sys_step_def
    by (metis append.assoc)
qed simp

section \<open>States whose promise is destroyed\<close>

text \<open>The destructor is to run, or to empty the list, or has done so.\<close>

definition releasing :: "('v, 'e) system \<Rightarrow> nat \<Rightarrow> bool" where
  "releasing g s \<longleftrightarrow>
     s < length (states (heap g)) \<and>
     (DropPromise s \<in># pending g \<or> ClearContinuations s \<in># pending g \<or>
      is_set (heap g) s \<and> promises_of (heap g) s = [])"

lemma releasing_run:
  assumes "run_step g g'" "sys_inv g" "releasing g s"
  shows "releasing g' s"
  using assms(1)
proof cases
  case (run_stepI i c cs h new)
  let ?Q = "mset (concat ((agendas g)[i := cs]))"
  have P: "pending g = add_mset c ?Q" "pending g' = mset new + ?Q"
    using pending_run [OF run_stepI(2,3)] run_stepI(1) by (simp_all add: pending_def)
  have hn: "h = fst (step (heap g) c)" "new = snd (step (heap g) c)" using run_stepI(4) by simp_all
  have i: "inv (maker g) (heap g) (add_mset c ?Q)" using assms(2) P by (simp add: sys_inv_def)
  have s: "s < length (states (heap g))" using assms(3) by (simp add: releasing_def)
  have l: "s < length (states h)" using s length_states_mono [of "heap g" c] hn by simp
  have set: "is_set h s" if "is_set (heap g) s" using is_set_kept [OF i s that] hn by simp
  consider (drop) "c = DropPromise s" | (clear) "c = ClearContinuations s" |
    (other) "c \<noteq> DropPromise s" "c \<noteq> ClearContinuations s" by blast
  then show ?thesis
  proof cases
    case drop
    then have "ClearContinuations s \<in> set new" using hn by (simp add: AboutToDestroyPromise_def)
    then show ?thesis using l P run_stepI(1) by (auto simp: releasing_def)
  next
    case clear
    then have "is_set (heap g) s" using i by (auto simp: inv_def is_set_def)
    moreover have "promises_of h s = []" using clear s hn by (simp add: clear_continuations_def promises_of_def)
    ultimately show ?thesis using l set run_stepI(1) by (simp add: releasing_def)
  next
    case other
    then show ?thesis
      using promises_of_grow [OF i s other(2)] assms(3) l set P hn run_stepI(1) by (auto simp: releasing_def)
  qed
qed

lemma releasing_step:
  assumes "sys_step g g'" "sys_inv g" "releasing g s"
  shows "releasing g' s"
  using assms(1) unfolding sys_step_def
proof
  assume "client_step g g'"
  then show ?thesis
  proof cases
    case (client_stepI i x g1 cs e)
    have "pending g' = mset cs + pending g"
      using pending_call client_stepI by (simp add: pending_def)
    then show ?thesis
      using client_call_state [OF _ client_stepI(4), of s] client_stepI(1) assms(3) by (auto simp: releasing_def)
  qed
qed (use assms releasing_run in blast)

lemma releasing_forever:
  assumes "sys_step\<^sup>*\<^sup>* g g'" "sys_inv g" "releasing g s"
  shows "sys_inv g' \<and> releasing g' s"
  using assms
proof (induction rule: rtranclp_induct)
  case (step g1 g2)
  then have "sys_inv g1" "releasing g1 s" by blast+
  then show ?case
    using step(2) releasing_step run_step_inv client_step_inv unfolding sys_step_def by metis
qed simp

section \<open>The futures that Then returns\<close>

text \<open>
  The promise of a future that \<open>Then\<close> returned is in a continuation, which the antecedent holds; or it is
  being destroyed, or has been.
\<close>

definition promise_held :: "('v, 'e) system \<Rightarrow> bool" where
  "promise_held g \<longleftrightarrow> (\<forall>t < length (states (heap g)). \<forall>s. maker g t = ByThen s \<longrightarrow>
     t \<in> set (promises_of (heap g) s) \<or> releasing g t)"

lemma held_run:
  assumes "run_step g g'" "sys_inv g" "promise_held g"
  shows "promise_held g'"
  using assms(1)
proof cases
  case (run_stepI i c cs h new)
  let ?Q = "mset (concat ((agendas g)[i := cs]))"
  have P: "pending g = add_mset c ?Q" "pending g' = mset new + ?Q"
    using pending_run [OF run_stepI(2,3)] run_stepI(1) by (simp_all add: pending_def)
  have hn: "h = fst (step (heap g) c)" "new = snd (step (heap g) c)" using run_stepI(4) by simp_all
  have i: "inv (maker g) (heap g) (add_mset c ?Q)" using assms(2) P by (simp add: sys_inv_def)
  show ?thesis unfolding promise_held_def
  proof (intro allI impI)
    fix t s assume t: "t < length (states (heap g'))" "maker g' t = ByThen s"
    show "t \<in> set (promises_of (heap g') s) \<or> releasing g' t"
    proof (cases "t < length (states (heap g))")
      case True
      have m: "maker g t = ByThen s" using t(2) True run_stepI(1) by (cases c) auto
      then have "s < t" using i True by (simp add: inv_def order_ok_def)
      then have s: "s < length (states (heap g))" using True by simp
      consider "releasing g t" | (held) "t \<in> set (promises_of (heap g) s)"
        using assms(3) True m by (auto simp: promise_held_def)
      then show ?thesis
      proof cases
        case held
        show ?thesis
        proof (cases "c = ClearContinuations s")
          case True
          obtain j where j: "j < length (promises_of (heap g) s)" "promises_of (heap g) s ! j = t"
            using held by (auto simp: in_set_conv_nth)
          have "DropPromise t \<in> set new" using clear_drops [OF j(1)] j(2) True hn by simp
          then show ?thesis using t(1) P by (simp add: releasing_def)
        next
          case False
          then show ?thesis using promises_of_grow [OF i s False] held hn run_stepI(1) by auto
        qed
      qed (use releasing_run assms in blast)
    next
      case False
      then obtain a k v where c: "c = CallThen a k v"
        using t(1) run_stepI(1) hn length_states_step [of c "heap g"] by (cases "is_call c"; cases c) auto
      have a: "a < length (states (heap g))" using i c by (auto simp: inv_def)
      have tl: "t = length (states (heap g))" "s = a"
        using False t run_stepI(1) hn c Then_call_set [OF a] Then_call_undefined [OF a]
        by (cases "is_set (heap g) a"; auto)+
      show ?thesis
      proof (cases "is_set (heap g) a")
        case True
        then have "DropPromise t \<in> set new" using Then_call_set [OF a True] hn c tl by simp
        then show ?thesis using t(1) P by (simp add: releasing_def)
      next
        case False
        then show ?thesis
          using Then_call_undefined [OF a False] hn c tl a run_stepI(1) by (simp add: promises_of_def then_continuation_def)
      qed
    qed
  qed
qed

lemma held_step:
  assumes "sys_step g g'" "sys_inv g" "promise_held g"
  shows "promise_held g'"
  using assms(1) unfolding sys_step_def
proof
  assume c: "client_step g g'"
  then show ?thesis
  proof cases
    case (client_stepI i x g1 cs e)
    show ?thesis unfolding promise_held_def
    proof (intro allI impI)
      fix t s assume t: "t < length (states (heap g'))" "maker g' t = ByThen s"
      have l: "t < length (states (heap g))"
        using t client_call_new [OF client_stepI(4)] client_stepI(1) by (cases "t < length (states (heap g))") auto
      have m: "maker g t = ByThen s" using client_call_state [OF l client_stepI(4)] t(2) client_stepI(1) by simp
      then have "s < t" using assms(2) l by (auto simp: sys_inv_def inv_def order_ok_def)
      then show "t \<in> set (promises_of (heap g') s) \<or> releasing g' t"
        using assms(3) m l client_call_state [OF _ client_stepI(4), of s] client_stepI(1)
          releasing_step [OF _ assms(2), of g' t] c
        by (auto simp: promise_held_def sys_step_def)
    qed
  qed
qed (use assms held_run in blast)

lemma reachable_held: "reachable n g \<Longrightarrow> promise_held g"
  unfolding reachable_def
proof (induction rule: rtranclp_induct)
  case base
  then show ?case by (simp add: promise_held_def start_def empty_store_def)
next
  case (step g1 g2)
  then show ?case using held_step reachable_inv [unfolded reachable_def] by blast
qed

section \<open>Properties\<close>

text \<open>\<open>below g s t\<close>: the future \<open>t\<close> was made by a chain of calls of \<open>Then\<close> that begins with \<open>s\<close>.\<close>

inductive below :: "('v, 'e) system \<Rightarrow> nat \<Rightarrow> nat \<Rightarrow> bool" for g s where
  below_refl: "below g s s"
| below_Then: "below g s t \<Longrightarrow> u < length (states (heap g)) \<Longrightarrow> maker g u = ByThen t \<Longrightarrow> below g s u"

lemma released_below:
  assumes "sys_inv g" "promise_held g" "quiescent g" "releasing g s" "below g s t"
  shows "releasing g t"
  using assms(5)
proof induction
  case below_refl
  show ?case by (rule assms(4))
next
  case (below_Then t u)
  have "pending g = {#}" using assms(3) by (auto simp: quiescent_def pending_def in_set_conv_nth)
  then have "promises_of (heap g) t = []" using below_Then.IH by (simp add: releasing_def)
  moreover have "u \<in> set (promises_of (heap g) t) \<or> releasing g u"
    using assms(2) below_Then.hyps by (simp add: promise_held_def)
  ultimately show ?case by simp
qed

text \<open>
  C30. The destructor of a promise releases: once all calls have returned, its future and every future chained
  to it, directly or through others, is set and holds no continuation any more.
\<close>

theorem destroyed_promise_releases_its_futures:
  assumes "reachable n g0" "i < length (agendas g0)"
    "j < length (promises g0)" "promises g0 ! j = Some s"
    "client_call g0 (DestroyPromise j) = (g', cs, e)"
    "sys_step\<^sup>*\<^sup>* (g'\<lparr>agendas := (agendas g0)[i := cs @ agendas g0 ! i]\<rparr>) g"
    "quiescent g" "below g s t"
  shows "is_set (heap g) t \<and> continuations (states (heap g) ! t) = []"
proof -
  let ?g1 = "g'\<lparr>agendas := (agendas g0)[i := cs @ agendas g0 ! i]\<rparr>"
  have o: "op_ok g0 (DestroyPromise j)" using assms(3) by simp
  have st: "sys_step g0 ?g1" using client_stepI [OF assms(2) o assms(5)] by (simp add: sys_step_def)
  then have r1: "reachable n ?g1" using assms(1) by (simp add: reachable_def)
  then have r: "reachable n g" using assms(6) by (simp add: reachable_def)
  have "s < length (states (heap g0))"
    using reachable_inv [OF assms(1)] assms(3,4) nth_mem [OF assms(3)] by (auto simp: sys_inv_def promises_ok_def)
  moreover have "pending ?g1 = mset cs + pending g0"
    using pending_call [OF assms(2)] by (simp add: pending_def)
  ultimately have "releasing ?g1 s" using assms(4,5) by (auto simp: releasing_def Promise_dtor_def)
  then have "releasing g s" using releasing_forever [OF assms(6) reachable_inv [OF r1]] by blast
  then have "releasing g t"
    using released_below [OF reachable_inv [OF r] reachable_held [OF r] assms(7) _ assms(8)] by blast
  moreover have "pending g = {#}" using assms(7) by (auto simp: quiescent_def pending_def in_set_conv_nth)
  ultimately show ?thesis by (simp add: releasing_def promises_of_def)
qed

text \<open>A promise, a future chained to its future, and one chained to that.\<close>

definition chain_of_three :: "(nat, nat) system" where
  "chain_of_three = play (start 1)
     [Call 0 (NewPromise False), Call 0 (CallFutureThen (Some 0) (\<lambda>r. Inr (Some 1)) False), Run 0,
      Call 0 (CallFutureThen (Some 1) (\<lambda>r. Inr (Some 2)) False), Run 0]"

theorem destroyed_promise_releases_its_futures_witness:
  "continuations (states (heap chain_of_three) ! 1) \<noteq> [] \<and>
   continuations (states (heap (play (fst (client_call chain_of_three (DestroyPromise 0))\<lparr>agendas := [[DropPromise 0]]\<rparr>)
     (replicate 6 (Run 0)))) ! 1) = []"
proof -
  let ?g = "play (fst (client_call chain_of_three (DestroyPromise 0))\<lparr>agendas := [[DropPromise 0]]\<rparr>) (replicate 6 (Run 0))"
  have r: "reachable 1 chain_of_three" unfolding chain_of_three_def by (rule play_reachable)
  have a: "agendas chain_of_three = [[]]"
    by (simp add: chain_of_three_def start_def Promise_ctor_def make_state_def empty_store_def known_def Check_def
        Then_call_def FutureState_Then_def then_continuation_def FutureState_new_def upd_state_def)
  have p: "promises chain_of_three = [Some 0]" by code_simp
  have q: "quiescent ?g" by code_simp
  have m: "1 < length (states (heap ?g))" "maker ?g 1 = ByThen 0" "continuations (states (heap chain_of_three) ! 1) \<noteq> []"
    by code_simp+
  have "below ?g 0 1" by (rule below_Then [OF below_refl m(1,2)])
  moreover have "client_call chain_of_three (DestroyPromise 0) =
      (fst (client_call chain_of_three (DestroyPromise 0)), [DropPromise 0], None)"
    by (simp add: p Promise_dtor_def)
  moreover have "0 < length (agendas chain_of_three)" "0 < length (promises chain_of_three)"
    "promises chain_of_three ! 0 = Some 0" by (simp_all add: a p)
  moreover have "sys_step\<^sup>*\<^sup>* (fst (client_call chain_of_three (DestroyPromise 0))
      \<lparr>agendas := (agendas chain_of_three)[0 := [DropPromise 0] @ agendas chain_of_three ! 0]\<rparr>) ?g"
    using play_steps [of "fst (client_call chain_of_three (DestroyPromise 0))\<lparr>agendas := [[DropPromise 0]]\<rparr>"]
    by (simp only: a list_update.simps nat.case nth_Cons_0 append_Nil2)
  ultimately show ?thesis
    using destroyed_promise_releases_its_futures [OF r _ _ _ _ _ q] m(3) by blast
qed

text \<open>
  C5. The futures of \<open>WhenAll\<close> and \<open>WhenAny\<close> never release: a continuation attached to one of them stays in its
  state for ever, also after it has been called. It holds a copy of the future, so that the state owns a
  pointer to itself: neither is ever freed, nor the promise in the continuation ever destroyed.
\<close>

theorem joint_futures_never_release:
  assumes "reachable n g0" "i < length (agendas g0)" "op_ok g0 x"
    "x = CallWhenAll fs \<or> x = CallWhenAny fs" "client_call g0 x = (g', cs, e)"
    "sys_step\<^sup>*\<^sup>* (g'\<lparr>agendas := (agendas g0)[i := cs @ agendas g0 ! i]\<rparr>) g1" "sys_step\<^sup>*\<^sup>* g1 g2"
  defines "w \<equiv> length (states (heap g0))"
  assumes "j < length (continuations (states (heap g1) ! w))"
  shows "j < length (continuations (states (heap g2) ! w)) \<and>
    promise (continuations (states (heap g2) ! w) ! j) = promise (continuations (states (heap g1) ! w) ! j) \<and>
    copyOfThis (continuations (states (heap g2) ! w) ! j) = w"
proof -
  let ?g = "g'\<lparr>agendas := (agendas g0)[i := cs @ agendas g0 ! i]\<rparr>"
  have inv0: "sys_inv g0" using reachable_inv [OF assms(1)] .
  have st: "client_step g0 ?g" using client_stepI [OF assms(2,3,5)] .
  then have inv: "sys_inv ?g" using client_step_inv inv0 by blast
  have "cmd_ok (maker g0) (heap g0) c" if "c \<in># pending g0" for c using inv0 that by (auto simp: sys_inv_def inv_def)
  then have "ClearContinuations w \<notin># pending g0" by (force simp: w_def)
  moreover have "pending ?g = mset cs + pending g0" using pending_call [OF assms(2)] by (simp add: pending_def)
  ultimately have "unowned ?g w"
    using assms(4,5)
    by (auto simp: unowned_def w_def WhenAll_def WhenAny_def split_beta Let_def fold_Then_def)
  then have u1: "sys_inv g1" "unowned g1 w" using unowned_forever [OF assms(6) inv] by blast+
  then obtain xs where xs: "sys_inv g2" "unowned g2 w" "promises_of (heap g2) w = promises_of (heap g1) w @ xs"
    using unowned_forever [OF assms(7)] by blast
  have l: "j < length (continuations (states (heap g2) ! w))"
    using arg_cong [OF xs(3), of length] assms(9) by (simp add: promises_of_def)
  have "map promise (continuations (states (heap g2) ! w)) ! j = map promise (continuations (states (heap g1) ! w)) ! j"
    using xs(3) assms(9) by (simp add: promises_of_def nth_append)
  moreover have "copyOfThis (continuations (states (heap g2) ! w) ! j) = w"
    using xs(1,2) l nth_mem [OF l] by (auto simp: sys_inv_def inv_def conts_ok_def cont_ok_def unowned_def)
  ultimately show ?thesis using l assms(9) by simp
qed

text \<open>\<open>WhenAll\<close> on one future, and a continuation on its result; then the promise is set and destroyed.\<close>

definition one_promise :: "(nat, nat) system" where
  "one_promise = play (start 1) [Call 0 (NewPromise False)]"

definition joined :: "(nat, nat) system" where
  "joined = fst (client_call one_promise (CallWhenAll [Some 0]))
     \<lparr>agendas := (agendas one_promise)[0 := fst (snd (client_call one_promise (CallWhenAll [Some 0]))) @ agendas one_promise ! 0]\<rparr>"

definition attached :: "(nat, nat) system" where
  "attached = play joined
     [Run 0, Run 0, Run 0, Call 0 (CallFutureThen (Some 1) (\<lambda>r. Inr (Some 7)) False), Run 0]"

definition all_over :: "(nat, nat) system" where
  "all_over = play attached
     (Call 0 (PromiseSetValue 0 (Some 5)) # replicate 12 (Run 0) @ Call 0 (DestroyPromise 0) # replicate 12 (Run 0))"

theorem joint_futures_never_release_witness:
  "quiescent all_over \<and> promises all_over = [None] \<and> state (states (heap all_over) ! 1) = Ready \<and>
   0 < length (continuations (states (heap all_over) ! 1)) \<and>
   copyOfThis (continuations (states (heap all_over) ! 1) ! 0) = 1"
proof -
  have r: "reachable 1 one_promise" unfolding one_promise_def by (rule play_reachable)
  have a: "agendas one_promise = [[]]" "length (states (heap one_promise)) = 1"
    by (simp_all add: one_promise_def start_def Promise_ctor_def make_state_def empty_store_def)
  have o: "op_ok one_promise (CallWhenAll [Some 0])" by code_simp
  have c: "0 < length (continuations (states (heap attached) ! length (states (heap one_promise))))" by code_simp
  have "quiescent all_over \<and> promises all_over = [None] \<and> state (states (heap all_over) ! 1) = Ready" by code_simp
  moreover have "0 < length (agendas one_promise)" by (simp add: a)
  moreover have "client_call one_promise (CallWhenAll [Some 0]) =
      (fst (client_call one_promise (CallWhenAll [Some 0])), fst (snd (client_call one_promise (CallWhenAll [Some 0]))),
       snd (snd (client_call one_promise (CallWhenAll [Some 0]))))" by simp
  moreover have "sys_step\<^sup>*\<^sup>* joined attached" unfolding attached_def by (rule play_steps)
  moreover have "sys_step\<^sup>*\<^sup>* attached all_over" unfolding all_over_def by (rule play_steps)
  ultimately show ?thesis
    using joint_futures_never_release [OF r _ o disjI1 [OF refl] _ _ _ c] unfolding joined_def a(2) by blast
qed

text \<open>
  A callable that \<open>SetValue\<close> calls destroys the promise: the destructor empties the vector that the loop
  of \<open>SetValue\<close> goes over. The loop then stands at an element that is no longer there (in C++ the
  iterator is invalid, and so is the closure that is running).
\<close>

theorem promise_destroyed_in_its_continuation:
  assumes "reachable n g" "i < length (agendas g)" "RunContinuation s k \<in> set (agendas g ! i)"
    "j < length (promises g)" "promises g ! j = Some s"
  shows "\<exists>g1 g2 g3. client_step g g1 \<and> run_step g1 g2 \<and> run_step g2 g3 \<and>
    RunContinuation s k \<in> set (agendas g3 ! i) \<and> length (continuations (states (heap g3) ! s)) \<le> k"
proof -
  let ?g1 = "g\<lparr>promises := (promises g)[j := None], agendas := (agendas g)[i := DropPromise s # agendas g ! i]\<rparr>"
  obtain h2 where h2: "step (heap g) (DropPromise s) = (h2, [ClearContinuations s])"
    by (simp add: AboutToDestroyPromise_def)
  let ?g2 = "?g1\<lparr>heap := h2, agendas := (agendas g)[i := ClearContinuations s # agendas g ! i]\<rparr>"
  obtain h3 cs where h3: "step h2 (ClearContinuations s) = (h3, cs)" by fastforce
  let ?g3 = "?g2\<lparr>heap := h3, agendas := (agendas g)[i := cs @ agendas g ! i]\<rparr>"
  have s: "s < length (states (heap g))"
    using reachable_inv [OF assms(1)] assms(4,5) nth_mem [OF assms(4)] by (auto simp: sys_inv_def promises_ok_def)
  have "s < length (states h2)" using s length_states_mono [of "heap g" "DropPromise s"] h2 by simp
  then have c: "continuations (states h3 ! s) = []" using h3 by (auto simp: clear_continuations_def)
  have "client_step g ?g1"
    using client_stepI [OF assms(2), of "DestroyPromise j" "g\<lparr>promises := (promises g)[j := None]\<rparr>" "[DropPromise s]" None]
      assms(4,5) by (simp add: Promise_dtor_def)
  moreover have "run_step ?g1 ?g2"
    using run_stepI [of i ?g1 "DropPromise s" "agendas g ! i" h2 "[ClearContinuations s]"] assms(2) h2 by simp
  moreover have "run_step ?g2 ?g3"
    using run_stepI [of i ?g2 "ClearContinuations s" "agendas g ! i" h3 cs] assms(2) h3 by simp
  moreover have "RunContinuation s k \<in> set (agendas ?g3 ! i)" using assms(2,3) by simp
  moreover have "length (continuations (states (heap ?g3) ! s)) \<le> k" using c by simp
  ultimately show ?thesis by blast
qed

text \<open>Two continuations on a future; the first has been called and its callable destroys the promise.\<close>

definition first_of_two :: "(nat, nat) system" where
  "first_of_two = play (start 1)
     [Call 0 (NewPromise False), Call 0 (CallFutureThen (Some 0) (\<lambda>r. Inr (Some 1)) False), Run 0,
      Call 0 (CallFutureThen (Some 0) (\<lambda>r. Inr (Some 2)) False), Run 0, Call 0 (PromiseSetValue 0 (Some 5)), Run 0]"

theorem promise_destroyed_in_its_continuation_witness:
  "length (continuations (states (heap first_of_two) ! 0)) = 2 \<and>
   (\<exists>g1 g2 g3. client_step first_of_two g1 \<and> run_step g1 g2 \<and> run_step g2 g3 \<and>
     RunContinuation 0 1 \<in> set (agendas g3 ! 0) \<and> length (continuations (states (heap g3) ! 0)) \<le> 1)"
proof -
  have r: "reachable 1 first_of_two" unfolding first_of_two_def by (rule play_reachable)
  have a: "0 < length (agendas first_of_two)" by code_simp
  have c: "length (continuations (states (heap first_of_two) ! 0)) = 2" by code_simp
  have "list_ex (\<lambda>c. case c of RunContinuation s k \<Rightarrow> s = 0 \<and> k = 1 | _ \<Rightarrow> False) (agendas first_of_two ! 0)"
    by code_simp
  then obtain x where "x \<in> set (agendas first_of_two ! 0)"
    "case x of RunContinuation s k \<Rightarrow> s = 0 \<and> k = 1 | _ \<Rightarrow> False" by (auto simp: list_ex_iff)
  then have m: "RunContinuation 0 1 \<in> set (agendas first_of_two ! 0)" by (cases x rule: command.exhaust) auto
  have p: "0 < length (promises first_of_two)" "promises first_of_two ! 0 = Some 0" by code_simp+
  show ?thesis using promise_destroyed_in_its_continuation [OF r a m p] c by blast
qed

end
