(* ===== verification/Task_Class.thy ===== *)
theory Task_Class
  imports Pool_Properties Future_Types
begin

text \<open>
  The classes \<open>TaskBase\<close>, \<open>Task<T>\<close> and \<open>Task<void>\<close> of \<open>include/azul/async/Task.hpp\<close> as objects: their
  construction, the future of their promise, the call with the function it gives up, and their
  destruction. The thread pool works with the \<open>task\<close> inside the object.
\<close>

section \<open>Objects\<close>

text \<open>\<open>has_func\<close>: whether the pointer \<open>_func\<close> is set.\<close>

record ('v, 'e) task_object = "('v, 'e) task" +
  has_func :: bool

text \<open>
  The constructor on the thread \<open>i\<close>: the dependency is copied, the promise is a new one, the function
  moves behind a pointer. \<open>void\<close> says which of the two classes it is.
\<close>

definition Task_ctor ::
  "('v, 'e) system \<Rightarrow> nat \<Rightarrow> bool \<Rightarrow> 'e exn + 'v option \<Rightarrow> handle \<Rightarrow> nat \<Rightarrow> nat list \<Rightarrow>
     ('v, 'e) system \<times> ('v, 'e) task_object"
where
  "Task_ctor g i void f dep ident aw =
     (fst (call_by g i (NewPromise void)),
      \<lparr>dependency = dep, task_func = f, task_promise = length (promises g), task_id = ident, awaits = aw,
       has_func = True\<rparr>)"

definition Task_GetFuture :: "('v, 'e) system \<Rightarrow> ('v, 'e) task_object \<Rightarrow> 'e exn + handle" where
  "Task_GetFuture g t = Promise_GetFuture (promises g ! task_promise t)"

text \<open>
  \<open>operator()\<close> of \<open>Task<T>\<close>: the pointer is reset after a call that returns, and not when the function
  throws. A call through a pointer that has been reset is undefined.
\<close>

definition Task_operator ::
  "('v, 'e) system \<Rightarrow> nat \<Rightarrow> ('v, 'e) task_object \<Rightarrow> cpp_error + ('v, 'e) system \<times> ('v, 'e) task_object"
where
  "Task_operator g i t =
     (if \<not> has_func t then Inl undefined_behaviour
      else Inr (Task_call g i (task.truncate t),
                t\<lparr>has_func := (case task_func t of Inl e \<Rightarrow> True | Inr v \<Rightarrow> False)\<rparr>))"

text \<open>\<open>operator()\<close> of \<open>Task<void>\<close>, which calls the \<open>SetValue\<close> without a value.\<close>

definition Task_void_operator ::
  "('v, 'e) system \<Rightarrow> nat \<Rightarrow> ('v, 'e) task_object \<Rightarrow> cpp_error + ('v, 'e) system \<times> ('v, 'e) task_object"
where
  "Task_void_operator g i t =
     (if \<not> has_func t then Inl undefined_behaviour
      else Inr
        (case task_func t of
           Inl ex \<Rightarrow> (fst (call_by g i (PromiseSetException (task_promise t) ex)), t)
         | Inr _ \<Rightarrow>
             (let t = t\<lparr>has_func := False\<rparr> in
              case call_by g i (PromiseSetValue (task_promise t) None) of
                (g', None) \<Rightarrow> (g', t)
              | (g', Some ex) \<Rightarrow> (fst (call_by g i (PromiseSetException (task_promise t) ex)), t))))"

text \<open>The destructor destroys the promise; the function and the dependency are released silently.\<close>

definition Task_dtor :: "('v, 'e) system \<Rightarrow> nat \<Rightarrow> ('v, 'e) task_object \<Rightarrow> ('v, 'e) system" where
  "Task_dtor g i t = fst (call_by g i (DestroyPromise (task_promise t)))"

section \<open>Lemmas\<close>

lemma task_of_object [simp]:
  "task_func (task.truncate t) = task_func t" "task_promise (task.truncate t) = task_promise t"
  by (simp_all add: task.truncate_def)

lemma Task_ctor_reachable:
  assumes "reachable n g" "i < length (agendas g)" "Task_ctor g i void f dep ident aw = (g1, t)"
  shows "reachable n g1" "sys_step\<^sup>*\<^sup>* g g1"
proof -
  have "client_step g g1"
    using call_by_step [OF assms(2), of "NewPromise void"] assms(3) by (auto simp: Task_ctor_def)
  then show "reachable n g1" "sys_step\<^sup>*\<^sup>* g g1"
    using assms(1) by (auto simp: reachable_def sys_step_def intro: rtranclp.rtrancl_into_rtrancl)
qed

lemma Task_ctor_state:
  assumes "Task_ctor g i void f dep ident aw = (g1, t)"
  shows "Task_GetFuture g1 t = Inr (Some (length (states (heap g))))" "task_func t = f" "has_func t"
    "states (heap g1) = states (heap g) @ [FutureState_new void]"
  using assms
  by (auto simp: Task_ctor_def Task_GetFuture_def Promise_GetFuture_def Check_def call_by_def Promise_ctor_def
      make_state_def)

lemma task_is_called_once:
  "Task_operator g i t = Inr (g', t') \<Longrightarrow> has_func t' \<longleftrightarrow> (\<exists>e. task_func t = Inl e)"
  by (auto simp: Task_operator_def split: if_splits sum.splits)

text \<open>The class for \<open>void\<close> does what the other one does on a promise of \<open>void\<close>.\<close>

lemma Task_void_agrees:
  assumes "promises g ! task_promise t = Some s" "is_void (states (heap g) ! s)"
  shows "Task_void_operator g i t = Task_operator g i t"
  using assms
  by (auto simp: Task_void_operator_def Task_operator_def Task_call_def call_by_def Promise_SetValue_def Check_def
      Let_def split: sum.splits prod.splits option.splits)

lemma reachable_steps: "reachable n g \<Longrightarrow> sys_step\<^sup>*\<^sup>* g g' \<Longrightarrow> reachable n g'"
  by (auto simp: reachable_def)

section \<open>Properties\<close>

text \<open>
  C16. A task delivers: the future taken from a new task gets what the function of the task gives, a value
  or the exception it threw, whenever the task is called later, if the task still has its promise and
  nobody has set it; and a task whose function returned cannot be called again.
\<close>

theorem task_delivers_to_its_future:
  assumes "reachable n g" "i < length (agendas g)"
    and t: "Task_ctor g i void f dep ident aw = (g1, t)" "Task_GetFuture g1 t = Inr fut"
    and later: "sys_step\<^sup>*\<^sup>* g1 g2" "promises g2 ! task_promise t = fut" "Future_IsReady (heap g2) fut = Inr False"
    and run: "j < length (agendas g2)" "(if void then Task_void_operator else Task_operator) g2 j t = Inr (g3, t')"
  shows "Future_Get (heap g3) fut =
      Inr (case f of Inl e \<Rightarrow> Throws e | Inr v \<Rightarrow> Returns (if void then None else v)) \<and>
    ((\<exists>v. f = Inr v) \<longrightarrow> Task_operator g3 j t' = Inl undefined_behaviour)"
proof -
  let ?s = "length (states (heap g))"
  note c = Task_ctor_state [OF t(1)]
  have fut: "fut = Some ?s" using c(1) t(2) by simp
  have r2: "reachable n g2" using reachable_steps Task_ctor_reachable(1) [OF assms(1,2) t(1)] later(1) by blast
  have s2: "?s < length (states (heap g2))" "is_void (states (heap g2) ! ?s) = void"
    using later_types [OF later(1)] c(4) by (auto simp: same_types_def FutureState_new_def)
  have u: "\<not> is_set (heap g2) ?s" using later(3) fut by (simp add: Future_IsReady_def Check_def IsReady_def is_set_def)
  moreover have "cell_ok (states (heap g2) ! ?s)"
    using reachable_cells [OF r2] s2(1) by (simp add: cells_ok_def list_all_length)
  ultimately have "stored (states (heap g2) ! ?s) = None" by (simp add: cell_ok_def is_set_def)
  note call = Task_call_sets_result [of g2 "task.truncate t" ?s j] this
  have op: "Task_operator g2 j t = Inr (g3, t')"
    using run(2) Task_void_agrees [of g2 t ?s j] later(2) fut s2(2) by (simp split: if_splits)
  then have "g3 = Task_call g2 j (task.truncate t)" "(\<exists>v. f = Inr v) \<longrightarrow> \<not> has_func t'"
    using c(2,3) by (auto simp: Task_operator_def)
  then show ?thesis
    using call later(2) fut s2 u run(1) c(2)
    by (simp add: Future_Get_def Check_def Task_operator_def split: sum.splits)
qed

definition task_start :: "(nat, nat) system" where
  "task_start = fst (Task_ctor (start 1) 0 False (Inr (Some 7)) None 0 [])"

definition start_task :: "(nat, nat) task_object" where
  "start_task = snd (Task_ctor (start 1) 0 False (Inr (Some 7)) None 0 [])"

theorem task_delivers_to_its_future_witness:
  "Future_Get (heap (Task_call task_start 0 (task.truncate start_task))) (Some 0) = Inr (Returns (Some 7))"
proof -
  have c: "Task_ctor (start 1) 0 False (Inr (Some 7)) None 0 [] = (task_start, start_task)"
    by (simp add: task_start_def start_task_def)
  have f: "Task_GetFuture task_start start_task = Inr (Some 0)" by code_simp
  have p: "promises task_start ! task_promise start_task = Some 0" by code_simp
  have r: "Future_IsReady (heap task_start) (Some 0) = Inr False" by code_simp
  have l: "0 < length (agendas task_start)" by code_simp
  have o: "Task_operator task_start 0 start_task =
      Inr (Task_call task_start 0 (task.truncate start_task), start_task\<lparr>has_func := False\<rparr>)"
    by (simp add: Task_operator_def start_task_def Task_ctor_def)
  show ?thesis
    using task_delivers_to_its_future [OF _ _ c f rtranclp.rtrancl_refl p r l, of 1] o
    by (simp add: start_def reachable_def)
qed

text \<open>
  A task that is destroyed before it is called breaks its future: when the thread has run what the
  destructor left, \<open>Get\<close> throws, unless the future had been set.
\<close>

theorem destroyed_task_breaks_its_future:
  assumes "promises g ! task_promise t = Some s" "s < length (states (heap g))" "\<not> is_set (heap g) s"
    "i < length (agendas g)"
  shows "agendas (Task_dtor g i t) ! i = DropPromise s # agendas g ! i \<and> promises (Task_dtor g i t) =
      (promises g)[task_promise t := None] \<and>
    (\<exists>g'. run_step (Task_dtor g i t) g' \<and>
      Future_Get (heap g') (Some s) = Inr (Throws (FutureError EC_BrokenPromise)))"
proof -
  have d: "heap (Task_dtor g i t) = heap g" "agendas (Task_dtor g i t) = (agendas g)[i := DropPromise s # agendas g ! i]"
    "promises (Task_dtor g i t) = (promises g)[task_promise t := None]"
    using assms(1) by (simp_all add: Task_dtor_def call_by_def Promise_dtor_def)
  obtain h cs where st: "step (heap (Task_dtor g i t)) (DropPromise s) = (h, cs)" by fastforce
  then have "Future_Get h (Some s) = Inr (Throws (FutureError EC_BrokenPromise))"
    using assms(2,3) d(1)
    by (auto simp: AboutToDestroyPromise_def is_set_def upd_state_def Future_Get_def Check_def Get_def)
  moreover have "\<exists>g'. run_step (Task_dtor g i t) g' \<and> heap g' = h"
    using run_stepI [of i "Task_dtor g i t" "DropPromise s" "agendas g ! i" h cs] st d(2) assms(4) by fastforce
  ultimately show ?thesis using d assms(4) by (metis nth_list_update_eq)
qed

theorem destroyed_task_breaks_its_future_witness:
  "\<exists>g'. run_step (Task_dtor task_start 0 start_task) g' \<and>
     Future_Get (heap g') (Some 0) = Inr (Throws (FutureError EC_BrokenPromise))"
proof -
  have "promises task_start ! task_promise start_task = Some 0" "0 < length (states (heap task_start))"
    "0 < length (agendas task_start)" "\<not> is_set (heap task_start) 0" by code_simp+
  then show ?thesis using destroyed_task_breaks_its_future [of task_start start_task 0 0] by blast
qed

end
