(* ===== verification/Kernel_Macros.thy ===== *)
theory Kernel_Macros
  imports Azul_Prelude
begin

text \<open>
  \<open>OpenClKernelPre.hpp\<close> and \<open>OpenClKernelPost.hpp\<close> of \<open>include/azul/compute/clcpp\<close>: the two files that
  are included before and after the source of a kernel, so that it compiles as C++. They consist of
  directives of the preprocessor, and of the beginning and the end of a namespace.
\<close>

section \<open>The preprocessor\<close>

text \<open>
  The macros that are defined, with the parameters, if any, at the start of the replacement; and the
  namespaces that are open, the inner one first. Both have effect on the text that follows.
\<close>

record translation =
  macros :: "string \<Rightarrow> string option"
  namespaces :: "string list"

datatype directive =
    Define string string
  | Undef string
  | Ifdef string "directive list"
  | Ifndef string "directive list"
  | Namespace string
  | End_Namespace

definition expand :: "translation \<Rightarrow> string \<Rightarrow> string" where
  "expand s n = (case macros s n of None \<Rightarrow> n | Some r \<Rightarrow> r)"

fun preprocess :: "directive \<Rightarrow> translation \<Rightarrow> translation" where
  "preprocess (Define n r) s = s\<lparr>macros := (macros s)(n \<mapsto> r)\<rparr>"
| "preprocess (Undef n) s = s\<lparr>macros := (macros s)(n := None)\<rparr>"
| "preprocess (Ifdef n ds) s = (if macros s n \<noteq> None then fold preprocess ds s else s)"
| "preprocess (Ifndef n ds) s = (if macros s n = None then fold preprocess ds s else s)"
| "preprocess (Namespace n) s = s\<lparr>namespaces := expand s n # namespaces s\<rparr>"
| "preprocess End_Namespace s = s\<lparr>namespaces := tl (namespaces s)\<rparr>"

section \<open>The two files\<close>

text \<open>
  Without the headers that \<open>OpenClKernelPre.hpp\<close> includes, which define no macro of these names.
\<close>

definition compat_macros :: "(string \<times> string) list" where
  "compat_macros =
     [(''__kernel'', ''static inline''), (''__global'', ''''), (''__local'', ''''), (''__private'', ''''),
      (''__constant'', ''const''),
      (''get_global_id'', ''azul::compute::clcpp::get_global_id''),
      (''uchar'', ''std::uint8_t''),
      (''float2'', ''azul::compute::clcpp::Vec2<float>''), (''float4'', ''azul::compute::clcpp::Vec4<float>''),
      (''double2'', ''azul::compute::clcpp::Vec2<double>''), (''double4'', ''azul::compute::clcpp::Vec4<double>''),
      (''int2'', ''azul::compute::clcpp::Vec2<std::int32_t>''), (''int4'', ''azul::compute::clcpp::Vec4<std::int32_t>''),
      (''uint2'', ''azul::compute::clcpp::Vec2<std::uint32_t>''), (''uint4'', ''azul::compute::clcpp::Vec4<std::uint32_t>''),
      (''make_int2'', ''(a,b) azul::compute::clcpp::Vec2<std::int32_t>(a, b)''),
      (''make_int4'', ''(a,b,c,d) azul::compute::clcpp::Vec4<std::int32_t>(a, b, c, d)''),
      (''make_uint2'', ''(a,b) azul::compute::clcpp::Vec2<std::uint32_t>(a, b)''),
      (''make_uint4'', ''(a,b,c,d) azul::compute::clcpp::Vec4<std::uint32_t>(a, b, c, d)''),
      (''make_float2'', ''(a,b) azul::compute::clcpp::Vec2<float>(a, b)''),
      (''make_float4'', ''(a,b,c,d) azul::compute::clcpp::Vec4<float>(a, b, c, d)''),
      (''native_exp'', ''std::exp'')]"

definition OpenClKernelPre :: "directive list" where
  "OpenClKernelPre =
     [Ifndef ''__OPENCL_HEADER_INCLUDES'' [Define ''__OPENCL_HEADER_INCLUDES'' ''''],
      Ifndef ''__OPENCL_COMPAT_DEFINES''
        (Define ''__OPENCL_COMPAT_DEFINES'' '''' # map (\<lambda>(n, r). Define n r) compat_macros @
         [Ifndef ''OPENCL_KERNEL_NAMESPACE'' [Define ''OPENCL_KERNEL_NAMESPACE'' ''clcpp''],
          Namespace ''OPENCL_KERNEL_NAMESPACE''])]"

definition undefined_macros :: "string list" where
  "undefined_macros =
     [''__OPENCL_COMPAT_DEFINES'', ''OPENCL_KERNEL_NAMESPACE'',
      ''__kernel'', ''__private'', ''__local'', ''__private'', ''__constant'',
      ''get_global_id'',
      ''uchar'', ''float2'', ''float4'', ''double2'', ''double4'', ''int2'', ''int4'', ''uint2'', ''uint4'',
      ''make_int2'', ''make_int4'', ''make_uint2'', ''make_uint4'', ''make_float2'', ''make_float4'',
      ''FLT_MAX'', ''native_exp'']"

definition OpenClKernelPost :: "directive list" where
  "OpenClKernelPost = [Ifdef ''__OPENCL_COMPAT_DEFINES'' (End_Namespace # map Undef undefined_macros)]"

text \<open>What the source of a kernel sees, and what is left after it, when it has no directives itself.\<close>

definition before_kernel :: "translation \<Rightarrow> translation" where
  "before_kernel s = fold preprocess OpenClKernelPre s"

definition after_kernel :: "translation \<Rightarrow> translation" where
  "after_kernel s = fold preprocess OpenClKernelPost (before_kernel s)"

section \<open>Runs of definitions\<close>

lemma fold_Define:
  "fold preprocess (map (\<lambda>(n, r). Define n r) ds) s = s\<lparr>macros := macros s ++ map_of (rev ds)\<rparr>"
proof (induction ds arbitrary: s)
  case (Cons d ds)
  then show ?case by (cases d) (simp add: map_add_def map_of_append fun_eq_iff split: option.split)
qed simp

lemma fold_Undef: "fold preprocess (map Undef ns) s = s\<lparr>macros := macros s |` (- set ns)\<rparr>"
  by (induction ns arbitrary: s) (auto simp: restrict_map_def fun_eq_iff)

lemma macro_names:
  "''__OPENCL_HEADER_INCLUDES'' \<notin> fst ` set compat_macros" "''__OPENCL_COMPAT_DEFINES'' \<notin> fst ` set compat_macros"
  "''OPENCL_KERNEL_NAMESPACE'' \<notin> fst ` set compat_macros" "''__OPENCL_COMPAT_DEFINES'' \<in> set undefined_macros"
  "''OPENCL_KERNEL_NAMESPACE'' \<in> set undefined_macros" "''__OPENCL_HEADER_INCLUDES'' \<notin> set undefined_macros"
  "''__global'' \<notin> set undefined_macros" "map_of (rev compat_macros) ''__global'' = Some ''''"
  "list_all (\<lambda>n. n = ''__global'' \<or> n \<in> set undefined_macros) (map fst compat_macros)"
  by code_simp+

lemma kept_macro: "n \<in> fst ` set compat_macros \<Longrightarrow> n \<noteq> ''__global'' \<Longrightarrow> n \<in> set undefined_macros"
  using macro_names(9) by (auto simp: list_all_iff)

lemma not_compat: "n \<notin> fst ` set compat_macros \<Longrightarrow> map_of (rev compat_macros) n = None"
  by (simp add: map_of_eq_None_iff)

text \<open>The macros that the kernel sees, when \<open>OpenClKernelPre.hpp\<close> is not in effect already.\<close>

definition kernel_macros :: "(string \<Rightarrow> string option) \<Rightarrow> string \<Rightarrow> string option" where
  "kernel_macros m n =
     (if n \<in> {''__OPENCL_HEADER_INCLUDES'', ''OPENCL_KERNEL_NAMESPACE''} \<and> m n \<noteq> None then m n
      else if n \<in> {''__OPENCL_HEADER_INCLUDES'', ''__OPENCL_COMPAT_DEFINES''} then Some ''''
      else if n = ''OPENCL_KERNEL_NAMESPACE'' then Some ''clcpp''
      else if n \<in> fst ` set compat_macros then map_of (rev compat_macros) n
      else m n)"

lemma kernel_namespace_macro:
  "kernel_macros m ''OPENCL_KERNEL_NAMESPACE'' =
     Some (case m ''OPENCL_KERNEL_NAMESPACE'' of None \<Rightarrow> ''clcpp'' | Some r \<Rightarrow> r)"
  by (auto simp: kernel_macros_def split: option.split)

lemma before_kernel_eq:
  assumes "macros s ''__OPENCL_COMPAT_DEFINES'' = None"
  shows "before_kernel s = s\<lparr>macros := kernel_macros (macros s),
    namespaces := (case macros s ''OPENCL_KERNEL_NAMESPACE'' of None \<Rightarrow> ''clcpp'' | Some r \<Rightarrow> r) # namespaces s\<rparr>"
proof -
  let ?m = "macros s"
  let ?h = "if ?m ''__OPENCL_HEADER_INCLUDES'' = None then ?m(''__OPENCL_HEADER_INCLUDES'' \<mapsto> '''') else ?m"
  let ?d = "?h(''__OPENCL_COMPAT_DEFINES'' \<mapsto> '''') ++ map_of (rev compat_macros)"
  have n: "?d ''OPENCL_KERNEL_NAMESPACE'' = ?m ''OPENCL_KERNEL_NAMESPACE''"
    using not_compat [OF macro_names(3)] by (simp add: map_add_def)
  let ?e = "if ?m ''OPENCL_KERNEL_NAMESPACE'' = None then ?d(''OPENCL_KERNEL_NAMESPACE'' \<mapsto> ''clcpp'') else ?d"
  have e: "?e = kernel_macros ?m"
  proof
    fix i
    consider "i = ''__OPENCL_HEADER_INCLUDES''" | "i = ''__OPENCL_COMPAT_DEFINES''" | "i = ''OPENCL_KERNEL_NAMESPACE''" |
      (compat) "i \<in> fst ` set compat_macros" "i \<noteq> ''__OPENCL_HEADER_INCLUDES''" "i \<noteq> ''__OPENCL_COMPAT_DEFINES''"
        "i \<noteq> ''OPENCL_KERNEL_NAMESPACE''" |
      (other) "i \<notin> fst ` set compat_macros" "i \<noteq> ''__OPENCL_HEADER_INCLUDES''" "i \<noteq> ''__OPENCL_COMPAT_DEFINES''"
        "i \<noteq> ''OPENCL_KERNEL_NAMESPACE''" by blast
    then show "?e i = kernel_macros ?m i"
    proof cases
      case compat
      then obtain r where "map_of (rev compat_macros) i = Some r"
        using map_of_eq_None_iff [of "rev compat_macros" i] by auto
      then show ?thesis using compat by (simp add: kernel_macros_def map_add_def)
    qed (use n not_compat [OF macro_names(1)] not_compat [OF macro_names(2)] not_compat in
      \<open>auto simp: kernel_macros_def map_add_def\<close>)
  qed
  have "before_kernel s = s\<lparr>macros := ?e, namespaces := expand (s\<lparr>macros := ?e\<rparr>) ''OPENCL_KERNEL_NAMESPACE'' # namespaces s\<rparr>"
    using assms n not_compat [OF macro_names(3)]
    by (cases "?m ''OPENCL_KERNEL_NAMESPACE''"; cases "?m ''__OPENCL_HEADER_INCLUDES''")
      (simp_all add: before_kernel_def OpenClKernelPre_def fold_Define expand_def map_add_Some_iff)
  then show ?thesis unfolding e by (simp add: expand_def kernel_namespace_macro)
qed

section \<open>Properties\<close>

text \<open>
  C31. The kernel is compiled in the namespace that \<open>OPENCL_KERNEL_NAMESPACE\<close> names, or else in \<open>clcpp\<close>; after
  it the same namespaces are open as before. But the macros are not the ones from before: every name that
  the second file undefines is undefined, \<open>FLT_MAX\<close> among them, which the first file does not define;
  and \<open>__global\<close>, which it does define, stays defined as nothing.
\<close>

theorem kernel_headers_effect:
  assumes "macros s ''__OPENCL_COMPAT_DEFINES'' = None"
  shows "namespaces (before_kernel s) =
      (case macros s ''OPENCL_KERNEL_NAMESPACE'' of None \<Rightarrow> ''clcpp'' | Some n \<Rightarrow> n) # namespaces s \<and>
    namespaces (after_kernel s) = namespaces s \<and>
    macros (after_kernel s) n =
      (if n \<in> set undefined_macros then None
       else if n = ''__global'' \<or> n = ''__OPENCL_HEADER_INCLUDES'' \<and> macros s n = None then Some ''''
       else macros s n)"
proof -
  note b = before_kernel_eq [OF assms]
  have "macros (before_kernel s) ''__OPENCL_COMPAT_DEFINES'' = Some ''''" by (simp add: b kernel_macros_def)
  then have a: "after_kernel s = (before_kernel s)\<lparr>namespaces := tl (namespaces (before_kernel s)),
      macros := macros (before_kernel s) |` (- set undefined_macros)\<rparr>"
    by (simp add: after_kernel_def OpenClKernelPost_def fold_Undef)
  have k: "kernel_macros (macros s) n =
      (if n = ''__global'' \<or> n = ''__OPENCL_HEADER_INCLUDES'' \<and> macros s n = None then Some '''' else macros s n)"
    if "n \<notin> set undefined_macros"
  proof -
    have "n \<noteq> ''__OPENCL_COMPAT_DEFINES''" "n \<noteq> ''OPENCL_KERNEL_NAMESPACE''"
      using that macro_names(4,5) by metis+
    moreover have "n \<in> fst ` set compat_macros \<longleftrightarrow> n = ''__global''"
    proof
      show "n \<in> fst ` set compat_macros \<Longrightarrow> n = ''__global''" using kept_macro that by blast
      show "n = ''__global'' \<Longrightarrow> n \<in> fst ` set compat_macros"
        using macro_names(8) not_compat [of "''__global''"] by (metis option.distinct(1))
    qed
    ultimately show ?thesis using macro_names(8) by (auto simp: kernel_macros_def)
  qed
  show ?thesis using k by (simp add: a b restrict_map_def)
qed

definition with_float_limits :: translation where
  "with_float_limits = \<lparr>macros = [''FLT_MAX'' \<mapsto> ''__FLT_MAX__''], namespaces = []\<rparr>"

theorem kernel_headers_effect_witness:
  "macros with_float_limits ''FLT_MAX'' = Some ''__FLT_MAX__'' \<and> macros (after_kernel with_float_limits) ''FLT_MAX'' = None"
  using kernel_headers_effect [of with_float_limits "''FLT_MAX''"]
  by (simp add: with_float_limits_def undefined_macros_def)

text \<open>
  The two files can be used several times: a second inclusion of the first one before the second changes
  nothing, and a second inclusion of the second one after that changes nothing.
\<close>

theorem kernel_headers_once:
  "fold preprocess OpenClKernelPre (before_kernel s) = before_kernel s \<and>
   fold preprocess OpenClKernelPost (after_kernel s) = after_kernel s"
proof -
  have guard: "macros (before_kernel s) ''__OPENCL_COMPAT_DEFINES'' \<noteq> None \<and>
      macros (before_kernel s) ''__OPENCL_HEADER_INCLUDES'' \<noteq> None"
  proof (cases "macros s ''__OPENCL_COMPAT_DEFINES''")
    case None
    then show ?thesis by (simp add: before_kernel_eq kernel_macros_def)
  next
    case (Some r)
    then show ?thesis by (simp add: before_kernel_def OpenClKernelPre_def)
  qed
  have "macros (after_kernel s) ''__OPENCL_COMPAT_DEFINES'' = None"
    using guard macro_names(4) by (simp add: after_kernel_def OpenClKernelPost_def fold_Undef restrict_map_def)
  moreover have "fold preprocess OpenClKernelPre (before_kernel s) = before_kernel s"
    using guard by (auto simp: OpenClKernelPre_def)
  ultimately show ?thesis by (simp add: OpenClKernelPost_def)
qed

end
